(* ===== verification/Server_Prelude.thy ===== *)
theory Server_Prelude
  imports Main "HOL-Library.Word"
begin

unbundle bit_operations_syntax

text \<open>
  Shared vocabulary of the wineserver model: the machine integer types of the protocol
  (\<^verbatim>\<open>include/wine/server_protocol.h\<close>), the NTSTATUS codes the server sets, and the
  generic facts on words, lists and bounded searches that the components use.

  A server function that fails calls \<^verbatim>\<open>set_error\<close> and returns a null value; it is
  modelled by a value of a sum type, \<open>Inl\<close> of the status for the failure and \<open>Inr\<close>
  of the result otherwise, unless the error code is itself part of the state the caller
  reads, in which case it is a field of that state.
\<close>

type_synonym u8 = "8 word"
type_synonym u16 = "16 word"
type_synonym u32 = "32 word"
type_synonym u64 = "64 word"

type_synonym ntstatus = u32
type_synonym 'a result = "ntstatus + 'a"

section \<open>NTSTATUS codes\<close>

text \<open>The values are those of \<^verbatim>\<open>include/ntstatus.h\<close>.\<close>

abbreviation (input) STATUS_SUCCESS :: ntstatus where "STATUS_SUCCESS \<equiv> 0"
abbreviation (input) STATUS_WAIT_0 :: ntstatus where "STATUS_WAIT_0 \<equiv> 0"
abbreviation (input) STATUS_ABANDONED_WAIT_0 :: ntstatus where "STATUS_ABANDONED_WAIT_0 \<equiv> 0x80"
abbreviation (input) STATUS_USER_APC :: ntstatus where "STATUS_USER_APC \<equiv> 0xC0"
abbreviation (input) STATUS_KERNEL_APC :: ntstatus where "STATUS_KERNEL_APC \<equiv> 0x100"
abbreviation (input) STATUS_TIMEOUT :: ntstatus where "STATUS_TIMEOUT \<equiv> 0x102"
abbreviation (input) STATUS_PENDING :: ntstatus where "STATUS_PENDING \<equiv> 0x103"
abbreviation (input) STATUS_OBJECT_NAME_EXISTS :: ntstatus where
  "STATUS_OBJECT_NAME_EXISTS \<equiv> 0x40000000"
abbreviation (input) STATUS_BUFFER_OVERFLOW :: ntstatus where "STATUS_BUFFER_OVERFLOW \<equiv> 0x80000005"
abbreviation (input) STATUS_INVALID_HANDLE :: ntstatus where "STATUS_INVALID_HANDLE \<equiv> 0xC0000008"
abbreviation (input) STATUS_INVALID_PARAMETER :: ntstatus where
  "STATUS_INVALID_PARAMETER \<equiv> 0xC000000D"
abbreviation (input) STATUS_NO_MEMORY :: ntstatus where "STATUS_NO_MEMORY \<equiv> 0xC0000017"
abbreviation (input) STATUS_ACCESS_DENIED :: ntstatus where "STATUS_ACCESS_DENIED \<equiv> 0xC0000022"
abbreviation (input) STATUS_BUFFER_TOO_SMALL :: ntstatus where
  "STATUS_BUFFER_TOO_SMALL \<equiv> 0xC0000023"
abbreviation (input) STATUS_OBJECT_TYPE_MISMATCH :: ntstatus where
  "STATUS_OBJECT_TYPE_MISMATCH \<equiv> 0xC0000024"
abbreviation (input) STATUS_OBJECT_NAME_INVALID :: ntstatus where
  "STATUS_OBJECT_NAME_INVALID \<equiv> 0xC0000033"
abbreviation (input) STATUS_OBJECT_NAME_NOT_FOUND :: ntstatus where
  "STATUS_OBJECT_NAME_NOT_FOUND \<equiv> 0xC0000034"
abbreviation (input) STATUS_MUTANT_NOT_OWNED :: ntstatus where
  "STATUS_MUTANT_NOT_OWNED \<equiv> 0xC0000046"
abbreviation (input) STATUS_SEMAPHORE_LIMIT_EXCEEDED :: ntstatus where
  "STATUS_SEMAPHORE_LIMIT_EXCEEDED \<equiv> 0xC0000047"
abbreviation (input) STATUS_SUSPEND_COUNT_EXCEEDED :: ntstatus where
  "STATUS_SUSPEND_COUNT_EXCEEDED \<equiv> 0xC000004A"
abbreviation (input) STATUS_INSUFFICIENT_RESOURCES :: ntstatus where
  "STATUS_INSUFFICIENT_RESOURCES \<equiv> 0xC000009A"
abbreviation (input) STATUS_PROCESS_IS_TERMINATING :: ntstatus where
  "STATUS_PROCESS_IS_TERMINATING \<equiv> 0xC000010A"
abbreviation (input) STATUS_HANDLE_NOT_CLOSABLE :: ntstatus where
  "STATUS_HANDLE_NOT_CLOSABLE \<equiv> 0xC0000235"
abbreviation (input) STATUS_NOT_SAME_OBJECT :: ntstatus where "STATUS_NOT_SAME_OBJECT \<equiv> 0xC00001AC"

section \<open>Words as natural numbers\<close>

text \<open>
  The components read bit fields with shifts and masks; these rules turn them into
  \<open>div\<close> and \<open>mod\<close> on \<open>nat\<close>, where linear arithmetic finishes.
\<close>

named_theorems unat_simps \<open>shifts, masks and casts of words as arithmetic on their unat\<close>

lemma unat_less_2p: "unat (w::'a::len word) < 2 ^ LENGTH('a)"
  by (rule unsigned_less)

lemma unat_drop_bit [unat_simps]: "unat (drop_bit n (w::'a::len word)) = unat w div 2 ^ n"
  by (simp only: unsigned_drop_bit_eq) (simp add: drop_bit_eq_div take_bit_eq_mod unsigned_less)

lemma unat_and_mask [unat_simps]: "unat ((w::'a::len word) AND mask n) = unat w mod 2 ^ n"
  by (metis take_bit_eq_mask take_bit_eq_mod unsigned_take_bit_eq)

lemma unat_and_ffff [unat_simps]: "unat ((w::u32) AND 0xffff) = unat w mod 65536"
proof -
  have "(0xffff :: u32) = mask 16" by (simp add: mask_numeral)
  then have "unat (w AND 0xffff) = unat w mod 2 ^ 16" by (simp only: unat_and_mask)
  then show ?thesis by simp
qed

lemma unat_ucast_mod [unat_simps]:
  "unat (ucast (w::'a::len word) :: 'b::len word) = unat w mod 2 ^ LENGTH('b)"
  by (simp add: unsigned_ucast_eq take_bit_eq_mod)

lemma unat_of_nat_mod: "unat (of_nat n :: 'a::len word) = n mod 2 ^ LENGTH('a)"
  by (simp add: unat_of_nat take_bit_eq_mod)

lemma unat_of_nat_less [unat_simps]:
  "n < 2 ^ LENGTH('a) \<Longrightarrow> unat (of_nat n :: 'a::len word) = n"
  by (simp add: unat_of_nat_mod)

lemma of_nat_word_eq_iff:
  "m < 2 ^ LENGTH('a) \<Longrightarrow> n < 2 ^ LENGTH('a) \<Longrightarrow>
   (of_nat m :: 'a::len word) = of_nat n \<longleftrightarrow> m = n"
  by (metis unat_of_nat_less)

lemma sint_of_nat_less:
  assumes "n < 2 ^ (LENGTH('a) - 1)"
  shows "sint (of_nat n :: 'a::len word) = int n"
proof -
  have a: "- (2 ^ (LENGTH('a) - 1)) \<le> int n"
    by (rule order_trans [of _ 0]) simp_all
  have b: "int n < 2 ^ (LENGTH('a) - 1)"
    using assms by (metis of_nat_less_iff of_nat_numeral of_nat_power)
  have "sint (of_nat n :: 'a word) = signed_take_bit (LENGTH('a) - 1) (int n)"
    by (simp add: signed_of_nat)
  also have "\<dots> = int n"
    by (rule signed_take_bit_int_eq_self [OF a b])
  finally show ?thesis .
qed

section \<open>Bounded searches\<close>

lemma first_index_Cons:
  "(\<exists>k < length (x # xs). j = n + k \<and> P ((x # xs) ! k) \<and> (\<forall>l < k. \<not> P ((x # xs) ! l))) \<longleftrightarrow>
   (if P x then j = n else \<exists>k < length xs. j = Suc n + k \<and> P (xs ! k) \<and> (\<forall>l < k. \<not> P (xs ! l)))"
  by (simp only: length_Cons Ex_less_Suc2 All_less_Suc2 nth_Cons_0 nth_Cons_Suc) auto

end
