(* ===== verification/User_Handles.thy ===== *)
theory User_Handles
  imports Server_Prelude
begin

unbundle bit_operations_syntax

text \<open>
  USER handles, \<^verbatim>\<open>server/user.c\<close>: the table of window, menu, hook and cursor handles
  that the server shares with its clients.  A handle packs the index of a slot and the
  generation counter of that slot; freed slots are chained through their \<open>offset\<close> field.
\<close>

section \<open>Data\<close>

definition FIRST_USER_HANDLE :: nat where "FIRST_USER_HANDLE = 0x0020"

definition LAST_USER_HANDLE :: nat where "LAST_USER_HANDLE = 0xffef"

definition MAX_USER_HANDLES :: nat where
  "MAX_USER_HANDLES = (LAST_USER_HANDLE - FIRST_USER_HANDLE + 1) div 2"

definition NTUSER_OBJ_WINDOW :: u16 where "NTUSER_OBJ_WINDOW = 0x01"
definition NTUSER_OBJ_MENU :: u16 where "NTUSER_OBJ_MENU = 0x02"
definition NTUSER_OBJ_ICON :: u16 where "NTUSER_OBJ_ICON = 0x03"
definition NTUSER_OBJ_WINPOS :: u16 where "NTUSER_OBJ_WINPOS = 0x04"
definition NTUSER_OBJ_ACCEL :: u16 where "NTUSER_OBJ_ACCEL = 0x08"
definition NTUSER_OBJ_HOOK :: u16 where "NTUSER_OBJ_HOOK = 0x0f"
definition NTUSER_OBJ_IMC :: u16 where "NTUSER_OBJ_IMC = 0x11"

record user_entry =
  ue_offset :: u64
  ue_tid :: u32
  ue_pid :: u32
  ue_id :: u64
  ue_type :: u16
  ue_generation :: u16

record obj_locator =
  loc_id :: u64
  loc_offset :: u64

text \<open>
  \<open>user_entries\<close> holds the slots below \<^verbatim>\<open>nb_handles\<close> of the shared array, so
  \<^verbatim>\<open>nb_handles\<close> is its length.  \<open>'p\<close> stands for the server-side pointer type; an
  entry pointer of the source is its index.
\<close>

record 'p user_state =
  user_entries :: "user_entry list"
  server_objects :: "nat \<Rightarrow> 'p option"
  freelist :: u64

definition init_user_state :: "'p user_state" where
  "init_user_state = \<lparr>user_entries = [], server_objects = (\<lambda>_. None), freelist = - 1\<rparr>"

abbreviation nb_handles :: "'p user_state \<Rightarrow> nat" where
  "nb_handles s \<equiv> length (user_entries s)"

section \<open>Slots\<close>

definition get_server_object :: "'p user_state \<Rightarrow> nat \<Rightarrow> 'p option" where
  "get_server_object s i = server_objects s i"

definition set_server_object :: "'p user_state \<Rightarrow> nat \<Rightarrow> 'p option \<Rightarrow> 'p option \<times> 'p user_state" where
  "set_server_object s i ptr =
     (server_objects s i, s\<lparr>server_objects := (server_objects s)(i := ptr)\<rparr>)"

text \<open>
  The index is computed on unsigned ints and then read as a C \<open>int\<close>, so a low word
  below \<open>FIRST_USER_HANDLE\<close> wraps to an index that is out of range.
\<close>

definition handle_index :: "u32 \<Rightarrow> int" where
  "handle_index handle = sint (drop_bit 1 ((handle AND 0xffff) - of_nat FIRST_USER_HANDLE))"

definition handle_to_entry :: "'p user_state \<Rightarrow> u32 \<Rightarrow> nat option" where
  "handle_to_entry s handle =
     (let generation = ucast (drop_bit 16 handle) :: u16;
          index = handle_index handle
      in if index < 0 \<or> index \<ge> int (nb_handles s) then None
         else let entry = user_entries s ! nat index
              in if ue_type entry = 0 then None
                 else if generation = 0 \<or> generation = 0xffff then Some (nat index)
                 else if generation = ue_generation entry then Some (nat index)
                 else None)"

definition entry_to_handle :: "'p user_state \<Rightarrow> nat \<Rightarrow> u32" where
  "entry_to_handle s i =
     push_bit 1 (of_nat i) + of_nat FIRST_USER_HANDLE +
     push_bit 16 (ucast (ue_generation (user_entries s ! i)))"

text \<open>
  \<open>None\<close> is a write outside the shared array: \<^verbatim>\<open>alloc_user_entry\<close> itself checks
  nothing, neither the bound of the array nor the index it takes from the free list.
\<close>

definition alloc_user_entry ::
  "u32 \<Rightarrow> u32 \<Rightarrow> 'p user_state \<Rightarrow> obj_locator \<Rightarrow> u16 \<Rightarrow> (nat \<times> 'p user_state) option" where
  "alloc_user_entry tid pid s locator type =
     (let (i, generation, s1) =
        (if freelist s \<noteq> - 1
         then let i = unat (freelist s); entry = user_entries s ! i
              in (i, ue_generation entry + 1, s\<lparr>freelist := ue_offset entry\<rparr>)
         else (nb_handles s, 1,
               s\<lparr>user_entries := user_entries s @
                   [\<lparr>ue_offset = 0, ue_tid = 0, ue_pid = 0, ue_id = 0, ue_type = 0,
                     ue_generation = 0\<rparr>]\<rparr>));
          generation = (if generation = 0 \<or> generation = 0xffff then 1 else generation)
      in if i \<ge> MAX_USER_HANDLES \<or> i \<ge> nb_handles s1 then None
         else Some (i, s1\<lparr>user_entries := (user_entries s1)[i :=
                \<lparr>ue_offset = loc_offset locator, ue_tid = tid, ue_pid = pid,
                 ue_id = loc_id locator, ue_type = type, ue_generation = generation\<rparr>]\<rparr>))"

definition free_user_entry :: "'p user_state \<Rightarrow> nat \<Rightarrow> 'p user_state" where
  "free_user_entry s i =
     (let entry = user_entries s ! i
      in s\<lparr>user_entries := (user_entries s)[i :=
             entry\<lparr>ue_type := 0, ue_offset := freelist s\<rparr>],
           freelist := of_nat i\<rparr>)"

section \<open>Operations\<close>

definition alloc_user_handle ::
  "u32 \<Rightarrow> u32 \<Rightarrow> 'p user_state \<Rightarrow> 'p \<Rightarrow> obj_locator option \<Rightarrow> u16 \<Rightarrow> (u32 \<times> 'p user_state) option" where
  "alloc_user_handle tid pid s ptr shared type =
     (let locator = (case shared of Some l \<Rightarrow> l | None \<Rightarrow> \<lparr>loc_id = 0, loc_offset = 0\<rparr>)
      in case alloc_user_entry tid pid s locator type of
           None \<Rightarrow> None
         | Some (i, s1) \<Rightarrow>
             (let s2 = snd (set_server_object s1 i (Some ptr))
              in Some (entry_to_handle s2 i, s2)))"

definition get_user_object :: "'p user_state \<Rightarrow> u32 \<Rightarrow> u16 \<Rightarrow> 'p option" where
  "get_user_object s handle type =
     (case handle_to_entry s handle of
        None \<Rightarrow> None
      | Some i \<Rightarrow> if ue_type (user_entries s ! i) \<noteq> type then None else get_server_object s i)"

definition get_user_full_handle :: "'p user_state \<Rightarrow> u32 \<Rightarrow> u32" where
  "get_user_full_handle s handle =
     (if drop_bit 16 handle \<noteq> 0 then handle
      else case handle_to_entry s handle of
             None \<Rightarrow> handle
           | Some i \<Rightarrow> entry_to_handle s i)"

text \<open>The handle is passed by reference: the result pairs the object with the new handle.\<close>

definition get_user_object_handle :: "'p user_state \<Rightarrow> u32 \<Rightarrow> u16 \<Rightarrow> 'p option \<times> u32" where
  "get_user_object_handle s handle type =
     (case handle_to_entry s handle of
        None \<Rightarrow> (None, handle)
      | Some i \<Rightarrow> if ue_type (user_entries s ! i) \<noteq> type then (None, handle)
                  else (get_server_object s i, entry_to_handle s i))"

definition free_user_handle :: "'p user_state \<Rightarrow> u32 \<Rightarrow> ('p option \<times> 'p user_state) result" where
  "free_user_handle s handle =
     (case handle_to_entry s handle of
        None \<Rightarrow> Inl STATUS_INVALID_HANDLE
      | Some i \<Rightarrow> (let (ret, s1) = set_server_object s i None
                   in Inr (ret, free_user_entry s1 i)))"

fun scan_user_entries :: "u16 \<Rightarrow> nat \<Rightarrow> user_entry list \<Rightarrow> nat option" where
  "scan_user_entries type i [] = None"
| "scan_user_entries type i (entry # rest) =
     (if type = 0 \<or> ue_type entry = type then Some i
      else scan_user_entries type (Suc i) rest)"

definition next_user_handle :: "'p user_state \<Rightarrow> u32 \<Rightarrow> u16 \<Rightarrow> 'p option \<times> u32" where
  "next_user_handle s handle type =
     (let start = (if handle = 0 then Some 0
                   else let index = handle_index handle
                        in if index < 0 \<or> index \<ge> int (nb_handles s) then None
                           else Some (Suc (nat index)))
      in case start of
           None \<Rightarrow> (None, handle)
         | Some i \<Rightarrow>
             (case scan_user_entries type i (drop i (user_entries s)) of
                None \<Rightarrow> (None, handle)
              | Some j \<Rightarrow> (get_server_object s j, entry_to_handle s j)))"

text \<open>The types whose objects live in the client, freed when their process ends.\<close>

definition is_client_obj_type :: "u16 \<Rightarrow> bool" where
  "is_client_obj_type t =
     (t = NTUSER_OBJ_MENU \<or> t = NTUSER_OBJ_ICON \<or> t = NTUSER_OBJ_WINPOS \<or>
      t = NTUSER_OBJ_ACCEL \<or> t = NTUSER_OBJ_IMC)"

definition free_process_entry :: "u32 \<Rightarrow> nat \<Rightarrow> 'p user_state \<Rightarrow> 'p user_state" where
  "free_process_entry pid i s =
     (let entry = user_entries s ! i
      in if is_client_obj_type (ue_type entry) \<and> ue_pid entry = pid
         then free_user_entry s i else s)"

definition free_process_user_handles :: "u32 \<Rightarrow> 'p user_state \<Rightarrow> 'p user_state" where
  "free_process_user_handles pid s = fold (free_process_entry pid) [0..<nb_handles s] s"

text \<open>The two request handlers; \<open>never_used\<close> is the pointer \<open>(void *)-1\<close> of the source.\<close>

definition req_alloc_user_handle ::
  "'p \<Rightarrow> u32 \<Rightarrow> u32 \<Rightarrow> 'p user_state \<Rightarrow> u16 \<Rightarrow> (u32 \<times> 'p user_state) option" where
  "req_alloc_user_handle never_used tid pid s type =
     alloc_user_handle tid pid s never_used None type"

definition req_free_user_handle :: "'p user_state \<Rightarrow> u32 \<Rightarrow> u16 \<Rightarrow> 'p user_state result" where
  "req_free_user_handle s handle type =
     (case handle_to_entry s handle of
        Some i \<Rightarrow> if ue_type (user_entries s ! i) = type then Inr (free_user_entry s i)
                  else Inl STATUS_INVALID_HANDLE
      | None \<Rightarrow> Inl STATUS_INVALID_HANDLE)"

section \<open>Handles as numbers\<close>

lemma MAX_USER_HANDLES_eq: "MAX_USER_HANDLES = 32744"
  by (simp add: MAX_USER_HANDLES_def LAST_USER_HANDLE_def FIRST_USER_HANDLE_def)

lemma unat_entry_to_handle:
  assumes "i < MAX_USER_HANDLES"
  shows "unat (entry_to_handle s i) =
    2 * i + 32 + 65536 * unat (ue_generation (user_entries s ! i))"
proof -
  let ?g = "ue_generation (user_entries s ! i)"
  have i: "i < 32744" using assms by (simp add: MAX_USER_HANDLES_eq)
  have g: "unat ?g < 65536" using unat_less_2p[of ?g] by simp
  have u: "(ucast ?g :: u32) = of_nat (unat ?g)" by (simp add: of_nat_unat)
  have e: "entry_to_handle s i = of_nat (2 * i + 32 + 65536 * unat ?g)"
    unfolding entry_to_handle_def FIRST_USER_HANDLE_def u
    by (simp add: push_bit_eq_mult)
  show ?thesis unfolding e by (rule unat_of_nat_less) (use i g in simp)
qed

lemma generation_of_entry_handle:
  assumes "i < MAX_USER_HANDLES"
  shows "ucast (drop_bit 16 (entry_to_handle s i)) = ue_generation (user_entries s ! i)"
proof -
  have i: "2 * i + 32 < 65536" using assms by (simp add: MAX_USER_HANDLES_eq)
  have g: "unat (ue_generation (user_entries s ! i)) < 65536"
    using unat_less_2p [of "ue_generation (user_entries s ! i)"] by simp
  have "unat (ucast (drop_bit 16 (entry_to_handle s i)) :: u16) =
     unat (ue_generation (user_entries s ! i))"
    using i g by (simp only: unat_simps unat_entry_to_handle[OF assms]) simp
  then show ?thesis by (simp only: word_unat_eq_iff)
qed

lemma handle_index_eq:
  assumes "unat h mod 65536 div 2 = i + 16" "i < MAX_USER_HANDLES"
  shows "handle_index h = int i"
proof -
  let ?l = "unat h mod 65536"
  have i: "i < 32744" using assms by (simp add: MAX_USER_HANDLES_eq)
  have l: "32 \<le> ?l" "?l < 65536" using assms(1) by simp_all
  have "h AND 0xffff = of_nat (unat (h AND 0xffff))" by simp
  then have "h AND 0xffff = of_nat ?l" by (simp only: unat_and_ffff)
  then have d: "(h AND 0xffff) - of_nat FIRST_USER_HANDLE = of_nat (?l - 32)"
    using l(1) by (simp add: FIRST_USER_HANDLE_def of_nat_diff)
  have "unat (drop_bit 1 (of_nat (?l - 32) :: u32)) = i"
  proof -
    have "unat (of_nat (?l - 32) :: u32) = ?l - 32"
      by (rule unat_of_nat_less) (use l in simp)
    then have "unat (drop_bit 1 (of_nat (?l - 32) :: u32)) = (?l - 32) div 2 ^ 1"
      by (simp only: unat_drop_bit)
    also have "\<dots> = i" using assms(1) by simp
    finally show ?thesis .
  qed
  then have "drop_bit 1 ((h AND 0xffff) - of_nat FIRST_USER_HANDLE) = of_nat i"
    unfolding d word_unat_eq_iff using i by (simp only: unat_of_nat_mod) simp
  then show ?thesis unfolding handle_index_def using i by (simp add: sint_of_nat_less)
qed

lemma handle_index_entry:
  assumes "i < MAX_USER_HANDLES"
  shows "handle_index (entry_to_handle s i) = int i"
proof (rule handle_index_eq [OF _ assms])
  show "unat (entry_to_handle s i) mod 65536 div 2 = i + 16"
    using assms by (simp add: unat_entry_to_handle MAX_USER_HANDLES_eq)
qed

section \<open>Well-formed tables\<close>

fun free_chain :: "user_entry list \<Rightarrow> u64 \<Rightarrow> nat list \<Rightarrow> bool" where
  "free_chain es f [] = (f = - 1)"
| "free_chain es f (i # is) =
     (f = of_nat i \<and> i < length es \<and> ue_type (es ! i) = 0 \<and>
      free_chain es (ue_offset (es ! i)) is)"

definition valid_generation :: "u16 \<Rightarrow> bool" where
  "valid_generation g = (g \<noteq> 0 \<and> g \<noteq> 0xffff)"

definition user_wf :: "'p user_state \<Rightarrow> bool" where
  "user_wf s =
     (nb_handles s \<le> MAX_USER_HANDLES \<and>
      (\<forall>e \<in> set (user_entries s). valid_generation (ue_generation e)) \<and>
      (\<exists>fs. distinct fs \<and> free_chain (user_entries s) (freelist s) fs))"

definition next_generation :: "u16 \<Rightarrow> u16" where
  "next_generation g = (if g + 1 = 0 \<or> g + 1 = 0xffff then 1 else g + 1)"

lemma free_chain_update:
  "i \<notin> set fs \<Longrightarrow> free_chain (es[i := e]) f fs = free_chain es f fs"
  by (induction fs arbitrary: f) auto

lemma free_chain_append: "free_chain es f fs \<Longrightarrow> free_chain (es @ ys) f fs"
  by (induction fs arbitrary: f) (auto simp: nth_append)

lemma free_chain_free: "free_chain es f fs \<Longrightarrow> i \<in> set fs \<Longrightarrow> i < length es \<and> ue_type (es ! i) = 0"
  by (induction fs arbitrary: f) auto

lemma valid_next_generation: "valid_generation (next_generation g)"
  by (auto simp: valid_generation_def next_generation_def)

lemma init_user_wf: "user_wf init_user_state"
  unfolding user_wf_def init_user_state_def by (auto intro: exI [of _ "[]"])

lemma unat_of_nat_index: "i < MAX_USER_HANDLES \<Longrightarrow> unat (of_nat i :: u64) = i"
  by (rule unat_of_nat_less) (simp add: MAX_USER_HANDLES_eq)

lemma of_nat_index_not_minus1: "i < MAX_USER_HANDLES \<Longrightarrow> (of_nat i :: u64) \<noteq> - 1"
proof
  assume i: "i < MAX_USER_HANDLES" and "(of_nat i :: u64) = - 1"
  then have "unat (- 1 :: u64) = i" using unat_of_nat_index [OF i] by simp
  then show False
    using i by (simp add: MAX_USER_HANDLES_eq unsigned_minus_1_eq_mask mask_eq_exp_minus_1)
qed

definition fresh_entry :: "u32 \<Rightarrow> u32 \<Rightarrow> obj_locator \<Rightarrow> u16 \<Rightarrow> u16 \<Rightarrow> user_entry" where
  "fresh_entry tid pid loc ty g =
     \<lparr>ue_offset = loc_offset loc, ue_tid = tid, ue_pid = pid, ue_id = loc_id loc,
      ue_type = ty, ue_generation = g\<rparr>"

lemma fresh_entry_simps [simp]:
  "ue_type (fresh_entry tid pid loc ty g) = ty"
  "ue_generation (fresh_entry tid pid loc ty g) = g"
  "ue_pid (fresh_entry tid pid loc ty g) = pid"
  by (simp_all add: fresh_entry_def)

lemma alloc_user_entry_cases:
  assumes wf: "user_wf s"
  obtains
    (full) "alloc_user_entry tid pid s loc ty = None" "freelist s = - 1"
      "nb_handles s = MAX_USER_HANDLES"
  | (grow) "alloc_user_entry tid pid s loc ty =
        Some (nb_handles s, s\<lparr>user_entries := user_entries s @ [fresh_entry tid pid loc ty 1]\<rparr>)"
      "freelist s = - 1" "nb_handles s < MAX_USER_HANDLES"
  | (reuse) i rest where "freelist s = of_nat i" "i < nb_handles s" "i < MAX_USER_HANDLES"
      "ue_type (user_entries s ! i) = 0" "i \<notin> set rest" "distinct rest"
      "free_chain (user_entries s) (ue_offset (user_entries s ! i)) rest"
      "alloc_user_entry tid pid s loc ty =
        Some (i, s\<lparr>user_entries := (user_entries s)[i :=
                     fresh_entry tid pid loc ty (next_generation (ue_generation (user_entries s ! i)))],
                   freelist := ue_offset (user_entries s ! i)\<rparr>)"
proof -
  obtain fs where fs: "distinct fs" "free_chain (user_entries s) (freelist s) fs"
    and nb: "nb_handles s \<le> MAX_USER_HANDLES"
    using wf by (auto simp: user_wf_def)
  show thesis
  proof (cases fs)
    case Nil
    then have f: "freelist s = - 1" using fs by simp
    show thesis
    proof (cases "nb_handles s = MAX_USER_HANDLES")
      case True
      show thesis by (rule full) (use f True in \<open>simp_all add: alloc_user_entry_def\<close>)
    next
      case False
      show thesis
        by (rule grow) (use f False nb in \<open>simp_all add: alloc_user_entry_def fresh_entry_def\<close>)
    qed
  next
    case (Cons i rest)
    then have i: "freelist s = of_nat i" "i < nb_handles s" "ue_type (user_entries s ! i) = 0"
      and rest: "free_chain (user_entries s) (ue_offset (user_entries s ! i)) rest"
        "i \<notin> set rest" "distinct rest"
      using fs by auto
    have m: "i < MAX_USER_HANDLES" using i nb by simp
    have a: "alloc_user_entry tid pid s loc ty =
        Some (i, s\<lparr>user_entries := (user_entries s)[i :=
                     fresh_entry tid pid loc ty (next_generation (ue_generation (user_entries s ! i)))],
                   freelist := ue_offset (user_entries s ! i)\<rparr>)"
      using i m by (simp add: alloc_user_entry_def Let_def next_generation_def fresh_entry_def
          of_nat_index_not_minus1 unat_of_nat_index)
    show thesis by (rule reuse [OF i(1,2) m i(3) rest(2,3,1) a])
  qed
qed

lemma alloc_user_entry_wf:
  assumes wf: "user_wf s" and a: "alloc_user_entry tid pid s loc ty = Some (i, s')"
  shows "user_wf s'"
  using wf
proof (cases rule: alloc_user_entry_cases [of s tid pid loc ty])
  case full
  then show ?thesis using a by simp
next
  case grow
  then show ?thesis using a wf
    by (auto simp: user_wf_def valid_generation_def intro: exI [of _ "[]"])
next
  case (reuse j rest)
  then show ?thesis using a wf
    by (auto simp: user_wf_def valid_next_generation free_chain_update intro!: exI [of _ rest]
        dest!: set_update_subset_insert [THEN subsetD])
qed

lemma free_user_entry_wf:
  assumes wf: "user_wf s" and i: "i < nb_handles s" "ue_type (user_entries s ! i) \<noteq> 0"
  shows "user_wf (free_user_entry s i)"
proof -
  obtain fs where fs: "distinct fs" "free_chain (user_entries s) (freelist s) fs"
    using wf by (auto simp: user_wf_def)
  then have "i \<notin> set fs" using free_chain_free i by blast
  then show ?thesis using wf i fs
    by (auto simp: user_wf_def free_user_entry_def Let_def free_chain_update
        dest!: set_update_subset_insert [THEN subsetD] intro!: exI [of _ "i # fs"])
qed


lemma handle_to_entry_SomeD:
  assumes "handle_to_entry s h = Some i"
  shows "i < nb_handles s" "ue_type (user_entries s ! i) \<noteq> 0" "handle_index h = int i"
    "ucast (drop_bit 16 h) \<in> {0, 0xffff, ue_generation (user_entries s ! i)}"
  using assms by (auto simp: handle_to_entry_def Let_def split: if_splits)

lemma handle_to_entry_iff:
  "handle_to_entry s h = Some i \<longleftrightarrow>
     i < nb_handles s \<and> ue_type (user_entries s ! i) \<noteq> 0 \<and> handle_index h = int i \<and>
     ucast (drop_bit 16 h) \<in> {0, 0xffff, ue_generation (user_entries s ! i)}"
  by (auto simp: handle_to_entry_def Let_def)

lemma handle_to_entry_of_entry:
  assumes "i < nb_handles s" "nb_handles s \<le> MAX_USER_HANDLES"
  shows "handle_to_entry s (entry_to_handle s i) =
    (if ue_type (user_entries s ! i) = 0 then None else Some i)"
proof -
  have i: "i < MAX_USER_HANDLES" using assms by simp
  show ?thesis using assms
    by (simp add: handle_to_entry_def handle_index_entry [OF i] generation_of_entry_handle [OF i] Let_def)
qed

lemma user_wf_nb: "user_wf s \<Longrightarrow> nb_handles s \<le> MAX_USER_HANDLES"
  by (simp add: user_wf_def)

lemma alloc_user_handle_SomeD:
  assumes "alloc_user_handle tid pid s ptr sh ty = Some (h, s')"
  obtains i s1 loc where "alloc_user_entry tid pid s loc ty = Some (i, s1)"
    "s' = s1\<lparr>server_objects := (server_objects s1)(i := Some ptr)\<rparr>"
    "h = entry_to_handle s' i"
  using assms by (auto simp: alloc_user_handle_def set_server_object_def Let_def split: option.splits)

lemma user_wf_server_objects [simp]: "user_wf (s\<lparr>server_objects := f\<rparr>) = user_wf s"
  by (simp add: user_wf_def)

lemma alloc_user_handle_wf:
  "user_wf s \<Longrightarrow> alloc_user_handle tid pid s ptr sh ty = Some (h, s') \<Longrightarrow> user_wf s'"
  by (erule alloc_user_handle_SomeD) (auto dest: alloc_user_entry_wf)

lemma free_user_handle_wf:
  assumes "user_wf s" "free_user_handle s h = Inr (r, s')"
  shows "user_wf s'"
  using assms by (auto simp: free_user_handle_def set_server_object_def Let_def handle_to_entry_iff
      split: option.splits intro!: free_user_entry_wf)

lemma req_free_user_handle_wf:
  assumes "user_wf s" "req_free_user_handle s h ty = Inr s'"
  shows "user_wf s'"
  using assms by (auto simp: req_free_user_handle_def handle_to_entry_iff
      split: option.splits if_splits intro!: free_user_entry_wf)

lemma free_user_entry_simps [simp]:
  "nb_handles (free_user_entry s i) = nb_handles s"
  "server_objects (free_user_entry s i) = server_objects s"
  "user_entries (free_user_entry s i) =
     (user_entries s)[i := (user_entries s ! i)\<lparr>ue_type := 0, ue_offset := freelist s\<rparr>]"
  by (simp_all add: free_user_entry_def Let_def)

lemma is_client_obj_type_0 [simp]: "\<not> is_client_obj_type 0"
  by (simp add: is_client_obj_type_def NTUSER_OBJ_MENU_def NTUSER_OBJ_ICON_def
      NTUSER_OBJ_WINPOS_def NTUSER_OBJ_ACCEL_def NTUSER_OBJ_IMC_def)

lemma free_process_entry_wf:
  "user_wf s \<Longrightarrow> i < nb_handles s \<Longrightarrow>
   user_wf (free_process_entry pid i s) \<and> nb_handles (free_process_entry pid i s) = nb_handles s"
  by (auto simp: free_process_entry_def Let_def intro!: free_user_entry_wf)

definition client_entry_of :: "u32 \<Rightarrow> user_entry \<Rightarrow> bool" where
  "client_entry_of pid e = (is_client_obj_type (ue_type e) \<and> ue_pid e = pid)"

text \<open>What one pass over a prefix of the slots has done.\<close>

lemma fold_free_process_entry:
  fixes s :: "'p user_state" and pid :: u32
  assumes "user_wf s" "n \<le> nb_handles s"
  defines "s' \<equiv> fold (free_process_entry pid) [0..<n] s"
  shows "user_wf s' \<and> nb_handles s' = nb_handles s \<and> server_objects s' = server_objects s \<and>
    (\<forall>i < nb_handles s.
       (if i < n \<and> client_entry_of pid (user_entries s ! i)
        then \<exists>f. user_entries s' ! i = (user_entries s ! i)\<lparr>ue_type := 0, ue_offset := f\<rparr>
        else user_entries s' ! i = user_entries s ! i))"
  using assms(2) unfolding s'_def
proof (induction n)
  case 0
  then show ?case using assms(1) by simp
next
  case (Suc n)
  define t where "t = fold (free_process_entry pid) [0..<n] s"
  have IH: "user_wf t" "nb_handles t = nb_handles s" "server_objects t = server_objects s"
    "\<And>i. i < nb_handles s \<Longrightarrow>
       (if i < n \<and> client_entry_of pid (user_entries s ! i)
        then \<exists>f. user_entries t ! i = (user_entries s ! i)\<lparr>ue_type := 0, ue_offset := f\<rparr>
        else user_entries t ! i = user_entries s ! i)"
    using Suc by (simp_all add: t_def)
  have n: "n < nb_handles t" "user_entries t ! n = user_entries s ! n"
    using Suc.prems IH(2) IH(4)[of n] by simp_all
  have step: "fold (free_process_entry pid) [0..<Suc n] s = free_process_entry pid n t"
    by (simp add: t_def)
  show ?case
  proof (cases "client_entry_of pid (user_entries s ! n)")
    case True
    then have "free_process_entry pid n t = free_user_entry t n"
      by (simp add: free_process_entry_def client_entry_of_def n)
    then show ?thesis unfolding step
      using IH n True free_process_entry_wf [OF IH(1) n(1), of pid]
      by (auto simp: nth_list_update less_Suc_eq)
  next
    case False
    then have "free_process_entry pid n t = t"
      by (auto simp: free_process_entry_def client_entry_of_def n Let_def)
    then show ?thesis unfolding step using IH False by (auto simp: less_Suc_eq)
  qed
qed

section \<open>Runs\<close>

inductive user_run :: "'p user_state \<Rightarrow> nat \<Rightarrow> 'p user_state \<Rightarrow> bool" for s0 where
  start: "user_run s0 0 s0"
| alloc: "user_run s0 n s \<Longrightarrow> alloc_user_handle tid pid s ptr shared ty = Some (h, s') \<Longrightarrow>
    user_run s0 (Suc n) s'"
| free: "user_run s0 n s \<Longrightarrow> free_user_handle s h = Inr (r, s') \<Longrightarrow> user_run s0 n s'"
| req_free: "user_run s0 n s \<Longrightarrow> req_free_user_handle s h ty = Inr s' \<Longrightarrow> user_run s0 n s'"
| process_exit: "user_run s0 n s \<Longrightarrow> user_run s0 n (free_process_user_handles pid s)"

lemma user_run_wf: "user_run s0 n s \<Longrightarrow> user_wf s0 \<Longrightarrow> user_wf s"
  by (induction rule: user_run.induct)
    (auto intro: alloc_user_handle_wf free_user_handle_wf req_free_user_handle_wf
      simp: free_process_user_handles_def fold_free_process_entry)

text \<open>The generation of a slot advances once per allocation of the slot.\<close>

definition slot_aged :: "'p user_state \<Rightarrow> nat \<Rightarrow> u16 \<Rightarrow> nat \<Rightarrow> bool" where
  "slot_aged s i g n =
     (i < nb_handles s \<and>
      (\<exists>k \<le> n. ue_generation (user_entries s ! i) = (next_generation ^^ k) g \<and>
               (k = 0 \<longrightarrow> ue_type (user_entries s ! i) = 0)))"

lemma slot_aged_alloc:
  assumes "user_wf s" "slot_aged s i g n" "alloc_user_handle tid pid s ptr shared ty = Some (h, s')"
  shows "slot_aged s' i g (Suc n)"
proof -
  obtain k where k: "i < nb_handles s" "k \<le> n" "ue_generation (user_entries s ! i) = (next_generation ^^ k) g"
    "k = 0 \<longrightarrow> ue_type (user_entries s ! i) = 0"
    using assms(2) by (auto simp: slot_aged_def)
  obtain j s1 loc where a: "alloc_user_entry tid pid s loc ty = Some (j, s1)"
    and s': "s' = s1\<lparr>server_objects := (server_objects s1)(j := Some ptr)\<rparr>"
    using assms(3) by (rule alloc_user_handle_SomeD)
  show ?thesis using assms(1)
  proof (cases rule: alloc_user_entry_cases [of s tid pid loc ty])
    case full
    then show ?thesis using a by simp
  next
    case grow
    then show ?thesis using a s' k by (auto simp: slot_aged_def nth_append intro!: exI [of _ k])
  next
    case (reuse l rest)
    show ?thesis
    proof (cases "l = i")
      case True
      then show ?thesis using reuse a s' k by (auto simp: slot_aged_def intro!: exI [of _ "Suc k"])
    next
      case False
      then show ?thesis using reuse a s' k by (auto simp: slot_aged_def intro!: exI [of _ k])
    qed
  qed
qed

lemma slot_aged_free_entry:
  "slot_aged s i g n \<Longrightarrow> slot_aged (free_user_entry s j) i g n"
  by (cases "j < nb_handles s") (auto simp: slot_aged_def nth_list_update)

lemma slot_aged_server_objects [simp]: "slot_aged (s\<lparr>server_objects := f\<rparr>) i g n = slot_aged s i g n"
  by (simp add: slot_aged_def)

lemma slot_aged_fold:
  "slot_aged s i g n \<Longrightarrow> slot_aged (fold (free_process_entry pid) xs s) i g n"
  by (induction xs arbitrary: s) (auto simp: free_process_entry_def Let_def slot_aged_free_entry)

lemma user_run_slot_aged:
  assumes "user_run s0 n s" "user_wf s0" "slot_aged s0 i g 0"
  shows "slot_aged s i g n"
  using assms
proof (induction rule: user_run.induct)
  case (alloc n s tid pid ptr shared ty h s')
  then show ?case by (blast intro: slot_aged_alloc user_run_wf)
next
  case (free n s h r s')
  then show ?case
    by (auto simp: free_user_handle_def set_server_object_def Let_def slot_aged_free_entry
        split: option.splits)
next
  case (req_free n s h ty s')
  then show ?case
    by (auto simp: req_free_user_handle_def slot_aged_free_entry split: option.splits if_splits)
qed (simp_all add: free_process_user_handles_def slot_aged_fold)

lemma unat_next_generation:
  assumes "valid_generation g"
  shows "unat (next_generation g) = unat g mod 65534 + 1"
proof -
  have "unat g < 65536" using unat_less_2p [of g] by simp
  moreover have "unat g \<noteq> 0" "unat g \<noteq> 65535"
    using assms unfolding valid_generation_def word_unat_eq_iff by simp_all
  ultimately have g: "0 < unat g" "unat g < 65535" by simp_all
  have p: "unat (g + 1) = unat g + 1" using g by (simp add: unat_word_ariths)
  have "g + 1 = 0xffff \<longleftrightarrow> unat g = 65534" unfolding word_unat_eq_iff p by simp
  moreover have "g + 1 \<noteq> 0" unfolding word_unat_eq_iff p by simp
  ultimately show ?thesis using g p by (simp add: next_generation_def)
qed

lemma unat_iterate_generation:
  assumes "valid_generation g"
  shows "valid_generation ((next_generation ^^ k) g) \<and>
    unat ((next_generation ^^ k) g) = (unat g - 1 + k) mod 65534 + 1"
proof (induction k)
  case 0
  have "unat g < 65536" using unat_less_2p [of g] by simp
  moreover have "unat g \<noteq> 0" "unat g \<noteq> 65535"
    using assms unfolding valid_generation_def word_unat_eq_iff by simp_all
  ultimately show ?case using assms by simp
next
  case (Suc k)
  have "unat ((next_generation ^^ Suc k) g) = unat ((next_generation ^^ k) g) mod 65534 + 1"
    using Suc unat_next_generation by simp
  also have "\<dots> = (unat g - 1 + Suc k) mod 65534 + 1"
    using Suc by (simp add: mod_simps mod_Suc_eq)
  finally show ?case by (simp add: valid_next_generation)
qed

lemma next_generation_cycle:
  assumes "valid_generation g" "0 < k" "k < 65534"
  shows "(next_generation ^^ k) g \<noteq> g"
proof
  assume e: "(next_generation ^^ k) g = g"
  have "unat g = (unat g - 1 + k) mod 65534 + 1"
    using unat_iterate_generation [OF assms(1), of k] unfolding e by (rule conjunct2)
  moreover have "unat g = (unat g - 1) mod 65534 + 1"
    using unat_iterate_generation [OF assms(1), of 0] by simp
  ultimately have "(unat g - 1 + k) mod 65534 = (unat g - 1) mod 65534" by (simp only: add_right_cancel)
  then have "65534 dvd k" by (simp only: mod_eq_dvd_iff_nat [OF le_add1] diff_add_inverse)
  then show False using assms(2,3) by (auto dest: dvd_imp_le)
qed

section \<open>Properties\<close>

lemma alloc_user_handle_spec:
  assumes wf: "user_wf s" and a: "alloc_user_handle tid pid s ptr shared ty = Some (h, s')"
  obtains i where "i < nb_handles s'" "h = entry_to_handle s' i" "server_objects s' i = Some ptr"
    "ue_type (user_entries s' ! i) = ty" "handle_to_entry s h = None"
    "\<forall>j. j < nb_handles s \<and> ue_type (user_entries s ! j) \<noteq> 0 \<longrightarrow>
       j < nb_handles s' \<and> user_entries s' ! j = user_entries s ! j \<and>
       server_objects s' j = server_objects s j"
proof -
  obtain i s1 loc where e: "alloc_user_entry tid pid s loc ty = Some (i, s1)"
    and s': "s' = s1\<lparr>server_objects := (server_objects s1)(i := Some ptr)\<rparr>"
    and h: "h = entry_to_handle s' i"
    using a by (rule alloc_user_handle_SomeD)
  have wf': "user_wf s'" using alloc_user_handle_wf [OF wf a] .
  have i: "i < nb_handles s'" "ue_type (user_entries s' ! i) = ty"
    "\<not> (i < nb_handles s \<and> ue_type (user_entries s ! i) \<noteq> 0)"
    "\<forall>j. j < nb_handles s \<and> ue_type (user_entries s ! j) \<noteq> 0 \<longrightarrow>
       j < nb_handles s' \<and> user_entries s' ! j = user_entries s ! j \<and>
       server_objects s' j = server_objects s j"
    using wf
    by (cases rule: alloc_user_entry_cases [of s tid pid loc ty]; use e s' in \<open>force simp: nth_append\<close>)+
  have "i < MAX_USER_HANDLES" using i(1) user_wf_nb [OF wf'] by simp
  then have "handle_index h = int i" unfolding h by (rule handle_index_entry)
  then have "handle_to_entry s h = None" using i(3)
    by (auto simp: handle_to_entry_def Let_def)
  with that i h s' show thesis by simp
qed

text \<open>C29: a successful allocation of a USER handle returns a handle that was not valid before,
  that now resolves to the new object under its type, and leaves every handle that resolved before
  resolving to the same object.\<close>

theorem alloc_user_handle_correct:
  assumes "user_wf s" and "ty \<noteq> 0"
    and "alloc_user_handle tid pid s ptr shared ty = Some (h, s')"
  shows "get_user_object s' h ty = Some ptr \<and> handle_to_entry s h = None \<and>
    (\<forall>h' ty' p. get_user_object s h' ty' = Some p \<longrightarrow> get_user_object s' h' ty' = Some p)"
proof -
  obtain i where i: "i < nb_handles s'" "h = entry_to_handle s' i" "server_objects s' i = Some ptr"
    "ue_type (user_entries s' ! i) = ty" "handle_to_entry s h = None"
    "\<forall>j. j < nb_handles s \<and> ue_type (user_entries s ! j) \<noteq> 0 \<longrightarrow>
       j < nb_handles s' \<and> user_entries s' ! j = user_entries s ! j \<and>
       server_objects s' j = server_objects s j"
    using assms(1,3) by (rule alloc_user_handle_spec)
  have "nb_handles s' \<le> MAX_USER_HANDLES"
    using alloc_user_handle_wf [OF assms(1,3)] by (rule user_wf_nb)
  then have "handle_to_entry s' h = Some i"
    using i assms(2) by (simp add: handle_to_entry_of_entry)
  moreover have "get_user_object s' h' ty' = Some p" if "get_user_object s h' ty' = Some p" for h' ty' p
    using that i(6)
    by (auto simp: get_user_object_def get_server_object_def handle_to_entry_iff
        split: option.splits if_splits)
  ultimately show ?thesis using i by (simp add: get_user_object_def get_server_object_def)
qed

theorem alloc_user_handle_correct_witness:
  "user_wf (init_user_state :: nat user_state) \<and> NTUSER_OBJ_MENU \<noteq> 0 \<and>
   (\<exists>h s'. alloc_user_handle 8 4 (init_user_state :: nat user_state) 7 None NTUSER_OBJ_MENU = Some (h, s') \<and>
      h = 0x10020 \<and> get_user_object s' h NTUSER_OBJ_MENU = Some 7)"
proof -
  have ty: "NTUSER_OBJ_MENU \<noteq> 0" by (simp add: NTUSER_OBJ_MENU_def)
  obtain h s' where a: "alloc_user_handle 8 4 (init_user_state :: nat user_state) 7 None NTUSER_OBJ_MENU =
      Some (h, s')" and h: "h = 0x10020"
    by (simp add: alloc_user_handle_def alloc_user_entry_def init_user_state_def set_server_object_def
        entry_to_handle_def MAX_USER_HANDLES_eq FIRST_USER_HANDLE_def)
  show ?thesis
    using alloc_user_handle_correct [OF init_user_wf ty a] init_user_wf ty a h by blast
qed

text \<open>C23: once the slot of a handle has been freed, and however many operations follow, the full
  handle is rejected as long as fewer than 65534 allocations have happened: the generation counter
  protects against reuse of a stale handle.\<close>

theorem stale_user_handle_rejected:
  assumes "user_wf s" and "free_user_handle s h = Inr (r, s1)"
    and "valid_generation (ucast (drop_bit 16 h))"
    and "user_run s1 n s2" and "n < 65534"
  shows "handle_to_entry s2 h = None"
proof -
  obtain i where i: "handle_to_entry s h = Some i"
    and s1: "s1 = free_user_entry (s\<lparr>server_objects := (server_objects s)(i := None)\<rparr>) i"
    using assms(2) by (auto simp: free_user_handle_def set_server_object_def split: option.splits)
  let ?g = "ucast (drop_bit 16 h) :: u16"
  have g: "ue_generation (user_entries s ! i) = ?g" "i < nb_handles s" "handle_index h = int i"
    using i assms(3) by (auto simp: handle_to_entry_iff valid_generation_def)
  have "slot_aged s1 i ?g 0" using g by (simp add: slot_aged_def s1)
  then have "slot_aged s2 i ?g n"
    using user_run_slot_aged [OF assms(4)] free_user_handle_wf [OF assms(1,2)] by blast
  then obtain k where k: "k \<le> n" "ue_generation (user_entries s2 ! i) = (next_generation ^^ k) ?g"
    "k = 0 \<longrightarrow> ue_type (user_entries s2 ! i) = 0"
    by (auto simp: slot_aged_def)
  show ?thesis
  proof (cases "k = 0")
    case True
    then show ?thesis using k g by (simp add: handle_to_entry_def Let_def)
  next
    case False
    then have "ue_generation (user_entries s2 ! i) \<noteq> ?g"
      using next_generation_cycle [OF assms(3), of k] k assms(5) by simp
    then show ?thesis using assms(3) g by (simp add: handle_to_entry_def Let_def valid_generation_def)
  qed
qed

abbreviation (input) one_menu :: "nat user_state" where
  "one_menu \<equiv> \<lparr>user_entries = [fresh_entry 8 4 \<lparr>loc_id = 0, loc_offset = 0\<rparr> NTUSER_OBJ_MENU 1],
    server_objects = (\<lambda>_. None)(0 := Some 7), freelist = - 1\<rparr>"

lemma one_menu_wf: "user_wf one_menu"
  by (auto simp: user_wf_def valid_generation_def MAX_USER_HANDLES_eq intro: exI [of _ "[]"])

theorem stale_user_handle_rejected_witness:
  "\<exists>s1 h2 s2. free_user_handle one_menu 0x10020 = Inr (Some 7, s1) \<and>
     alloc_user_handle 8 4 s1 9 None NTUSER_OBJ_ICON = Some (h2, s2) \<and>
     h2 = 0x20020 \<and> handle_to_entry s2 0x10020 = None"
proof -
  have f: "free_user_handle one_menu 0x10020 = Inr (Some 7, free_user_entry 
      (one_menu\<lparr>server_objects := (server_objects one_menu)(0 := None)\<rparr>) 0)"
    (is "_ = Inr (_, ?s1)")
    by (simp add: free_user_handle_def set_server_object_def handle_to_entry_def handle_index_def
        FIRST_USER_HANDLE_def NTUSER_OBJ_MENU_def)
  obtain h2 s2 where a: "alloc_user_handle 8 4 ?s1 9 None NTUSER_OBJ_ICON = Some (h2, s2)"
    and h2: "h2 = 0x20020"
    by (simp add: alloc_user_handle_def alloc_user_entry_def free_user_entry_def set_server_object_def
        entry_to_handle_def MAX_USER_HANDLES_eq FIRST_USER_HANDLE_def)
  have "valid_generation (ucast (drop_bit 16 (0x10020 :: u32)))" by (simp add: valid_generation_def)
  from stale_user_handle_rejected [OF one_menu_wf f this user_run.alloc [OF user_run.start a]]
  have "handle_to_entry s2 0x10020 = None" by simp
  with f a h2 show ?thesis by blast
qed

lemma truncated_handle_to_entry:
  assumes "i < nb_handles s" "nb_handles s \<le> MAX_USER_HANDLES" "ue_type (user_entries s ! i) \<noteq> 0"
  shows "get_user_full_handle s (entry_to_handle s i AND 0xffff) = entry_to_handle s i"
proof -
  let ?h = "entry_to_handle s i AND 0xffff"
  have i: "i < MAX_USER_HANDLES" using assms by simp
  have u: "unat ?h = 2 * i + 32"
    using i by (simp only: unat_and_ffff unat_entry_to_handle) (simp add: MAX_USER_HANDLES_eq)
  have "unat (drop_bit 16 ?h) = 0"
    using i by (simp only: unat_drop_bit u) (simp add: MAX_USER_HANDLES_eq)
  then have g: "drop_bit 16 ?h = 0" by (simp only: word_unat_eq_iff unat_0)
  have "unat ?h mod 65536 div 2 = i + 16"
    using i unfolding u by (simp add: MAX_USER_HANDLES_eq)
  then have "handle_index ?h = int i" using i by (rule handle_index_eq)
  then have "handle_to_entry s ?h = Some i" using g assms by (simp add: handle_to_entry_def)
  then show ?thesis using g by (simp add: get_user_full_handle_def)
qed

lemma entry_to_handle_inj:
  assumes "i < MAX_USER_HANDLES" "j < MAX_USER_HANDLES" "entry_to_handle s i = entry_to_handle s' j"
  shows "i = j"
  using handle_index_entry [OF assms(1), of s] handle_index_entry [OF assms(2), of s'] assms(3) by simp

text \<open>C30: in every state the server reaches, a full handle and its 16-bit truncation name the same
  slot, and two slots never have the same handle.\<close>

theorem user_reachable_handles_unique:
  assumes "user_run (init_user_state :: 'p user_state) n s" and "i < nb_handles s"
    and "ue_type (user_entries s ! i) \<noteq> 0"
  shows "handle_to_entry s (entry_to_handle s i) = Some i \<and>
    get_user_full_handle s (entry_to_handle s i AND 0xffff) = entry_to_handle s i \<and>
    (\<forall>j < nb_handles s. entry_to_handle s j = entry_to_handle s i \<longrightarrow> j = i)"
proof -
  have nb: "nb_handles s \<le> MAX_USER_HANDLES"
    using user_run_wf [OF assms(1) init_user_wf] by (rule user_wf_nb)
  have "j = i" if "j < nb_handles s" "entry_to_handle s j = entry_to_handle s i" for j
    using that nb assms(2) by (intro entry_to_handle_inj [of j i s s]) simp_all
  then show ?thesis
    using assms(2,3) nb by (simp add: handle_to_entry_of_entry truncated_handle_to_entry)
qed

theorem user_reachable_handles_unique_witness:
  "\<exists>s. user_run (init_user_state :: nat user_state) 1 s \<and> nb_handles s = 1 \<and>
     handle_to_entry s (entry_to_handle s 0) = Some 0"
proof -
  obtain h s where a: "alloc_user_handle 8 4 (init_user_state :: nat user_state) 7 None NTUSER_OBJ_MENU =
      Some (h, s)" and s: "nb_handles s = 1" "ue_type (user_entries s ! 0) \<noteq> 0"
    by (simp add: alloc_user_handle_def alloc_user_entry_def init_user_state_def set_server_object_def
        entry_to_handle_def MAX_USER_HANDLES_eq FIRST_USER_HANDLE_def NTUSER_OBJ_MENU_def)
  have "user_run (init_user_state :: nat user_state) 1 s"
    using user_run.alloc [OF user_run.start a] by simp
  from this user_reachable_handles_unique [OF this, of 0] s show ?thesis by auto
qed

text \<open>C31: when a process ends exactly the client-side objects it owns (menus, icons, accelerators,
  window positions, input contexts) are freed; the slots of every other entry are unchanged and the
  table stays well formed.\<close>

theorem free_process_user_handles_correct:
  assumes "user_wf s"
  shows "user_wf (free_process_user_handles pid s) \<and>
    server_objects (free_process_user_handles pid s) = server_objects s \<and>
    nb_handles (free_process_user_handles pid s) = nb_handles s \<and>
    (\<forall>i < nb_handles s.
       if client_entry_of pid (user_entries s ! i)
       then ue_type (user_entries (free_process_user_handles pid s) ! i) = 0 \<and>
            ue_generation (user_entries (free_process_user_handles pid s) ! i) =
              ue_generation (user_entries s ! i)
       else user_entries (free_process_user_handles pid s) ! i = user_entries s ! i)"
proof -
  let ?s' = "free_process_user_handles pid s"
  have f: "user_wf ?s' \<and> nb_handles ?s' = nb_handles s \<and> server_objects ?s' = server_objects s \<and>
    (\<forall>i < nb_handles s.
       (if i < nb_handles s \<and> client_entry_of pid (user_entries s ! i)
        then \<exists>f. user_entries ?s' ! i = (user_entries s ! i)\<lparr>ue_type := 0, ue_offset := f\<rparr>
        else user_entries ?s' ! i = user_entries s ! i))"
    unfolding free_process_user_handles_def by (rule fold_free_process_entry [OF assms order_refl])
  have "ue_type (user_entries ?s' ! i) = 0 \<and>
        ue_generation (user_entries ?s' ! i) = ue_generation (user_entries s ! i)"
    if i: "i < nb_handles s" "client_entry_of pid (user_entries s ! i)" for i
  proof -
    have "if i < nb_handles s \<and> client_entry_of pid (user_entries s ! i)
        then \<exists>f. user_entries ?s' ! i = (user_entries s ! i)\<lparr>ue_type := 0, ue_offset := f\<rparr>
        else user_entries ?s' ! i = user_entries s ! i" using f i(1) by blast
    then obtain f where "user_entries ?s' ! i = (user_entries s ! i)\<lparr>ue_type := 0, ue_offset := f\<rparr>"
      using i by auto
    then show ?thesis by simp
  qed
  with f show ?thesis by simp
qed

theorem free_process_user_handles_correct_witness:
  "user_wf one_menu \<and> ue_type (user_entries (free_process_user_handles 4 one_menu) ! 0) = 0"
proof -
  have "client_entry_of 4 (user_entries one_menu ! 0)"
    by (simp add: client_entry_of_def is_client_obj_type_def)
  then show ?thesis
    using free_process_user_handles_correct [OF one_menu_wf, of 4] one_menu_wf by simp
qed

lemma user_table_can_fill:
  "n \<le> MAX_USER_HANDLES \<Longrightarrow>
   \<exists>s :: 'p user_state. user_run init_user_state n s \<and> nb_handles s = n \<and> freelist s = - 1"
proof (induction n)
  case 0
  show ?case by (rule exI [of _ init_user_state]) (simp add: user_run.start, simp add: init_user_state_def)
next
  case (Suc n)
  then obtain s :: "'p user_state" where s: "user_run init_user_state n s" "nb_handles s = n" "freelist s = - 1"
    by auto
  obtain h s' where "alloc_user_handle 0 0 s (undefined :: 'p) None NTUSER_OBJ_MENU = Some (h, s')"
      "nb_handles s' = Suc n" "freelist s' = - 1"
    using s Suc.prems
    by (simp add: alloc_user_handle_def alloc_user_entry_def set_server_object_def Let_def)
  with user_run.alloc [OF s(1)] show ?case by blast
qed

text \<open>C40: allocation does not check the size of the shared table: a run of 32744 allocations reaches
  a state in which the next one, of whatever type, writes past the table.\<close>

theorem user_handles_can_overflow:
  "\<exists>s :: 'p user_state. user_run init_user_state MAX_USER_HANDLES s \<and>
     (\<forall>tid pid ptr shared ty. alloc_user_handle tid pid s ptr shared ty = None)"
proof -
  obtain s :: "'p user_state" where s: "user_run init_user_state MAX_USER_HANDLES s"
    "nb_handles s = MAX_USER_HANDLES" "freelist s = - 1"
    using user_table_can_fill [OF order_refl] by blast
  then have "alloc_user_handle tid pid s ptr shared ty = None" for tid pid ptr shared ty
    by (simp add: alloc_user_handle_def alloc_user_entry_def)
  with s(1) show ?thesis by blast
qed

lemma scan_user_entries_Some:
  "scan_user_entries ty n es = Some j \<longleftrightarrow>
     (\<exists>k < length es. j = n + k \<and> (ty = 0 \<or> ue_type (es ! k) = ty) \<and>
        (\<forall>l < k. \<not> (ty = 0 \<or> ue_type (es ! l) = ty)))"
proof (induction es arbitrary: n)
  case Nil
  then show ?case by simp
next
  case (Cons e es)
  show ?case
    unfolding first_index_Cons [of e es j n "\<lambda>e. ty = 0 \<or> ue_type e = ty"]
    by (simp only: scan_user_entries.simps Cons.IH option.inject eq_commute [of n j] split: if_split) simp
qed

lemma scan_user_entries_None:
  "scan_user_entries ty n es = None \<longleftrightarrow> (\<forall>e \<in> set es. \<not> (ty = 0 \<or> ue_type e = ty))"
  by (induction es arbitrary: n) auto

lemma next_user_handle_from:
  assumes "user_wf s" and "i < nb_handles s"
  shows "next_user_handle s (entry_to_handle s i) ty =
      (case scan_user_entries ty (Suc i) (drop (Suc i) (user_entries s)) of
         None \<Rightarrow> (None, entry_to_handle s i)
       | Some j \<Rightarrow> (server_objects s j, entry_to_handle s j))"
proof -
  have i: "i < MAX_USER_HANDLES" using assms user_wf_nb [OF assms(1)] by simp
  have "entry_to_handle s i \<noteq> 0"
    using unat_entry_to_handle [OF i, of s] by (auto simp: word_unat_eq_iff)
  then show ?thesis using assms(2)
    by (simp add: next_user_handle_def handle_index_entry [OF i] get_server_object_def Let_def
      split: option.split)
qed

text \<open>Enumeration from a valid handle yields the object of the first later slot with the wanted
  type, and fails, leaving the handle alone, when there is none.\<close>

lemma next_user_handle_correct:
  assumes "user_wf s" and "i < nb_handles s" and "ty \<noteq> 0"
  shows "case next_user_handle s (entry_to_handle s i) ty of (obj, h) \<Rightarrow>
    (obj = None \<and> h = entry_to_handle s i \<and>
       (\<forall>j. i < j \<and> j < nb_handles s \<longrightarrow> ue_type (user_entries s ! j) \<noteq> ty)) \<or>
    (\<exists>j. i < j \<and> j < nb_handles s \<and> ue_type (user_entries s ! j) = ty \<and>
       (\<forall>k. i < k \<and> k < j \<longrightarrow> ue_type (user_entries s ! k) \<noteq> ty) \<and>
       obj = server_objects s j \<and> h = entry_to_handle s j)"
proof (cases "scan_user_entries ty (Suc i) (drop (Suc i) (user_entries s))")
  case None
  have "ue_type (user_entries s ! j) \<noteq> ty" if "i < j" "j < nb_handles s" for j
  proof -
    have "user_entries s ! j = drop (Suc i) (user_entries s) ! (j - Suc i)"
      using that by simp
    also have "\<dots> \<in> set (drop (Suc i) (user_entries s))"
      using that by (intro nth_mem) simp
    finally show ?thesis using None unfolding scan_user_entries_None by blast
  qed
  then show ?thesis using None by (simp add: next_user_handle_from [OF assms(1,2)])
next
  case (Some j)
  then obtain k where k: "k < nb_handles s - Suc i" "j = Suc i + k"
    "ue_type (user_entries s ! (Suc i + k)) = ty"
    "\<And>l. l < k \<Longrightarrow> ue_type (user_entries s ! (Suc i + l)) \<noteq> ty"
    unfolding scan_user_entries_Some using assms(3) by fastforce
  have "ue_type (user_entries s ! l) \<noteq> ty" if "i < l" "l < j" for l
    using k(4) [of "l - Suc i"] that k(2) by simp
  moreover have "i < j \<and> j < nb_handles s \<and> ue_type (user_entries s ! j) = ty"
    using k(1-3) by simp
  ultimately show ?thesis using Some by (simp add: next_user_handle_from [OF assms(1,2)]) blast
qed

end
