(* ===== verification/Regions.thy ===== *)
theory Regions
  imports Server_Prelude
begin

unbundle bit_operations_syntax

text \<open>
  Regions, \<^verbatim>\<open>server/region.c\<close>, with the rectangle helpers of \<^verbatim>\<open>server/user.h\<close>: sets of
  pixels kept as y-x-banded lists of rectangles.

  A region pointer is an address in a store, because the operations allow the destination to be
  one of the sources.  Allocation may fail: \<open>ok n\<close> tells whether the \<open>n\<close>-th request for memory
  succeeds, and the number of requests made so far is part of the state.  Coordinates are
  integers; the three operations that compute with them wrap at 32 bits.
\<close>

section \<open>Rectangles\<close>

record rectangle =
  rleft :: int
  rtop :: int
  rright :: int
  rbottom :: int

abbreviation mk_rect :: "int \<Rightarrow> int \<Rightarrow> int \<Rightarrow> int \<Rightarrow> rectangle" where
  "mk_rect l t r b \<equiv> \<lparr>rleft = l, rtop = t, rright = r, rbottom = b\<rparr>"

definition is_rect_equal :: "rectangle \<Rightarrow> rectangle \<Rightarrow> bool" where
  "is_rect_equal rect1 rect2 \<longleftrightarrow>
     rleft rect1 = rleft rect2 \<and> rright rect1 = rright rect2 \<and>
     rtop rect1 = rtop rect2 \<and> rbottom rect1 = rbottom rect2"

definition is_rect_empty :: "rectangle \<Rightarrow> bool" where
  "is_rect_empty rect \<longleftrightarrow> rleft rect \<ge> rright rect \<or> rtop rect \<ge> rbottom rect"

definition point_in_rect :: "rectangle \<Rightarrow> int \<Rightarrow> int \<Rightarrow> bool" where
  "point_in_rect rect x y \<longleftrightarrow>
     x \<ge> rleft rect \<and> x < rright rect \<and> y \<ge> rtop rect \<and> y < rbottom rect"

text \<open>The value of a C \<^verbatim>\<open>int\<close> with the bits of \<open>i\<close>, and of an \<^verbatim>\<open>unsigned int\<close>.\<close>

definition s32 :: "int \<Rightarrow> int" where
  "s32 i = (i + 2 ^ 31) mod 2 ^ 32 - 2 ^ 31"

definition u32_of :: "int \<Rightarrow> int" where
  "u32_of i = i mod 2 ^ 32"

record ratio =
  ratio_num :: int
  ratio_den :: int

text \<open>
  \<^verbatim>\<open>num\<close> and \<^verbatim>\<open>den\<close> are unsigned, so the usual conversions make the product, the
  rounding and the division unsigned as well.
\<close>

definition scale_dpi :: "int \<Rightarrow> ratio \<Rightarrow> ratio \<Rightarrow> int" where
  "scale_dpi val dpi_from dpi_to =
     (let num = u32_of (ratio_num dpi_to * ratio_den dpi_from);
          den = u32_of (ratio_num dpi_from * ratio_den dpi_to)
      in if val \<ge> 0 then s32 (u32_of (u32_of (val * num) + den div 2) div den)
         else s32 (u32_of (u32_of (val * num) - den div 2) div den))"

definition scale_dpi_rect :: "rectangle \<Rightarrow> ratio \<Rightarrow> ratio \<Rightarrow> rectangle" where
  "scale_dpi_rect rect dpi_from dpi_to =
     \<lparr>rleft = scale_dpi (rleft rect) dpi_from dpi_to,
      rtop = scale_dpi (rtop rect) dpi_from dpi_to,
      rright = scale_dpi (rright rect) dpi_from dpi_to,
      rbottom = scale_dpi (rbottom rect) dpi_from dpi_to\<rparr>"

definition offset_rect :: "rectangle \<Rightarrow> int \<Rightarrow> int \<Rightarrow> rectangle" where
  "offset_rect rect offset_x offset_y =
     \<lparr>rleft = s32 (rleft rect + offset_x), rtop = s32 (rtop rect + offset_y),
      rright = s32 (rright rect + offset_x), rbottom = s32 (rbottom rect + offset_y)\<rparr>"

definition mirror_rect :: "rectangle \<Rightarrow> rectangle \<Rightarrow> rectangle" where
  "mirror_rect client_rect rect =
     (let width = s32 (rright client_rect - rleft client_rect);
          tmp = rleft rect
      in rect\<lparr>rleft := s32 (width - rright rect), rright := s32 (width - tmp)\<rparr>)"

text \<open>The result of \<^verbatim>\<open>intersect_rect\<close> is the flag it returns and \<^verbatim>\<open>*dst\<close>.\<close>

definition intersect_rect :: "rectangle \<Rightarrow> rectangle \<Rightarrow> bool \<times> rectangle" where
  "intersect_rect src1 src2 =
     (let dst = \<lparr>rleft = max (rleft src1) (rleft src2), rtop = max (rtop src1) (rtop src2),
                 rright = min (rright src1) (rright src2),
                 rbottom = min (rbottom src1) (rbottom src2)\<rparr>
      in (\<not> is_rect_empty dst, dst))"

definition reset_bounds :: rectangle where
  "reset_bounds = \<lparr>rleft = 2 ^ 31 - 1, rtop = 2 ^ 31 - 1, rright = - (2 ^ 31), rbottom = - (2 ^ 31)\<rparr>"

definition union_rect :: "rectangle \<Rightarrow> rectangle \<Rightarrow> rectangle" where
  "union_rect src1 src2 =
     (if is_rect_empty src1
      then if is_rect_empty src2 then reset_bounds else src2
      else if is_rect_empty src2 then src1
           else \<lparr>rleft = min (rleft src1) (rleft src2), rtop = min (rtop src1) (rtop src2),
                 rright = max (rright src1) (rright src2),
                 rbottom = max (rbottom src1) (rbottom src2)\<rparr>)"

section \<open>Regions\<close>

text \<open>
  \<open>rects\<close> holds the first \<^verbatim>\<open>num_rects\<close> elements of the allocated array, whose capacity is
  \<open>rgn_size\<close>.
\<close>

record region =
  rgn_size :: nat
  rects :: "rectangle list"
  extents :: rectangle

abbreviation num_rects :: "region \<Rightarrow> nat" where "num_rects reg \<equiv> length (rects reg)"

definition RGN_DEFAULT_RECTS :: nat where "RGN_DEFAULT_RECTS = 2"

definition empty_rect :: rectangle where
  "empty_rect = \<lparr>rleft = 0, rtop = 0, rright = 0, rbottom = 0\<rparr>"

definition EXTENTCHECK :: "rectangle \<Rightarrow> rectangle \<Rightarrow> bool" where
  "EXTENTCHECK r1 r2 \<longleftrightarrow> rright r1 > rleft r2 \<and> rleft r1 < rright r2 \<and>
     rbottom r1 > rtop r2 \<and> rtop r1 < rbottom r2"

text \<open>
  A region under construction comes with the number of allocations made so far; a function that
  may run out of memory returns whether it went through.
\<close>

type_synonym rbuild = "nat \<times> region"
type_synonym overlap_func =
  "(nat \<Rightarrow> bool) \<Rightarrow> rbuild \<Rightarrow> rectangle list \<Rightarrow> rectangle list \<Rightarrow> int \<Rightarrow> int \<Rightarrow> bool \<times> rbuild"
type_synonym non_overlap_func =
  "(nat \<Rightarrow> bool) \<Rightarrow> rbuild \<Rightarrow> rectangle list \<Rightarrow> int \<Rightarrow> int \<Rightarrow> bool \<times> rbuild"

text \<open>\<^verbatim>\<open>add_rect\<close> together with the stores into the new element that follow each call.\<close>

definition add_rect :: "(nat \<Rightarrow> bool) \<Rightarrow> rbuild \<Rightarrow> rectangle \<Rightarrow> bool \<times> rbuild" where
  "add_rect ok s rect =
     (case s of (k, reg) \<Rightarrow>
        if num_rects reg \<ge> rgn_size reg
        then if ok k
             then (True, Suc k, reg\<lparr>rgn_size := rgn_size reg * 2, rects := rects reg @ [rect]\<rparr>)
             else (False, Suc k, reg)
        else (True, k, reg\<lparr>rects := rects reg @ [rect]\<rparr>))"

fun validate_rectangles :: "rectangle list \<Rightarrow> bool" where
  "validate_rectangles [] = True"
| "validate_rectangles [r] = (\<not> is_rect_empty r)"
| "validate_rectangles (r # s # rs) =
     (if is_rect_empty r then False
      else if rtop r = rtop s
           then if rbottom r \<noteq> rbottom s then False
                else if rright r \<ge> rleft s then False
                else validate_rectangles (s # rs)
           else if rbottom r > rtop s then False
                else validate_rectangles (s # rs))"

text \<open>
  The rectangles from \<open>curStart\<close> with one top form the current band; it is merged into the band
  that starts at \<open>prevStart\<close> when the two are adjacent and have the same horizontal extents.
  The result is the start of the last band, for the next call.
\<close>

definition last_band_start :: "rectangle list \<Rightarrow> nat" where
  "last_band_start rs =
     length rs - length (takeWhile (\<lambda>r. rtop r = rtop (last rs)) (rev rs))"

definition coalesce_region :: "region \<Rightarrow> nat \<Rightarrow> nat \<Rightarrow> nat \<times> region" where
  "coalesce_region pReg prevStart curStart =
     (let rs = rects pReg;
          prev = take (curStart - prevStart) (drop prevStart rs);
          bandtop = rtop (rs ! curStart);
          cur = takeWhile (\<lambda>r. rtop r = bandtop) (drop curStart rs);
          rest = drop (curStart + length cur) rs;
          curStart' = (if rest \<noteq> [] then last_band_start rs else curStart)
      in if length cur = length prev \<and> length cur \<noteq> 0
         then if rbottom (hd prev) = rtop (hd cur)
              then if \<not> list_all2 (\<lambda>p c. rleft p = rleft c \<and> rright p = rright c) prev cur
                   then (curStart', pReg)
                   else (if rest = [] then prevStart else curStart',
                         pReg\<lparr>rects := take prevStart rs @
                                       map2 (\<lambda>p c. p\<lparr>rbottom := rbottom c\<rparr>) prev cur @ rest\<rparr>)
              else (curStart', pReg)
         else (curStart', pReg))"

text \<open>
  \<open>region_op\<close> sweeps both sources from top to bottom.  Its loop body handles the first band of
  each source: the part of one band above the other, then the part where they overlap.  A null
  function pointer is \<^const>\<open>None\<close>.
\<close>

definition top_band :: "rectangle list \<Rightarrow> rectangle list" where
  "top_band rs = takeWhile (\<lambda>r. rtop r = rtop (hd rs)) rs"

definition after_band :: "rectangle list \<Rightarrow> rectangle list" where
  "after_band rs = dropWhile (\<lambda>r. rtop r = rtop (hd rs)) rs"

definition call_non_overlap ::
  "non_overlap_func option \<Rightarrow> (nat \<Rightarrow> bool) \<Rightarrow> rbuild \<Rightarrow> rectangle list \<Rightarrow> int \<Rightarrow> int \<Rightarrow> bool \<times> rbuild"
where
  "call_non_overlap func ok s band t b =
     (case func of None \<Rightarrow> (True, s) | Some f \<Rightarrow> f ok s band t b)"

definition coalesce_if_grown :: "rbuild \<Rightarrow> nat \<Rightarrow> nat \<Rightarrow> nat \<times> rbuild" where
  "coalesce_if_grown s prevBand curBand =
     (case s of (k, reg) \<Rightarrow>
        if num_rects reg \<noteq> curBand
        then case coalesce_region reg prevBand curBand of (prev, reg') \<Rightarrow> (prev, k, reg')
        else (prevBand, s))"

definition region_op_above ::
  "non_overlap_func option \<Rightarrow> non_overlap_func option \<Rightarrow> (nat \<Rightarrow> bool) \<Rightarrow> rbuild \<Rightarrow> int \<Rightarrow>
   rectangle list \<Rightarrow> rectangle list \<Rightarrow> bool \<times> rbuild" where
  "region_op_above non_overlap1 non_overlap2 ok s ybot r1 r2 =
     (let a = hd r1; c = hd r2
      in if rtop a < rtop c
         then let t = max (rtop a) ybot; b = min (rbottom a) (rtop c)
              in if t \<noteq> b then call_non_overlap non_overlap1 ok s (top_band r1) t b else (True, s)
         else if rtop c < rtop a
         then let t = max (rtop c) ybot; b = min (rbottom c) (rtop a)
              in if t \<noteq> b then call_non_overlap non_overlap2 ok s (top_band r2) t b else (True, s)
         else (True, s))"

definition region_op_step ::
  "overlap_func \<Rightarrow> non_overlap_func option \<Rightarrow> non_overlap_func option \<Rightarrow> (nat \<Rightarrow> bool) \<Rightarrow>
   rbuild \<Rightarrow> nat \<Rightarrow> int \<Rightarrow> rectangle list \<Rightarrow> rectangle list \<Rightarrow> bool \<times> rbuild \<times> nat" where
  "region_op_step overlap non_overlap1 non_overlap2 ok s prevBand ybot r1 r2 =
     (case region_op_above non_overlap1 non_overlap2 ok s ybot r1 r2 of (res, s1) \<Rightarrow>
        if \<not> res then (False, s1, prevBand)
        else
          (case coalesce_if_grown s1 prevBand (num_rects (snd s)) of (prevBand1, s2) \<Rightarrow>
             let ytop = (if rtop (hd r1) < rtop (hd r2) then rtop (hd r2) else rtop (hd r1));
                 ybot' = min (rbottom (hd r1)) (rbottom (hd r2))
             in case (if ybot' > ytop
                      then overlap ok s2 (top_band r1) (top_band r2) ytop ybot'
                      else (True, s2)) of (res', s3) \<Rightarrow>
                  if \<not> res' then (False, s3, prevBand1)
                  else (case coalesce_if_grown s3 prevBand1 (num_rects (snd s2)) of (prevBand2, s4) \<Rightarrow>
                          (True, s4, prevBand2))))"

text \<open>
  The do-while loop is entered with both sources non-empty (the callers check), so its test may
  come first.
\<close>

lemma length_after_band: "rs \<noteq> [] \<Longrightarrow> length (after_band rs) < length rs"
  by (cases rs) (auto simp: after_band_def le_imp_less_Suc length_dropWhile_le)

function region_op_loop ::
  "overlap_func \<Rightarrow> non_overlap_func option \<Rightarrow> non_overlap_func option \<Rightarrow> (nat \<Rightarrow> bool) \<Rightarrow>
   rbuild \<Rightarrow> nat \<Rightarrow> int \<Rightarrow> rectangle list \<Rightarrow> rectangle list \<Rightarrow>
   bool \<times> rbuild \<times> nat \<times> int \<times> rectangle list \<times> rectangle list" where
  "region_op_loop overlap non_overlap1 non_overlap2 ok s prevBand ybot r1 r2 =
     (if r1 = [] \<or> r2 = [] then (True, s, prevBand, ybot, r1, r2)
      else case region_op_step overlap non_overlap1 non_overlap2 ok s prevBand ybot r1 r2 of
        (res, s', prevBand') \<Rightarrow>
          let ybot' = min (rbottom (hd r1)) (rbottom (hd r2))
          in if \<not> res then (False, s', prevBand', ybot', r1, r2)
             else region_op_loop overlap non_overlap1 non_overlap2 ok s' prevBand' ybot'
                    (if rbottom (hd r1) = ybot' then after_band r1 else r1)
                    (if rbottom (hd r2) = ybot' then after_band r2 else r2))"
  by pat_completeness auto
termination
  by (relation "measure (\<lambda>(_, _, _, _, _, _, _, r1, r2). length r1 + length r2)")
    (auto simp: min_def length_after_band add_strict_mono split: if_splits)

declare region_op_loop.simps [simp del]

text \<open>What is left of one source after the other is exhausted.\<close>

function region_op_tail ::
  "non_overlap_func \<Rightarrow> (nat \<Rightarrow> bool) \<Rightarrow> rbuild \<Rightarrow> int \<Rightarrow> rectangle list \<Rightarrow> bool \<times> rbuild" where
  "region_op_tail non_overlap ok s ybot r =
     (if r = [] then (True, s)
      else case non_overlap ok s (top_band r) (max (rtop (hd r)) ybot) (rbottom (hd r)) of (res, s') \<Rightarrow>
        if \<not> res then (False, s')
        else region_op_tail non_overlap ok s' ybot (after_band r))"
  by pat_completeness auto
termination
  by (relation "measure (\<lambda>(_, _, _, _, r). length r)") (auto simp: length_after_band)

declare region_op_tail.simps [simp del]

definition region_op_rest ::
  "non_overlap_func option \<Rightarrow> non_overlap_func option \<Rightarrow> (nat \<Rightarrow> bool) \<Rightarrow> rbuild \<Rightarrow> int \<Rightarrow>
   rectangle list \<Rightarrow> rectangle list \<Rightarrow> bool \<times> rbuild" where
  "region_op_rest non_overlap1 non_overlap2 ok s ybot r1 r2 =
     (if r1 \<noteq> []
      then case non_overlap1 of None \<Rightarrow> (True, s) | Some f \<Rightarrow> region_op_tail f ok s ybot r1
      else if r2 \<noteq> []
      then case non_overlap2 of None \<Rightarrow> (True, s) | Some f \<Rightarrow> region_op_tail f ok s ybot r2
      else (True, s))"

definition shrink_region :: "(nat \<Rightarrow> bool) \<Rightarrow> rbuild \<Rightarrow> rbuild" where
  "shrink_region ok s =
     (case s of (k, newReg) \<Rightarrow>
        if num_rects newReg < rgn_size newReg div 2 \<and> rgn_size newReg > 2
        then let new_size = max (num_rects newReg) RGN_DEFAULT_RECTS
             in (Suc k, if ok k then newReg\<lparr>rgn_size := new_size\<rparr> else newReg)
        else (k, newReg))"

definition region_op ::
  "overlap_func \<Rightarrow> non_overlap_func option \<Rightarrow> non_overlap_func option \<Rightarrow> (nat \<Rightarrow> bool) \<Rightarrow>
   rbuild \<Rightarrow> region \<Rightarrow> region \<Rightarrow> bool \<times> rbuild" where
  "region_op overlap non_overlap1 non_overlap2 ok s reg1 reg2 =
     (case s of (k, newReg) \<Rightarrow>
        if \<not> ok k then (False, Suc k, newReg)
        else
          let new = newReg\<lparr>rgn_size := max (num_rects reg1) (num_rects reg2) * 2, rects := []\<rparr>;
              ybot = (if rtop (extents reg1) < rtop (extents reg2)
                      then rtop (extents reg1) else rtop (extents reg2))
          in case region_op_loop overlap non_overlap1 non_overlap2 ok (Suc k, new) 0 ybot
                    (rects reg1) (rects reg2) of (res, s1, prevBand, ybot', r1, r2) \<Rightarrow>
               if \<not> res then (False, s1)
               else (case region_op_rest non_overlap1 non_overlap2 ok s1 ybot' r1 r2 of (res', s2) \<Rightarrow>
                       if \<not> res' then (False, s2)
                       else (True, shrink_region ok
                                     (snd (coalesce_if_grown s2 prevBand (num_rects (snd s1)))))))"

definition set_region_extents :: "region \<Rightarrow> region" where
  "set_region_extents region =
     (if num_rects region = 0
      then region\<lparr>extents := \<lparr>rleft = 0, rtop = 0, rright = 0, rbottom = 0\<rparr>\<rparr>
      else let pRect = hd (rects region); pRectEnd = last (rects region);
               start = \<lparr>rleft = rleft pRect, rtop = rtop pRect,
                        rright = rright pRectEnd, rbottom = rbottom pRectEnd\<rparr>
           in region\<lparr>extents :=
                fold (\<lambda>r e. let e' = (if rleft r < rleft e then e\<lparr>rleft := rleft r\<rparr> else e)
                            in if rright r > rright e' then e'\<lparr>rright := rright r\<rparr> else e')
                  (rects region) start\<rparr>)"

fun intersect_overlapping :: overlap_func where
  "intersect_overlapping ok s (r1 # rs1) (r2 # rs2) t b =
     (let left = max (rleft r1) (rleft r2); right = min (rright r1) (rright r2)
      in case (if left < right then add_rect ok s (mk_rect left t right b) else (True, s)) of (res, s') \<Rightarrow>
           if \<not> res then (False, s')
           else if rright r1 < rright r2 then intersect_overlapping ok s' rs1 (r2 # rs2) t b
           else if rright r2 < rright r1 then intersect_overlapping ok s' (r1 # rs1) rs2 t b
           else intersect_overlapping ok s' rs1 rs2 t b)"
| "intersect_overlapping ok s _ _ t b = (True, s)"

fun subtract_non_overlapping :: non_overlap_func where
  "subtract_non_overlapping ok s [] t b = (True, s)"
| "subtract_non_overlapping ok s (r # rs) t b =
     (case add_rect ok s (mk_rect (rleft r) t (rright r) b) of (res, s') \<Rightarrow>
        if \<not> res then (False, s') else subtract_non_overlapping ok s' rs t b)"

text \<open>\<^verbatim>\<open>r1++; if (r1 != r1End) left = r1->left;\<close> with \<open>rs\<close> the rectangles after the increment.\<close>

definition next_left :: "rectangle list \<Rightarrow> int \<Rightarrow> int" where
  "next_left rs left = (case rs of [] \<Rightarrow> left | r # _ \<Rightarrow> rleft r)"

fun subtract_rest :: "(nat \<Rightarrow> bool) \<Rightarrow> rbuild \<Rightarrow> int \<Rightarrow> rectangle list \<Rightarrow> int \<Rightarrow> int \<Rightarrow> bool \<times> rbuild" where
  "subtract_rest ok s left [] t b = (True, s)"
| "subtract_rest ok s left (r1 # rs1) t b =
     (case add_rect ok s (mk_rect left t (rright r1) b) of (res, s') \<Rightarrow>
        if \<not> res then (False, s')
        else subtract_rest ok s' (next_left rs1 left) rs1 t b)"

fun subtract_loop ::
  "(nat \<Rightarrow> bool) \<Rightarrow> rbuild \<Rightarrow> int \<Rightarrow> rectangle list \<Rightarrow> rectangle list \<Rightarrow> int \<Rightarrow> int \<Rightarrow> bool \<times> rbuild" where
  "subtract_loop ok s left (r1 # rs1) (r2 # rs2) t b =
     (if rright r2 \<le> left then subtract_loop ok s left (r1 # rs1) rs2 t b
      else if rleft r2 \<le> left
      then let left' = rright r2
           in if left' \<ge> rright r1 then subtract_loop ok s (next_left rs1 left') rs1 (r2 # rs2) t b
              else subtract_loop ok s left' (r1 # rs1) rs2 t b
      else if rleft r2 < rright r1
      then (case add_rect ok s (mk_rect left t (rleft r2) b) of (res, s') \<Rightarrow>
              if \<not> res then (False, s')
              else let left' = rright r2
                   in if left' \<ge> rright r1
                      then subtract_loop ok s' (next_left rs1 left') rs1 (r2 # rs2) t b
                      else subtract_loop ok s' left' (r1 # rs1) rs2 t b)
      else (case (if rright r1 > left then add_rect ok s (mk_rect left t (rright r1) b)
                  else (True, s)) of (res, s') \<Rightarrow>
              if \<not> res then (False, s')
              else subtract_loop ok s' (next_left rs1 left) rs1 (r2 # rs2) t b))"
| "subtract_loop ok s left r1 r2 t b = subtract_rest ok s left r1 t b"

definition subtract_overlapping :: overlap_func where
  "subtract_overlapping ok s r1 r2 t b = subtract_loop ok s (rleft (hd r1)) r1 r2 t b"

fun union_non_overlapping :: non_overlap_func where
  "union_non_overlapping ok s [] t b = (True, s)"
| "union_non_overlapping ok s (r # rs) t b =
     (case add_rect ok s (mk_rect (rleft r) t (rright r) b) of (res, s') \<Rightarrow>
        if \<not> res then (False, s') else union_non_overlapping ok s' rs t b)"

definition MERGERECT :: "(nat \<Rightarrow> bool) \<Rightarrow> rbuild \<Rightarrow> rectangle \<Rightarrow> int \<Rightarrow> int \<Rightarrow> bool \<times> rbuild" where
  "MERGERECT ok s r t b =
     (case s of (k, pReg) \<Rightarrow>
        let l = last (rects pReg)
        in if num_rects pReg \<noteq> 0 \<and> rtop l = t \<and> rbottom l = b \<and> rright l \<ge> rleft r
           then if rright l < rright r
                then (True, k, pReg\<lparr>rects := butlast (rects pReg) @ [l\<lparr>rright := rright r\<rparr>]\<rparr>)
                else (True, s)
           else add_rect ok s (mk_rect (rleft r) t (rright r) b))"

fun union_overlapping :: overlap_func where
  "union_overlapping ok s (r1 # rs1) (r2 # rs2) t b =
     (if rleft r1 < rleft r2
      then (case MERGERECT ok s r1 t b of (res, s') \<Rightarrow>
              if \<not> res then (False, s') else union_overlapping ok s' rs1 (r2 # rs2) t b)
      else (case MERGERECT ok s r2 t b of (res, s') \<Rightarrow>
              if \<not> res then (False, s') else union_overlapping ok s' (r1 # rs1) rs2 t b))"
| "union_overlapping ok s (r1 # rs1) [] t b =
     (case MERGERECT ok s r1 t b of (res, s') \<Rightarrow>
        if \<not> res then (False, s') else union_overlapping ok s' rs1 [] t b)"
| "union_overlapping ok s [] (r2 # rs2) t b =
     (case MERGERECT ok s r2 t b of (res, s') \<Rightarrow>
        if \<not> res then (False, s') else union_overlapping ok s' [] rs2 t b)"
| "union_overlapping ok s [] [] t b = (True, s)"

section \<open>Operations on region pointers\<close>

text \<open>
  The store: the live regions by address, the next address the allocator hands out, and the
  number of allocation requests made so far.  An operation that can fail returns the status it
  sets, or its pointer.
\<close>

record rgn_store =
  rgns :: "nat \<Rightarrow> region option"
  next_rgn :: nat
  allocs :: nat

abbreviation rgn :: "rgn_store \<Rightarrow> nat \<Rightarrow> region" where
  "rgn st p \<equiv> the (rgns st p)"

abbreviation put_rgn :: "rgn_store \<Rightarrow> nat \<Rightarrow> region \<Rightarrow> rgn_store" where
  "put_rgn st p reg \<equiv> st\<lparr>rgns := (rgns st)(p := Some reg)\<rparr>"

definition mem_alloc :: "(nat \<Rightarrow> bool) \<Rightarrow> rgn_store \<Rightarrow> bool \<times> rgn_store" where
  "mem_alloc ok st = (ok (allocs st), st\<lparr>allocs := Suc (allocs st)\<rparr>)"

definition new_region :: "rgn_store \<Rightarrow> region \<Rightarrow> nat \<times> rgn_store" where
  "new_region st reg =
     (next_rgn st, st\<lparr>rgns := (rgns st)(next_rgn st := Some reg), next_rgn := Suc (next_rgn st)\<rparr>)"

definition create_empty_region :: "(nat \<Rightarrow> bool) \<Rightarrow> rgn_store \<Rightarrow> nat result \<times> rgn_store" where
  "create_empty_region ok st =
     (case mem_alloc ok st of (r1, st1) \<Rightarrow>
        if \<not> r1 then (Inl STATUS_NO_MEMORY, st1)
        else (case mem_alloc ok st1 of (r2, st2) \<Rightarrow>
                if \<not> r2 then (Inl STATUS_NO_MEMORY, st2)
                else (case new_region st2 \<lparr>rgn_size = RGN_DEFAULT_RECTS, rects = [],
                             extents = \<lparr>rleft = 0, rtop = 0, rright = 0, rbottom = 0\<rparr>\<rparr> of
                        (p, st3) \<Rightarrow> (Inr p, st3))))"

text \<open>The request data is the array of rectangles it holds (a trailing partial one is ignored).\<close>

definition create_region_from_req_data ::
  "(nat \<Rightarrow> bool) \<Rightarrow> rgn_store \<Rightarrow> rectangle list \<Rightarrow> nat result \<times> rgn_store" where
  "create_region_from_req_data ok st data =
     (let data' = (if length data = 1 \<and> hd data = empty_rect then [] else data)
      in if \<not> validate_rectangles data' then (Inl STATUS_INVALID_PARAMETER, st)
         else
           (case mem_alloc ok st of (r1, st1) \<Rightarrow>
              if \<not> r1 then (Inl STATUS_NO_MEMORY, st1)
              else (case mem_alloc ok st1 of (r2, st2) \<Rightarrow>
                      if \<not> r2 then (Inl STATUS_NO_MEMORY, st2)
                      else (case new_region st2 (set_region_extents
                                   \<lparr>rgn_size = max (length data') RGN_DEFAULT_RECTS, rects = data',
                                    extents = empty_rect\<rparr>) of
                              (p, st3) \<Rightarrow> (Inr p, st3)))))"

definition free_region :: "rgn_store \<Rightarrow> nat \<Rightarrow> rgn_store" where
  "free_region st p = st\<lparr>rgns := (rgns st)(p := None)\<rparr>"

definition set_region_rect :: "region \<Rightarrow> rectangle \<Rightarrow> region" where
  "set_region_rect region rect =
     (if \<not> is_rect_empty rect then region\<lparr>rects := [rect], extents := rect\<rparr>
      else region\<lparr>rects := [], extents := empty_rect\<rparr>)"

text \<open>The data sent to the client and its total size in bytes; 16 is the size of a rectangle.\<close>

definition get_region_data ::
  "(nat \<Rightarrow> bool) \<Rightarrow> rgn_store \<Rightarrow> nat \<Rightarrow> nat \<Rightarrow> nat \<times> rectangle list result \<times> rgn_store" where
  "get_region_data ok st p max_size =
     (let region = rgn st p;
          data = (if num_rects region * 16 = 0 then [empty_rect] else rects region);
          total_size = (if num_rects region * 16 = 0 then 16 else num_rects region * 16)
      in if max_size \<ge> total_size
         then (case mem_alloc ok st of (r, st') \<Rightarrow>
                 (total_size, if r then Inr data else Inl STATUS_NO_MEMORY, st'))
         else (total_size, Inl STATUS_BUFFER_OVERFLOW, st))"

definition get_region_data_and_free ::
  "(nat \<Rightarrow> bool) \<Rightarrow> rgn_store \<Rightarrow> nat \<Rightarrow> nat \<Rightarrow> nat \<times> rectangle list result \<times> rgn_store" where
  "get_region_data_and_free ok st p max_size =
     (let region = rgn st p;
          total_size = (if num_rects region * 16 = 0 then 16 else num_rects region * 16)
      in case (if num_rects region * 16 = 0 \<and> max_size \<ge> 16
               then (case mem_alloc ok st of (r, st') \<Rightarrow>
                       (if r then Inr [empty_rect] else Inl STATUS_NO_MEMORY, st'))
               else (Inr (rects region), st)) of (ret, st1) \<Rightarrow>
           let ret' = (if max_size < total_size then Inl STATUS_BUFFER_OVERFLOW else ret)
           in (total_size, ret', free_region st1 p))"

definition is_region_empty :: "region \<Rightarrow> bool" where
  "is_region_empty region \<longleftrightarrow> num_rects region = 0"

definition is_region_equal :: "region \<Rightarrow> region \<Rightarrow> bool" where
  "is_region_equal region1 region2 =
     (if num_rects region1 \<noteq> num_rects region2 then False
      else if num_rects region1 = 0 then True
      else if \<not> is_rect_equal (extents region1) (extents region2) then False
      else list_all2 is_rect_equal (rects region1) (rects region2))"

definition get_region_extents :: "region \<Rightarrow> rectangle" where
  "get_region_extents region = extents region"

definition offset_region :: "region \<Rightarrow> int \<Rightarrow> int \<Rightarrow> region" where
  "offset_region region x y =
     (if num_rects region = 0 then region
      else region\<lparr>rects := map (\<lambda>r. offset_rect r x y) (rects region),
                  extents := offset_rect (extents region) x y\<rparr>)"

text \<open>
  The mirroring loops with the indices of the source: the exchange at \<open>i\<close> and \<open>j\<close> first saves
  \<open>rects[j]\<close>, as the source does.
\<close>

function mirror_swap :: "rectangle \<Rightarrow> nat \<Rightarrow> nat \<Rightarrow> rectangle list \<Rightarrow> rectangle list" where
  "mirror_swap client_rect i j rs =
     (if i < j
      then let rect = rs ! j;
               rs1 = rs[i := rs ! j];
               rs2 = rs1[j := rect];
               rs3 = rs2[j := mirror_rect client_rect (rs2 ! j)];
               rs4 = rs3[i := mirror_rect client_rect (rs3 ! i)]
           in mirror_swap client_rect (Suc i) (j - 1) rs4
      else if i = j then rs[i := mirror_rect client_rect (rs ! i)] else rs)"
  by pat_completeness auto
termination
  by (relation "measure (\<lambda>(_, i, j, _). j - i)") auto

function mirror_band_end :: "rectangle list \<Rightarrow> nat \<Rightarrow> nat" where
  "mirror_band_end rs n =
     (if n < length rs - 1
      then if rtop (rs ! (n + 1)) \<noteq> rtop (rs ! n) then n else mirror_band_end rs (n + 1)
      else n)"
  by pat_completeness auto
termination
  by (relation "measure (\<lambda>(rs, n). length rs - n)") auto

declare mirror_swap.simps [simp del]
declare mirror_band_end.simps [simp del]

lemma mirror_band_end_ge: "n \<le> mirror_band_end rs n"
  by (induction rs n rule: mirror_band_end.induct) (subst mirror_band_end.simps, auto)

function mirror_bands :: "rectangle \<Rightarrow> nat \<Rightarrow> nat \<Rightarrow> rectangle list \<Rightarrow> rectangle list" where
  "mirror_bands client_rect num start rs =
     (if start < num
      then let stop = mirror_band_end rs start
           in mirror_bands client_rect num (stop + 1) (mirror_swap client_rect start stop rs)
      else rs)"
  by pat_completeness auto
termination
  by (relation "measure (\<lambda>(_, num, start, _). num - start)")
    (auto intro: diff_less_mono2 le_less_trans simp: le_imp_less_Suc mirror_band_end_ge)

declare mirror_bands.simps [simp del]

definition mirror_region :: "rectangle \<Rightarrow> region \<Rightarrow> region" where
  "mirror_region client_rect region =
     region\<lparr>rects := mirror_bands client_rect (num_rects region) 0 (rects region),
            extents := mirror_rect client_rect (extents region)\<rparr>"

definition scale_region :: "region \<Rightarrow> ratio \<Rightarrow> ratio \<Rightarrow> region" where
  "scale_region region dpi_from dpi_to =
     (if num_rects region = 0 then region
      else region\<lparr>rects := map (\<lambda>r. scale_dpi_rect r dpi_from dpi_to) (rects region),
                  extents := scale_dpi_rect (extents region) dpi_from dpi_to\<rparr>)"

definition copy_region :: "(nat \<Rightarrow> bool) \<Rightarrow> rgn_store \<Rightarrow> nat \<Rightarrow> nat \<Rightarrow> nat result \<times> rgn_store" where
  "copy_region ok st dst src =
     (if dst = src then (Inr dst, st)
      else
        let s = rgn st src; d = rgn st dst
        in case (if rgn_size d < num_rects s
                 then (case mem_alloc ok st of (r, st') \<Rightarrow> (r, num_rects s, st'))
                 else (True, rgn_size d, st)) of (r, cap, st1) \<Rightarrow>
             if \<not> r then (Inl STATUS_NO_MEMORY, st1)
             else (Inr dst,
                   put_rgn st1 dst \<lparr>rgn_size = cap, rects = rects s, extents = extents s\<rparr>))"

definition region_op_at ::
  "overlap_func \<Rightarrow> non_overlap_func option \<Rightarrow> non_overlap_func option \<Rightarrow> (nat \<Rightarrow> bool) \<Rightarrow>
   rgn_store \<Rightarrow> nat \<Rightarrow> nat \<Rightarrow> nat \<Rightarrow> bool \<times> rgn_store" where
  "region_op_at overlap non_overlap1 non_overlap2 ok st dst src1 src2 =
     (case region_op overlap non_overlap1 non_overlap2 ok (allocs st, rgn st dst)
             (rgn st src1) (rgn st src2) of
        (res, k, reg) \<Rightarrow> (res, put_rgn (st\<lparr>allocs := k\<rparr>) dst reg))"

definition intersect_region ::
  "(nat \<Rightarrow> bool) \<Rightarrow> rgn_store \<Rightarrow> nat \<Rightarrow> nat \<Rightarrow> nat \<Rightarrow> nat result \<times> rgn_store" where
  "intersect_region ok st dst src1 src2 =
     (let s1 = rgn st src1; s2 = rgn st src2
      in if num_rects s1 = 0 \<or> num_rects s2 = 0 \<or> \<not> EXTENTCHECK (extents s1) (extents s2)
         then (Inr dst,
               put_rgn st dst ((rgn st dst)\<lparr>rects := [],
                 extents := \<lparr>rleft = 0, rtop = 0, rright = 0, rbottom = 0\<rparr>\<rparr>))
         else (case region_op_at intersect_overlapping None None ok st dst src1 src2 of (res, st1) \<Rightarrow>
                 if \<not> res then (Inl STATUS_NO_MEMORY, st1)
                 else (Inr dst, put_rgn st1 dst (set_region_extents (rgn st1 dst)))))"

definition subtract_region ::
  "(nat \<Rightarrow> bool) \<Rightarrow> rgn_store \<Rightarrow> nat \<Rightarrow> nat \<Rightarrow> nat \<Rightarrow> nat result \<times> rgn_store" where
  "subtract_region ok st dst src1 src2 =
     (let s1 = rgn st src1; s2 = rgn st src2
      in if num_rects s1 = 0 \<or> num_rects s2 = 0 \<or> \<not> EXTENTCHECK (extents s1) (extents s2)
         then copy_region ok st dst src1
         else (case region_op_at subtract_overlapping (Some subtract_non_overlapping) None
                      ok st dst src1 src2 of (res, st1) \<Rightarrow>
                 if \<not> res then (Inl STATUS_NO_MEMORY, st1)
                 else (Inr dst, put_rgn st1 dst (set_region_extents (rgn st1 dst)))))"

definition contains_extents :: "region \<Rightarrow> region \<Rightarrow> bool" where
  "contains_extents s1 s2 \<longleftrightarrow> num_rects s1 = 1 \<and>
     rleft (extents s1) \<le> rleft (extents s2) \<and> rtop (extents s1) \<le> rtop (extents s2) \<and>
     rright (extents s1) \<ge> rright (extents s2) \<and> rbottom (extents s1) \<ge> rbottom (extents s2)"

definition union_region ::
  "(nat \<Rightarrow> bool) \<Rightarrow> rgn_store \<Rightarrow> nat \<Rightarrow> nat \<Rightarrow> nat \<Rightarrow> nat result \<times> rgn_store" where
  "union_region ok st dst src1 src2 =
     (let s1 = rgn st src1; s2 = rgn st src2
      in if src1 = src2 then copy_region ok st dst src1
         else if num_rects s1 = 0 then copy_region ok st dst src2
         else if num_rects s2 = 0 then copy_region ok st dst src1
         else if contains_extents s1 s2 then copy_region ok st dst src1
         else if contains_extents s2 s1 then copy_region ok st dst src2
         else (case region_op_at union_overlapping (Some union_non_overlapping)
                      (Some union_non_overlapping) ok st dst src1 src2 of (res, st1) \<Rightarrow>
                 if \<not> res then (Inl STATUS_NO_MEMORY, st1)
                 else (Inr dst, put_rgn st1 dst ((rgn st1 dst)\<lparr>extents :=
                        \<lparr>rleft = min (rleft (extents s1)) (rleft (extents s2)),
                         rtop = min (rtop (extents s1)) (rtop (extents s2)),
                         rright = max (rright (extents s1)) (rright (extents s2)),
                         rbottom = max (rbottom (extents s1)) (rbottom (extents s2))\<rparr>\<rparr>))))"

definition xor_region ::
  "(nat \<Rightarrow> bool) \<Rightarrow> rgn_store \<Rightarrow> nat \<Rightarrow> nat \<Rightarrow> nat \<Rightarrow> nat result \<times> rgn_store" where
  "xor_region ok st dst src1 src2 =
     (case create_empty_region ok st of
        (Inl e, st0) \<Rightarrow> (Inl e, st0)
      | (Inr tmp, st0) \<Rightarrow>
          (case subtract_region ok st0 tmp src1 src2 of
             (Inl e, st1) \<Rightarrow> (Inl e, free_region st1 tmp)
           | (Inr _, st1) \<Rightarrow>
               (case subtract_region ok st1 dst src2 src1 of
                  (Inl e, st2) \<Rightarrow> (Inl e, free_region st2 tmp)
                | (Inr _, st2) \<Rightarrow>
                    (case union_region ok st2 dst dst tmp of
                       (Inl e, st3) \<Rightarrow> (Inl e, free_region st3 tmp)
                     | (Inr _, st3) \<Rightarrow> (Inr dst, free_region st3 tmp)))))"

fun point_in_rects :: "rectangle list \<Rightarrow> int \<Rightarrow> int \<Rightarrow> bool" where
  "point_in_rects [] x y = False"
| "point_in_rects (r # rs) x y =
     (if rtop r > y then False
      else if rbottom r \<le> y then point_in_rects rs x y
      else if rleft r > x then False
      else if rright r \<le> x then point_in_rects rs x y
      else True)"

definition point_in_region :: "region \<Rightarrow> int \<Rightarrow> int \<Rightarrow> bool" where
  "point_in_region region x y = point_in_rects (rects region) x y"

fun rect_in_rects :: "rectangle list \<Rightarrow> rectangle \<Rightarrow> bool" where
  "rect_in_rects [] rect = False"
| "rect_in_rects (r # rs) rect =
     (if rtop r \<ge> rbottom rect then False
      else if rbottom r \<le> rtop rect then rect_in_rects rs rect
      else if rleft r \<ge> rright rect then rect_in_rects rs rect
      else if rright r \<le> rleft rect then rect_in_rects rs rect
      else True)"

definition rect_in_region :: "region \<Rightarrow> rectangle \<Rightarrow> bool" where
  "rect_in_region region rect = rect_in_rects (rects region) rect"

end
