(* ===== verification/Region_Bands.thy ===== *)
theory Region_Bands
  imports Regions
begin

text \<open>
  The bands of a region: the order that \<^const>\<open>validate_rectangles\<close> checks, the points a banded
  list stands for, what the functions passed to \<^const>\<open>region_op\<close> add to a region under
  construction, and the merging of adjacent bands by \<^const>\<open>coalesce_region\<close>.
\<close>

section \<open>Banded lists as sets of points\<close>

definition in_rects :: "rectangle list \<Rightarrow> int \<Rightarrow> int \<Rightarrow> bool" where
  "in_rects rs x y \<longleftrightarrow> (\<exists>r \<in> set rs. point_in_rect r x y)"

definition in_x :: "rectangle list \<Rightarrow> int \<Rightarrow> bool" where
  "in_x rs x \<longleftrightarrow> (\<exists>r \<in> set rs. rleft r \<le> x \<and> x < rright r)"

text \<open>The order of a banded list: left to right within a band, bands from top to bottom.\<close>

definition before :: "rectangle \<Rightarrow> rectangle \<Rightarrow> bool" where
  "before r s \<longleftrightarrow> \<not> is_rect_empty r \<and> \<not> is_rect_empty s \<and>
     (rtop r = rtop s \<and> rbottom r = rbottom s \<and> rright r < rleft s \<or> rbottom r \<le> rtop s)"

definition banded :: "rectangle list \<Rightarrow> bool" where
  "banded rs \<longleftrightarrow> (\<forall>r \<in> set rs. \<not> is_rect_empty r) \<and> sorted_wrt before rs"

definition xband :: "int \<Rightarrow> int \<Rightarrow> rectangle list \<Rightarrow> bool" where
  "xband t b rs \<longleftrightarrow> t < b \<and> (\<forall>r \<in> set rs. rtop r = t \<and> rbottom r = b \<and> rleft r < rright r) \<and>
     sorted_wrt (\<lambda>r s. rright r < rleft s) rs"

text \<open>The capacity of the array is never exceeded, and \<open>set_region_rect\<close> may store one element.\<close>

definition cap_ok :: "region \<Rightarrow> bool" where
  "cap_ok reg \<longleftrightarrow> 0 < rgn_size reg \<and> num_rects reg \<le> rgn_size reg"

lemma transp_before: "transp before"
  by (auto simp: transp_def before_def is_rect_empty_def)

lemma validate_rectangles_banded: "validate_rectangles rs \<longleftrightarrow> banded rs"
proof -
  have "validate_rectangles rs \<longleftrightarrow> (\<forall>r \<in> set rs. \<not> is_rect_empty r) \<and> successively before rs"
    by (induction rs rule: validate_rectangles.induct)
      (auto simp: before_def is_rect_empty_def)
  then show ?thesis
    by (simp add: banded_def successively_conv_sorted_wrt transp_before)
qed

lemma in_rects_simps [simp]:
  "\<not> in_rects [] x y"
  "in_rects (r # rs) x y \<longleftrightarrow> point_in_rect r x y \<or> in_rects rs x y"
  "in_rects (rs @ rs') x y \<longleftrightarrow> in_rects rs x y \<or> in_rects rs' x y"
  by (auto simp: in_rects_def)

lemma in_x_simps [simp]:
  "\<not> in_x [] x"
  "in_x (r # rs) x \<longleftrightarrow> rleft r \<le> x \<and> x < rright r \<or> in_x rs x"
  "in_x (rs @ rs') x \<longleftrightarrow> in_x rs x \<or> in_x rs' x"
  by (auto simp: in_x_def)

lemma banded_append:
  "banded (xs @ ys) \<longleftrightarrow> banded xs \<and> banded ys \<and> (\<forall>x \<in> set xs. \<forall>y \<in> set ys. before x y)"
  by (auto simp: banded_def sorted_wrt_append)

lemma xband_Nil [simp]: "xband t b [] \<longleftrightarrow> t < b"
  by (simp add: xband_def)

lemma xband_append:
  "xband t b (xs @ ys) \<longleftrightarrow> xband t b xs \<and> xband t b ys \<and>
     (\<forall>x \<in> set xs. \<forall>y \<in> set ys. rright x < rleft y)"
  by (auto simp: xband_def sorted_wrt_append)

lemma xband_banded:
  assumes "xband t b rs"
  shows "banded rs"
proof -
  have "sorted_wrt before rs"
    by (rule sorted_wrt_mono_rel [of _ "\<lambda>r s. rright r < rleft s"])
      (use assms in \<open>auto simp: xband_def before_def is_rect_empty_def\<close>)
  then show ?thesis using assms by (auto simp: xband_def banded_def is_rect_empty_def)
qed

lemma banded_append_xband:
  "banded acc \<Longrightarrow> \<forall>r \<in> set acc. rbottom r \<le> t \<Longrightarrow> xband t b new \<Longrightarrow> banded (acc @ new)"
  by (auto simp: banded_append xband_banded) (auto simp: banded_def before_def xband_def is_rect_empty_def)

lemma in_rects_xband: "xband t b rs \<Longrightarrow> in_rects rs x y \<longleftrightarrow> t \<le> y \<and> y < b \<and> in_x rs x"
  by (auto simp: xband_def in_rects_def in_x_def point_in_rect_def)

lemma in_x_left: "xband t b rs \<Longrightarrow> r \<in> set rs \<Longrightarrow> in_x rs (rleft r)"
  by (auto simp: in_x_def xband_def)

lemma xband_Cons_rect:
  assumes "l < r" and "xband t b rs" and "\<And>x. in_x rs x \<Longrightarrow> r < x"
  shows "xband t b (mk_rect l t r b # rs)"
  using assms(1,2) assms(3) [OF in_x_left [OF assms(2)]] by (auto simp: xband_def)

lemma top_band_append: "top_band rs @ after_band rs = rs"
  by (simp add: top_band_def after_band_def)

lemma banded_after_band: "banded rs \<Longrightarrow> banded (after_band rs)"
  and banded_top_band: "banded rs \<Longrightarrow> banded (top_band rs)"
  using banded_append [of "top_band rs" "after_band rs"] by (simp_all add: top_band_append)

lemma same_top_xband:
  assumes "banded (a # rs)" and t: "rtop a = t" "\<forall>r \<in> set rs. rtop r = t"
  shows "xband t (rbottom a) (a # rs)"
proof -
  have "rtop r = t \<and> rbottom r = rbottom a \<and> rleft r < rright r" if "r \<in> set (a # rs)" for r
  proof (cases "r = a")
    case True
    then show ?thesis using assms(1) t(1) by (simp add: banded_def is_rect_empty_def)
  next
    case False
    then have "before a r" "rtop r = t" using assms(1) t(2) that by (auto simp: banded_def)
    then show ?thesis using t(1) unfolding before_def is_rect_empty_def by auto
  qed
  moreover have "t < rbottom a" using assms(1) t(1) by (auto simp: banded_def is_rect_empty_def)
  moreover have "sorted_wrt (\<lambda>r s. rright r < rleft s) (a # rs)"
  proof (rule sorted_wrt_mono_rel [of _ before])
    fix x y assume "x \<in> set (a # rs)" "y \<in> set (a # rs)" "before x y"
    then have "rtop x = t" "rtop y = t" "before x y" using t by auto
    then show "rright x < rleft y" unfolding before_def is_rect_empty_def by auto
  qed (use assms(1) in \<open>simp add: banded_def\<close>)
  ultimately show ?thesis unfolding xband_def by blast
qed

lemma top_band_xband:
  assumes "banded rs" and "rs \<noteq> []"
  shows "xband (rtop (hd rs)) (rbottom (hd rs)) (top_band rs)" and "top_band rs \<noteq> []"
proof -
  obtain a rs' where rs: "rs = a # rs'" using assms(2) by (cases rs) auto
  have tb: "top_band rs = a # takeWhile (\<lambda>r. rtop r = rtop a) rs'"
    by (simp add: top_band_def rs)
  then show "top_band rs \<noteq> []" by simp
  have "xband (rtop a) (rbottom a) (a # takeWhile (\<lambda>r. rtop r = rtop a) rs')"
    by (rule same_top_xband)
      (use banded_top_band [OF assms(1)] tb in \<open>auto dest: set_takeWhileD\<close>)
  then show "xband (rtop (hd rs)) (rbottom (hd rs)) (top_band rs)"
    unfolding tb by (simp only: rs list.sel)
qed

lemma after_band_below:
  assumes "banded rs" and "r \<in> set (after_band rs)"
  shows "rbottom (hd rs) \<le> rtop r"
proof -
  obtain a rs' where rs: "rs = a # rs'" using assms(2) by (cases rs) (auto simp: after_band_def)
  obtain c cs where c: "dropWhile (\<lambda>r. rtop r = rtop a) rs' = c # cs"
    using assms(2) by (cases "dropWhile (\<lambda>r. rtop r = rtop a) rs'") (auto simp: after_band_def rs)
  have e: "takeWhile (\<lambda>r. rtop r = rtop a) rs' @ c # cs = rs'"
    using takeWhile_dropWhile_id [of "\<lambda>r. rtop r = rtop a" rs'] c by simp
  have "rtop c \<noteq> rtop a" using hd_dropWhile [of "\<lambda>r. rtop r = rtop a" rs'] c by simp
  moreover have "sorted_wrt before (a # takeWhile (\<lambda>r. rtop r = rtop a) rs' @ c # cs)"
    unfolding e using assms(1) by (simp add: banded_def rs)
  then have "before a c" "\<forall>x \<in> set cs. before c x" by (simp_all add: sorted_wrt_append)
  moreover have "r = c \<or> r \<in> set cs" using assms(2) c by (simp add: after_band_def rs)
  ultimately have "before a c" "rtop c \<noteq> rtop a" "r = c \<or> before c r" by blast+
  then show ?thesis by (auto simp: before_def is_rect_empty_def rs)
qed

section \<open>What the band functions add\<close>

text \<open>
  The contract of a band function on its result \<open>res\<close> from the state \<open>s\<close>: it succeeds when
  memory does not run out, keeps the capacity, and on success has appended a band with the given
  vertical extent that covers exactly the columns \<open>S\<close>.
\<close>

definition adds_band ::
  "(nat \<Rightarrow> bool) \<Rightarrow> rbuild \<Rightarrow> bool \<times> rbuild \<Rightarrow> int \<Rightarrow> int \<Rightarrow> (int \<Rightarrow> bool) \<Rightarrow> bool" where
  "adds_band ok s res t b S \<longleftrightarrow>
     ((\<forall>n. ok n) \<longrightarrow> fst res) \<and>
     (cap_ok (snd s) \<longrightarrow> cap_ok (snd (snd res))) \<and>
     extents (snd (snd res)) = extents (snd s) \<and>
     (fst res \<longrightarrow> (\<exists>new. rects (snd (snd res)) = rects (snd s) @ new \<and> xband t b new \<and>
        (\<forall>x. in_x new x \<longleftrightarrow> S x)))"

lemma adds_band_none: "t < b \<Longrightarrow> (\<And>x. \<not> S x) \<Longrightarrow> adds_band ok s (True, s) t b S"
  by (auto simp: adds_band_def)

lemma adds_band_cong: "adds_band ok s res t b S \<Longrightarrow> (\<And>x. S x = S' x) \<Longrightarrow> adds_band ok s res t b S'"
  by (simp add: adds_band_def)

lemma add_rect_cap:
  "cap_ok (snd s) \<Longrightarrow> add_rect ok s r = (res, s') \<Longrightarrow> cap_ok (snd s')"
  by (auto simp: add_rect_def cap_ok_def Suc_le_eq split: prod.splits if_splits)

lemma add_rect_spec:
  "add_rect ok s r = (res, s') \<Longrightarrow> extents (snd s') = extents (snd s) \<and>
     ((\<forall>n. ok n) \<longrightarrow> res) \<and> (res \<longrightarrow> rects (snd s') = rects (snd s) @ [r])"
  by (auto simp: add_rect_def split: prod.splits if_splits)

text \<open>One rectangle, then the rest of the band to its right.\<close>

lemma adds_band_Cons:
  assumes a: "add_rect ok s (mk_rect l t r b) = (res, s')" and "l < r"
    and k: "res \<Longrightarrow> adds_band ok s' cont t b S" and S: "\<And>x. S x \<Longrightarrow> r < x"
    and S': "\<And>x. S' x \<longleftrightarrow> l \<le> x \<and> x < r \<or> S x"
  shows "adds_band ok s (if \<not> res then (False, s') else cont) t b S'"
proof (cases res)
  case False
  then show ?thesis using add_rect_cap [OF _ a] add_rect_spec [OF a] by (auto simp: adds_band_def)
next
  case True
  note sp = add_rect_spec [OF a]
  have "\<exists>new. rects (snd (snd cont)) = rects (snd s) @ new \<and> xband t b new \<and> (\<forall>x. in_x new x = S' x)"
    if f: "fst cont"
  proof -
    obtain new where n: "rects (snd (snd cont)) = rects (snd s') @ new" "xband t b new"
      "\<forall>x. in_x new x = S x" using k [OF True] f by (auto simp: adds_band_def)
    have "xband t b (mk_rect l t r b # new)"
      using assms(2) n(2,3) S by (intro xband_Cons_rect) simp_all
    then show ?thesis using n sp True
      by (intro exI [of _ "mk_rect l t r b # new"]) (auto simp: S')
  qed
  then show ?thesis using True k [OF True] sp add_rect_cap [OF _ a] by (auto simp: adds_band_def)
qed

lemma adds_band_skip:
  "adds_band ok s cont t b S \<Longrightarrow> (\<And>x. S' x \<longleftrightarrow> S x) \<Longrightarrow>
   adds_band ok s (case (True, s) of (res, s') \<Rightarrow> if \<not> res then (False, s') else cont) t b S'"
  by (simp add: adds_band_def)

lemma in_x_gt: "xband t b (r # rs) \<Longrightarrow> in_x rs x \<Longrightarrow> rright r < x"
  by (auto simp: xband_def in_x_def)

lemma xband_ConsD: "xband t b (r # rs) \<Longrightarrow> xband t b rs \<and> rleft r < rright r"
  by (auto simp: xband_def)

lemma intersect_overlapping_band:
  assumes "xband t1 b1 bs1" "xband t2 b2 bs2" "t < b"
  shows "adds_band ok s (intersect_overlapping ok s bs1 bs2 t b) t b (\<lambda>x. in_x bs1 x \<and> in_x bs2 x)"
  using assms
proof (induction ok s bs1 bs2 t b rule: intersect_overlapping.induct)
  case (1 ok s r1 rs1 r2 rs2 t b)
  have b1: "rleft r1 < rright r1" "xband t1 b1 rs1" "\<And>x. in_x rs1 x \<Longrightarrow> rright r1 < x"
    and b2: "rleft r2 < rright r2" "xband t2 b2 rs2" "\<And>x. in_x rs2 x \<Longrightarrow> rright r2 < x"
    using 1(4,5) by (auto dest: xband_ConsD in_x_gt)
  let ?l = "max (rleft r1) (rleft r2)" and ?r = "min (rright r1) (rright r2)"
  obtain res s' where a: "(if ?l < ?r then add_rect ok s (mk_rect ?l t ?r b) else (True, s)) = (res, s')"
    by (metis surj_pair)
  let ?cont = "if rright r1 < rright r2 then intersect_overlapping ok s' rs1 (r2 # rs2) t b
           else if rright r2 < rright r1 then intersect_overlapping ok s' (r1 # rs1) rs2 t b
           else intersect_overlapping ok s' rs1 rs2 t b"
  let ?S = "\<lambda>x. ?r < x \<and> in_x (r1 # rs1) x \<and> in_x (r2 # rs2) x"
  note IH = 1(1-3) [OF refl refl a [symmetric]]
  have c: "adds_band ok s' ?cont t b ?S" if res
  proof -
    consider "rright r1 < rright r2" | "rright r2 < rright r1" | "rright r1 = rright r2" by linarith
    then show ?thesis
    proof cases
      case 1
      then show ?thesis using IH(1) [OF _ 1 b1(2) \<open>xband t2 b2 (r2 # rs2)\<close> \<open>t < b\<close>] that b1 b2
        by (auto elim!: adds_band_cong)
    next
      case 2
      then show ?thesis using IH(2) [OF _ _ 2 \<open>xband t1 b1 (r1 # rs1)\<close> b2(2) \<open>t < b\<close>] that b1 b2
        by (auto elim!: adds_band_cong)
    next
      case 3
      then show ?thesis using IH(3) [OF _ _ _ b1(2) b2(2) \<open>t < b\<close>] that b1 b2
        by (auto elim!: adds_band_cong)
    qed
  qed
  have e: "intersect_overlapping ok s (r1 # rs1) (r2 # rs2) t b =
      (if \<not> res then (False, s') else ?cont)" by (simp only: intersect_overlapping.simps a Let_def prod.case)
  have S: "in_x (r1 # rs1) x \<and> in_x (r2 # rs2) x \<longleftrightarrow> ?l \<le> x \<and> x < ?r \<or> ?S x" for x
    using b1(3) [of x] b2(3) [of x] by auto
  show ?case
  proof (cases "?l < ?r")
    case True
    then have "add_rect ok s (mk_rect ?l t ?r b) = (res, s')" using a by simp
    then show ?thesis unfolding e by (rule adds_band_Cons [OF _ \<open>?l < ?r\<close> c _ S]) simp_all
  next
    case False
    then have "res" "s' = s" using a by auto
    have "?S x \<longleftrightarrow> in_x (r1 # rs1) x \<and> in_x (r2 # rs2) x" for x
      using S [of x] False by linarith
    from adds_band_cong [OF c this] show ?thesis
      unfolding e using \<open>res\<close> \<open>s' = s\<close> by simp
  qed
qed (auto intro: adds_band_none)


lemma subtract_non_overlapping_band:
  assumes "xband t1 b1 bs" "t < b"
  shows "adds_band ok s (subtract_non_overlapping ok s bs t b) t b (in_x bs)"
  using assms
proof (induction ok s bs t b rule: subtract_non_overlapping.induct)
  case (2 ok s r rs t b)
  obtain res s' where a: "add_rect ok s (mk_rect (rleft r) t (rright r) b) = (res, s')"
    by (metis surj_pair)
  have b: "rleft r < rright r" "xband t1 b1 rs" "\<And>x. in_x rs x \<Longrightarrow> rright r < x"
    using 2(2) by (auto dest: xband_ConsD in_x_gt)
  have e: "subtract_non_overlapping ok s (r # rs) t b =
      (if \<not> res then (False, s') else subtract_non_overlapping ok s' rs t b)" by (simp add: a)
  show ?case unfolding e
    by (rule adds_band_Cons [OF a b(1) _ b(3)]) (use 2(1) [OF a [symmetric]] b(2) 2(3) in auto)
qed (auto intro: adds_band_none)

lemma union_non_overlapping_eq: "union_non_overlapping = subtract_non_overlapping"
proof (intro ext)
  fix ok s bs t b
  show "union_non_overlapping ok s bs t b = subtract_non_overlapping ok s bs t b"
    by (induction bs arbitrary: s) (simp_all split: prod.split)
qed

lemma subtract_rest_band:
  assumes "xband t1 b1 (a # bs)" "rleft a \<le> left" "left < rright a" "t < b"
  shows "adds_band ok s (subtract_rest ok s left (a # bs) t b) t b
    (\<lambda>x. left \<le> x \<and> x < rright a \<or> in_x bs x)"
  using assms
proof (induction bs arbitrary: a left s)
  case Nil
  obtain res s' where a: "add_rect ok s (mk_rect left t (rright a) b) = (res, s')"
    by (metis surj_pair)
  have "adds_band ok s (if \<not> res then (False, s') else (True, s')) t b
    (\<lambda>x. left \<le> x \<and> x < rright a \<or> in_x [] x)"
    by (rule adds_band_Cons [OF a Nil(3) adds_band_none [OF Nil(4)], of "\<lambda>_. False"]) auto
  then show ?case by (simp add: a split: if_splits)
next
  case (Cons c bs)
  obtain res s' where a: "add_rect ok s (mk_rect left t (rright a) b) = (res, s')"
    by (metis surj_pair)
  have b: "xband t1 b1 (c # bs)" "\<And>x. in_x (c # bs) x \<Longrightarrow> rright a < x" "rleft c < rright c"
    using Cons(2) by (auto dest: xband_ConsD in_x_gt)
  have "adds_band ok s (if \<not> res then (False, s')
      else subtract_rest ok s' (rleft c) (c # bs) t b) t b
    (\<lambda>x. left \<le> x \<and> x < rright a \<or> in_x (c # bs) x)"
    by (rule adds_band_Cons [OF a Cons(4) Cons(1) [OF b(1) order_refl b(3) Cons(5)]])
      (use b(2) in \<open>auto simp: in_x_simps\<close>)
  then show ?case by (simp add: a next_left_def split: if_splits)
qed

text \<open>The state of the loop: the part of \<open>r1\<close> from \<open>left\<close> on is still to be handled.\<close>

definition from_left :: "int \<Rightarrow> rectangle list \<Rightarrow> int \<Rightarrow> bool" where
  "from_left left rs x \<longleftrightarrow>
     (case rs of [] \<Rightarrow> False | a # bs \<Rightarrow> left \<le> x \<and> x < rright a \<or> in_x bs x)"

definition left_ok :: "int \<Rightarrow> rectangle list \<Rightarrow> bool" where
  "left_ok left rs \<longleftrightarrow> (case rs of [] \<Rightarrow> True | a # bs \<Rightarrow> rleft a \<le> left \<and> left < rright a)"

lemma left_ok_next: "xband t b rs \<Longrightarrow> left_ok (next_left rs left) rs"
  by (cases rs) (auto simp: left_ok_def next_left_def dest: xband_ConsD)

lemma from_left_next: "from_left (next_left rs left) rs x \<longleftrightarrow> in_x rs x"
  by (cases rs) (auto simp: from_left_def next_left_def)

lemma subtract_rest_from_left:
  assumes "xband t1 b1 bs" "left_ok left bs" "t < b"
  shows "adds_band ok s (subtract_rest ok s left bs t b) t b (from_left left bs)"
proof (cases bs)
  case Nil
  then show ?thesis using assms by (auto simp: from_left_def intro: adds_band_none)
next
  case (Cons a bs')
  have "adds_band ok s (subtract_rest ok s left (a # bs') t b) t b
      (\<lambda>x. left \<le> x \<and> x < rright a \<or> in_x bs' x)"
    using assms by (intro subtract_rest_band) (auto simp: Cons left_ok_def)
  then show ?thesis by (simp add: Cons from_left_def [abs_def])
qed

lemma from_left_Nil [simp]: "\<not> from_left left [] x"
  by (simp add: from_left_def)

lemma subtract_loop_band:
  assumes "xband t1 b1 bs1" "xband t2 b2 bs2" "left_ok left bs1" "t < b"
  shows "adds_band ok s (subtract_loop ok s left bs1 bs2 t b) t b
    (\<lambda>x. from_left left bs1 x \<and> \<not> in_x bs2 x)"
  using assms
proof (induction ok s left bs1 bs2 t b rule: subtract_loop.induct)
  case (1 ok s left r1 rs1 r2 rs2 t b)
  note x1 = \<open>xband t1 b1 (r1 # rs1)\<close> and x2 = \<open>xband t2 b2 (r2 # rs2)\<close> and tb = \<open>t < b\<close>
  have l: "rleft r1 \<le> left" "left < rright r1" using 1(9) by (simp_all add: left_ok_def)
  have b1: "rleft r1 < rright r1" "xband t1 b1 rs1" "\<And>x. in_x rs1 x \<Longrightarrow> rright r1 < x"
    and b2: "rleft r2 < rright r2" "xband t2 b2 rs2" "\<And>x. in_x rs2 x \<Longrightarrow> rright r2 < x"
    using x1 x2 by (auto dest: xband_ConsD in_x_gt)
  let ?S = "\<lambda>x. from_left left (r1 # rs1) x \<and> \<not> in_x (r2 # rs2) x"
  note advance = left_ok_next [OF b1(2)]
  consider (gone) "rright r2 \<le> left" | (covers) "rleft r2 \<le> left" "left < rright r2"
    | (cuts) "left < rleft r2" "rleft r2 < rright r1" | (clear) "rright r1 \<le> rleft r2"
    by linarith
  then show ?case
  proof cases
    case gone
    have "from_left left (r1 # rs1) x \<and> \<not> in_x rs2 x \<longleftrightarrow> ?S x" for x
      using gone l b1(3) [of x] by (auto simp: from_left_def)
    from adds_band_cong [OF 1(1) [OF gone x1 b2(2) 1(9) tb] this] gone
    show ?thesis by simp
  next
    case covers
    show ?thesis
    proof (cases "rright r2 \<ge> rright r1")
      case True
      have "from_left (next_left rs1 (rright r2)) rs1 x \<and> \<not> in_x (r2 # rs2) x \<longleftrightarrow> ?S x" for x
        using covers True l b1(3) [of x] by (auto simp: from_left_next) (auto simp: from_left_def)
      from adds_band_cong [OF 1(2) [OF _ covers(1) refl True b1(2) x2 advance tb] this] covers True
      show ?thesis by simp
    next
      case False
      have "from_left (rright r2) (r1 # rs1) x \<and> \<not> in_x rs2 x \<longleftrightarrow> ?S x" for x
        using covers False l b1(3) [of x] by (auto simp: from_left_def)
      moreover have "left_ok (rright r2) (r1 # rs1)" using False covers l by (simp add: left_ok_def)
      ultimately show ?thesis
        using adds_band_cong [OF 1(3) [OF _ covers(1) refl False x1 b2(2) _ tb]] covers False by simp
    qed
  next
    case cuts
    obtain res s' where a: "add_rect ok s (mk_rect left t (rleft r2) b) = (res, s')"
      by (metis surj_pair)
    show ?thesis
    proof (cases "rright r2 \<ge> rright r1")
      case True
      let ?C = "subtract_loop ok s' (next_left rs1 (rright r2)) rs1 (r2 # rs2) t b"
      let ?T = "\<lambda>x. in_x rs1 x \<and> \<not> in_x (r2 # rs2) x"
      have "adds_band ok s' ?C t b ?T" if res
        using 1(4) [OF _ _ cuts(2) a [symmetric] _ refl True b1(2) x2 advance tb] cuts b2(1) that
        by (simp add: from_left_next)
      moreover have "?S x \<longleftrightarrow> left \<le> x \<and> x < rleft r2 \<or> ?T x" for x
        using cuts True l b1(3) [of x] b2(3) [of x] by (auto simp: from_left_def)
      moreover have "rleft r2 < x" if "?T x" for x using b1(3) [of x] that cuts by auto
      moreover have e: "subtract_loop ok s left (r1 # rs1) (r2 # rs2) t b = (if \<not> res then (False, s') else ?C)"
        using cuts True b2(1) by (simp add: a)
      ultimately show ?thesis unfolding e by (intro adds_band_Cons [OF a cuts(1)]) simp_all
    next
      case False
      let ?C = "subtract_loop ok s' (rright r2) (r1 # rs1) rs2 t b"
      let ?T = "\<lambda>x. from_left (rright r2) (r1 # rs1) x \<and> \<not> in_x rs2 x"
      have "left_ok (rright r2) (r1 # rs1)" using False cuts b1 b2 l by (simp add: left_ok_def)
      then have "adds_band ok s' ?C t b ?T" if res
        using 1(5) [OF _ _ cuts(2) a [symmetric] _ refl False x1 b2(2) _ tb] cuts b2(1) that by simp
      moreover have "?S x \<longleftrightarrow> left \<le> x \<and> x < rleft r2 \<or> ?T x" for x
        using cuts False l b1(3) [of x] b2(1) b2(3) [of x] by (auto simp: from_left_def)
      moreover have "rleft r2 < x" if "?T x" for x
        using b1(3) [of x] that cuts b2(1) by (auto simp: from_left_def)
      moreover have e: "subtract_loop ok s left (r1 # rs1) (r2 # rs2) t b = (if \<not> res then (False, s') else ?C)"
        using cuts False b2(1) by (simp add: a)
      ultimately show ?thesis unfolding e by (intro adds_band_Cons [OF a cuts(1)]) simp_all
    qed
  next
    case clear
    obtain res s' where a: "add_rect ok s (mk_rect left t (rright r1) b) = (res, s')"
      by (metis surj_pair)
    let ?C = "subtract_loop ok s' (next_left rs1 left) rs1 (r2 # rs2) t b"
    let ?T = "\<lambda>x. in_x rs1 x \<and> \<not> in_x (r2 # rs2) x"
    have "adds_band ok s' ?C t b ?T" if res
      using 1(6) [of res s'] b1(2) x2 advance tb clear b2(1) l a that by (simp add: from_left_next)
    moreover have "?S x \<longleftrightarrow> left \<le> x \<and> x < rright r1 \<or> ?T x" for x
      using clear l b1(3) [of x] b2(1) b2(3) [of x] by (auto simp: from_left_def)
    moreover have "rright r1 < x" if "?T x" for x using b1(3) [of x] that by simp
    moreover have e: "subtract_loop ok s left (r1 # rs1) (r2 # rs2) t b = (if \<not> res then (False, s') else ?C)"
      using clear l b2(1) by (simp add: a)
    ultimately show ?thesis unfolding e by (intro adds_band_Cons [OF a l(2)]) simp_all
  qed
qed (auto intro: subtract_rest_from_left adds_band_none)


lemma subtract_overlapping_band:
  assumes "xband t1 b1 bs1" "xband t2 b2 bs2" "bs1 \<noteq> []" "t < b"
  shows "adds_band ok s (subtract_overlapping ok s bs1 bs2 t b) t b (\<lambda>x. in_x bs1 x \<and> \<not> in_x bs2 x)"
proof -
  have l: "left_ok (rleft (hd bs1)) bs1" "from_left (rleft (hd bs1)) bs1 x \<longleftrightarrow> in_x bs1 x" for x
    using assms(1,3) by (cases bs1; auto simp: left_ok_def from_left_def dest: xband_ConsD)+
  show ?thesis
    unfolding subtract_overlapping_def
    using subtract_loop_band [OF assms(1,2) l(1) assms(4), of ok s] by (simp add: l(2))
qed

text \<open>
  \<open>MERGERECT\<close> extends the band \<open>new\<close> built so far on top of \<open>acc\<close>; the remaining rectangles
  start no further left than those already merged.
\<close>

definition merges :: "rectangle list \<Rightarrow> region \<Rightarrow> int \<Rightarrow> int \<Rightarrow> (int \<Rightarrow> bool) \<Rightarrow> int \<Rightarrow> bool" where
  "merges acc reg t b S m \<longleftrightarrow> (\<exists>new. rects reg = acc @ new \<and> xband t b new \<and>
     (\<forall>x. in_x new x \<longleftrightarrow> S x) \<and> (\<forall>r \<in> set new. rleft r \<le> m))"

lemma MERGERECT_merges:
  assumes m: "merges acc (snd s) t b S m" and acc: "\<forall>r \<in> set acc. rbottom r \<le> t"
    and r: "rleft r < rright r" "m \<le> rleft r" and e: "MERGERECT ok s r t b = (True, s')"
  shows "merges acc (snd s') t b (\<lambda>x. S x \<or> rleft r \<le> x \<and> x < rright r) (rleft r)"
proof -
  obtain new where n: "rects (snd s) = acc @ new" "xband t b new" "\<forall>x. in_x new x \<longleftrightarrow> S x"
    "\<forall>r \<in> set new. rleft r \<le> m" using m by (auto simp: merges_def)
  let ?rect = "mk_rect (rleft r) t (rright r) b"
  show ?thesis
  proof (cases "new = [] \<or> rright (last new) < rleft r")
    case True
    have "\<not> (num_rects (snd s) \<noteq> 0 \<and> rtop (last (rects (snd s))) = t \<and>
        rbottom (last (rects (snd s))) = b \<and> rright (last (rects (snd s))) \<ge> rleft r)"
    proof (cases "new = []")
      case True
      have "rbottom (last acc) \<le> t" if "acc \<noteq> []" using acc last_in_set [OF that] by blast
      moreover have "t < b" using n(2) by (simp add: xband_def)
      ultimately show ?thesis using n(1) True by auto
    next
      case False
      then show ?thesis using True n(1) by auto
    qed
    then have "add_rect ok s ?rect = (True, s')"
      using e by (auto simp: MERGERECT_def split: prod.splits)
    then have "rects (snd s') = acc @ new @ [?rect]"
      using add_rect_spec n(1) by fastforce
    moreover have "xband t b (new @ [?rect])"
    proof -
      have "rright x < rleft r" if x: "x \<in> set new" for x
      proof -
        obtain l where l: "new = butlast new @ [l]" "l = last new"
          using x append_butlast_last_id [of new] by (cases "new = []") auto
        then have "x \<in> set (butlast new @ [l])" "xband t b (butlast new @ [l])" using x n(2) by simp_all
        moreover have "rright l < rleft r" using True x l(2) by auto
        ultimately show ?thesis by (auto simp: xband_def sorted_wrt_append)
      qed
      then show ?thesis using n(2) r by (auto simp: xband_append) (auto simp: xband_def)
    qed
    ultimately show ?thesis using n r
      by (auto simp: merges_def intro!: exI [of _ "new @ [?rect]"])
  next
    case False
    obtain nb l where l: "new = nb @ [l]"
      by (cases new rule: rev_exhaust) (use False in auto)
    have lb: "rtop l = t" "rbottom l = b" "rleft l < rright l" "rleft l \<le> m" "xband t b nb"
      "\<forall>x \<in> set nb. rright x < rleft l"
      using n(2,4) by (auto simp: l xband_def sorted_wrt_append)
    have "rects (snd s') = acc @ nb @ [if rright l < rright r then l\<lparr>rright := rright r\<rparr> else l]"
      using e n(1) False lb by (auto simp: MERGERECT_def l butlast_append split: prod.splits if_splits)
    moreover have "xband t b (nb @ [if rright l < rright r then l\<lparr>rright := rright r\<rparr> else l])"
      using lb n(2) by (auto simp: xband_append) (auto simp: xband_def)
    ultimately show ?thesis using n(3,4) lb r False
      by (auto simp: merges_def l intro!: exI [of _ "nb @ [if rright l < rright r then l\<lparr>rright := rright r\<rparr> else l]"])
  qed
qed


lemma MERGERECT_frame:
  assumes "MERGERECT ok s r t b = (res, s')"
  shows "((\<forall>n. ok n) \<longrightarrow> res) \<and> extents (snd s') = extents (snd s) \<and>
    (cap_ok (snd s) \<longrightarrow> cap_ok (snd s'))"
proof (cases "add_rect ok s (mk_rect (rleft r) t (rright r) b) = (res, s')")
  case True
  then show ?thesis by (auto dest: add_rect_spec add_rect_cap)
next
  case False
  then show ?thesis using assms
    by (auto simp: MERGERECT_def Let_def cap_ok_def split: prod.splits if_splits)
qed

definition merge_result ::
  "(nat \<Rightarrow> bool) \<Rightarrow> rbuild \<Rightarrow> bool \<times> rbuild \<Rightarrow> rectangle list \<Rightarrow> int \<Rightarrow> int \<Rightarrow> (int \<Rightarrow> bool) \<Rightarrow> bool" where
  "merge_result ok s res acc t b S \<longleftrightarrow>
     ((\<forall>n. ok n) \<longrightarrow> fst res) \<and> (cap_ok (snd s) \<longrightarrow> cap_ok (snd (snd res))) \<and>
     extents (snd (snd res)) = extents (snd s) \<and>
     (fst res \<longrightarrow> (\<exists>m. merges acc (snd (snd res)) t b S m))"

lemma merge_result_step:
  assumes e: "MERGERECT ok s r t b = (res, s')"
    and c: "res \<Longrightarrow> merges acc (snd s') t b (\<lambda>x. S x \<or> rleft r \<le> x \<and> x < rright r) (rleft r) \<Longrightarrow>
      merge_result ok s' cont acc t b S'"
    and m: "merges acc (snd s) t b S m" and acc: "\<forall>r \<in> set acc. rbottom r \<le> t"
    and r: "rleft r < rright r" "m \<le> rleft r"
  shows "merge_result ok s (if \<not> res then (False, s') else cont) acc t b S'"
proof (cases res)
  case True
  then have "merge_result ok s' cont acc t b S'"
    using c MERGERECT_merges [OF m acc r] e by simp
  then show ?thesis using MERGERECT_frame [OF e] True by (auto simp: merge_result_def)
next
  case False
  then show ?thesis using MERGERECT_frame [OF e] by (auto simp: merge_result_def)
qed

definition all_left_ge :: "int \<Rightarrow> rectangle list \<Rightarrow> bool" where
  "all_left_ge m rs \<longleftrightarrow> (\<forall>r \<in> set rs. m \<le> rleft r)"

lemma xband_all_left: "xband t b (r # rs) \<Longrightarrow> all_left_ge (rleft r) (r # rs)"
  by (auto simp: xband_def all_left_ge_def)

lemma all_left_geD: "all_left_ge m (r # rs) \<Longrightarrow> m \<le> rleft r \<and> all_left_ge m rs"
  by (simp add: all_left_ge_def)

lemma all_left_ge_trans: "all_left_ge m rs \<Longrightarrow> m' \<le> m \<Longrightarrow> all_left_ge m' rs"
  by (auto simp: all_left_ge_def)

lemma union_overlapping_merges:
  assumes "xband t1 b1 bs1" "xband t2 b2 bs2" "merges acc (snd s) t b S m"
    "\<forall>r \<in> set acc. rbottom r \<le> t" "all_left_ge m bs1" "all_left_ge m bs2"
  shows "merge_result ok s (union_overlapping ok s bs1 bs2 t b) acc t b
    (\<lambda>x. S x \<or> in_x bs1 x \<or> in_x bs2 x)"
  using assms
proof (induction ok s bs1 bs2 t b arbitrary: S m rule: union_overlapping.induct)
  case (1 ok s r1 rs1 r2 rs2 t b)
  note p = 1(3-8)
  have b: "xband t1 b1 rs1" "rleft r1 < rright r1" "xband t2 b2 rs2" "rleft r2 < rright r2"
    "m \<le> rleft r1" "m \<le> rleft r2"
    using p by (auto dest: xband_ConsD all_left_geD)
  note l1 = xband_all_left [OF p(1)] and l2 = xband_all_left [OF p(2)]
  show ?case
  proof (cases "rleft r1 < rleft r2")
    case True
    obtain res s' where a: "MERGERECT ok s r1 t b = (res, s')" by (metis surj_pair)
    have e: "union_overlapping ok s (r1 # rs1) (r2 # rs2) t b =
      (if \<not> res then (False, s') else union_overlapping ok s' rs1 (r2 # rs2) t b)"
      using True by (simp add: a)
    have g: "all_left_ge (rleft r1) rs1" "all_left_ge (rleft r1) (r2 # rs2)"
      using l1 l2 True all_left_ge_trans [of "rleft r2" "r2 # rs2" "rleft r1"]
      by (auto dest: all_left_geD)
    have c: "merge_result ok s' (union_overlapping ok s' rs1 (r2 # rs2) t b) acc t b
        (\<lambda>x. S x \<or> in_x (r1 # rs1) x \<or> in_x (r2 # rs2) x)"
      if "res" "merges acc (snd s') t b (\<lambda>x. S x \<or> rleft r1 \<le> x \<and> x < rright r1) (rleft r1)"
      using 1(1) [OF True a [symmetric] _ b(1) p(2) that(2) p(4) g] that(1) by (simp add: disj_ac)
    show ?thesis unfolding e by (rule merge_result_step [OF a c p(3,4) b(2,5)])
  next
    case False
    obtain res s' where a: "MERGERECT ok s r2 t b = (res, s')" by (metis surj_pair)
    have e: "union_overlapping ok s (r1 # rs1) (r2 # rs2) t b =
      (if \<not> res then (False, s') else union_overlapping ok s' (r1 # rs1) rs2 t b)"
      using False by (simp add: a)
    have g: "all_left_ge (rleft r2) (r1 # rs1)" "all_left_ge (rleft r2) rs2"
      using l1 l2 False all_left_ge_trans [of "rleft r1" "r1 # rs1" "rleft r2"]
      by (auto dest: all_left_geD)
    have c: "merge_result ok s' (union_overlapping ok s' (r1 # rs1) rs2 t b) acc t b
        (\<lambda>x. S x \<or> in_x (r1 # rs1) x \<or> in_x (r2 # rs2) x)"
      if "res" "merges acc (snd s') t b (\<lambda>x. S x \<or> rleft r2 \<le> x \<and> x < rright r2) (rleft r2)"
      using 1(2) [OF False a [symmetric] _ p(1) b(3) that(2) p(4) g] that(1) by (simp add: disj_ac)
    show ?thesis unfolding e by (rule merge_result_step [OF a c p(3,4) b(4,6)])
  qed
next
  case (2 ok s r1 rs1 t b)
  note p = 2(2-7)
  obtain res s' where a: "MERGERECT ok s r1 t b = (res, s')" by (metis surj_pair)
  have e: "union_overlapping ok s (r1 # rs1) [] t b =
      (if \<not> res then (False, s') else union_overlapping ok s' rs1 [] t b)" by (simp add: a)
  have b: "xband t1 b1 rs1" "rleft r1 < rright r1" "m \<le> rleft r1" "all_left_ge (rleft r1) rs1"
    "all_left_ge (rleft r1) []"
    using p xband_all_left [OF p(1)] by (auto dest: xband_ConsD all_left_geD simp: all_left_ge_def)
  have c: "merge_result ok s' (union_overlapping ok s' rs1 [] t b) acc t b
      (\<lambda>x. S x \<or> in_x (r1 # rs1) x \<or> in_x [] x)"
    if "res" "merges acc (snd s') t b (\<lambda>x. S x \<or> rleft r1 \<le> x \<and> x < rright r1) (rleft r1)"
    using 2(1) [OF a [symmetric] _ b(1) p(2) that(2) p(4) b(4,5)] that(1) by (simp add: disj_ac)
  show ?case unfolding e by (rule merge_result_step [OF a c p(3,4) b(2,3)])
next
  case (3 ok s r2 rs2 t b)
  note p = 3(2-7)
  obtain res s' where a: "MERGERECT ok s r2 t b = (res, s')" by (metis surj_pair)
  have e: "union_overlapping ok s [] (r2 # rs2) t b =
      (if \<not> res then (False, s') else union_overlapping ok s' [] rs2 t b)" by (simp add: a)
  have b: "xband t2 b2 rs2" "rleft r2 < rright r2" "m \<le> rleft r2" "all_left_ge (rleft r2) rs2"
    "all_left_ge (rleft r2) []"
    using p xband_all_left [OF p(2)] by (auto dest: xband_ConsD all_left_geD simp: all_left_ge_def)
  have c: "merge_result ok s' (union_overlapping ok s' [] rs2 t b) acc t b
      (\<lambda>x. S x \<or> in_x [] x \<or> in_x (r2 # rs2) x)"
    if "res" "merges acc (snd s') t b (\<lambda>x. S x \<or> rleft r2 \<le> x \<and> x < rright r2) (rleft r2)"
    using 3(1) [OF a [symmetric] _ p(1) b(1) that(2) p(4) b(5,4)] that(1) by (simp add: disj_ac)
  show ?case unfolding e by (rule merge_result_step [OF a c p(3,4) b(2,3)])
next
  case (4 ok s t b)
  then show ?case by (auto simp: merge_result_def)
qed

lemma union_overlapping_band:
  assumes "xband t1 b1 bs1" "xband t2 b2 bs2" "bs1 \<noteq> []" "bs2 \<noteq> []" "t < b"
    "\<forall>r \<in> set (rects (snd s)). rbottom r \<le> t"
  shows "adds_band ok s (union_overlapping ok s bs1 bs2 t b) t b (\<lambda>x. in_x bs1 x \<or> in_x bs2 x)"
proof -
  obtain a1 c1 a2 c2 where bs: "bs1 = a1 # c1" "bs2 = a2 # c2"
    using assms(3,4) by (cases bs1; cases bs2) auto
  let ?m = "min (rleft a1) (rleft a2)"
  have "merges (rects (snd s)) (snd s) t b (\<lambda>_. False) ?m" using assms(5) by (simp add: merges_def)
  moreover have "all_left_ge ?m bs1" "all_left_ge ?m bs2"
    using xband_all_left [OF assms(1) [unfolded bs]] xband_all_left [OF assms(2) [unfolded bs]]
    unfolding bs by (auto intro: all_left_ge_trans)
  ultimately have "merge_result ok s (union_overlapping ok s bs1 bs2 t b) (rects (snd s)) t b
      (\<lambda>x. False \<or> in_x bs1 x \<or> in_x bs2 x)"
    using assms by (intro union_overlapping_merges) auto
  then show ?thesis by (auto simp: merge_result_def adds_band_def merges_def)
qed

section \<open>Merging bands\<close>

text \<open>\<open>p\<close> is the index at which the last band of \<open>rs\<close> starts.\<close>

definition last_band :: "rectangle list \<Rightarrow> nat \<Rightarrow> bool" where
  "last_band rs p \<longleftrightarrow> (if rs = [] then p = 0
     else p < length rs \<and> (\<exists>t b. xband t b (drop p rs) \<and> (\<forall>r \<in> set (take p rs). rbottom r \<le> t)))"

lemma last_band_append:
  "xband t b new \<Longrightarrow> new \<noteq> [] \<Longrightarrow> \<forall>r \<in> set acc. rbottom r \<le> t \<Longrightarrow> last_band (acc @ new) (length acc)"
  by (auto simp: last_band_def)

lemma map2_bottom:
  "length ps = length cs \<Longrightarrow> \<forall>c \<in> set cs. rbottom c = b \<Longrightarrow>
   map2 (\<lambda>p c. p\<lparr>rbottom := rbottom c\<rparr>) ps cs = map (\<lambda>p. p\<lparr>rbottom := b\<rparr>) ps"
  by (induction ps cs rule: list_induct2) auto

lemma same_columns:
  "list_all2 (\<lambda>p c. rleft p = rleft c \<and> rright p = rright c) ps cs \<Longrightarrow> in_x ps x \<longleftrightarrow> in_x cs x"
  by (induction ps cs rule: list_all2_induct) auto

lemma xband_stretch:
  "xband t b ps \<Longrightarrow> t < b' \<Longrightarrow> xband t b' (map (\<lambda>p. p\<lparr>rbottom := b'\<rparr>) ps)"
  by (auto simp: xband_def sorted_wrt_map)

lemma in_x_stretch: "in_x (map (\<lambda>p. p\<lparr>rbottom := b'\<rparr>) ps) x \<longleftrightarrow> in_x ps x"
  by (auto simp: in_x_def)

lemma merged_banded:
  assumes "banded (pre @ ps @ cs @ rest)" "xband t b ps" "\<forall>r \<in> set pre. rbottom r \<le> t"
    and "xband b b' cs" "cs \<noteq> []" "\<forall>r \<in> set rest. b' \<le> rtop r"
  shows "banded (pre @ map (\<lambda>p. p\<lparr>rbottom := b'\<rparr>) ps @ rest)"
proof -
  let ?m = "map (\<lambda>p. p\<lparr>rbottom := b'\<rparr>) ps"
  have tb: "t < b'" using assms(2,4) by (simp add: xband_def)
  have "banded (pre @ ?m)"
    using assms(1) xband_stretch [OF assms(2) tb]
    by (intro banded_append_xband [OF _ assms(3)]) (simp_all add: banded_append)
  moreover have "banded rest" "\<forall>x \<in> set pre. \<forall>y \<in> set rest. before x y"
    using assms(1) by (simp_all add: banded_append)
  moreover have "before x y" if "x \<in> set ?m" "y \<in> set rest" for x y
    using that xband_stretch [OF assms(2) tb] assms(6) \<open>banded rest\<close>
    by (auto simp: before_def xband_def banded_def is_rect_empty_def)
  ultimately show ?thesis by (auto simp: banded_append)
qed

lemma coalesce_region_spec:
  assumes b: "banded (acc @ new)" "rects reg = acc @ new" "last_band acc p" "new \<noteq> []"
    and c: "coalesce_region reg p (length acc) = (p', reg')"
  shows "banded (rects reg') \<and> (\<forall>x y. in_rects (rects reg') x y \<longleftrightarrow> in_rects (acc @ new) x y) \<and>
    extents reg' = extents reg \<and> (cap_ok reg \<longrightarrow> cap_ok reg') \<and>
    (after_band new = [] \<longrightarrow> (\<forall>r \<in> set acc. rbottom r \<le> rtop (hd new)) \<longrightarrow>
      last_band (rects reg') p' \<and> (\<forall>r \<in> set (rects reg'). rbottom r \<le> rbottom (hd new)))"
proof -
  let ?cur = "top_band new" and ?rest = "after_band new" and ?prev = "drop p acc"
  have bn: "banded new" using b(1) by (simp add: banded_append)
  note cx = top_band_xband [OF bn b(4)]
  have split: "?cur @ ?rest = new" by (rule top_band_append)
  have pl: "p \<le> length acc" using b(3) by (auto simp: last_band_def split: if_splits)
  have prev: "take (length acc - p) (drop p (acc @ new)) = ?prev" using pl by simp
  have cur: "takeWhile (\<lambda>r. rtop r = rtop ((acc @ new) ! length acc)) (drop (length acc) (acc @ new)) = ?cur"
    using b(4) by (simp add: top_band_def nth_append hd_conv_nth)
  have rest: "drop (length acc + length ?cur) (acc @ new) = ?rest"
    by (simp add: top_band_def after_band_def dropWhile_eq_drop)
  have hd: "hd ?cur = hd new" using split cx(2) by (metis hd_append2)
  have below: "\<forall>r \<in> set ?rest. rbottom (hd new) \<le> rtop r" using after_band_below [OF bn] by blast
  define q where "q = (if ?rest \<noteq> [] then last_band_start (acc @ new) else length acc)"
  let ?lr = "list_all2 (\<lambda>p c. rleft p = rleft c \<and> rright p = rright c) ?prev ?cur"
  define merge where "merge \<longleftrightarrow> length ?cur = length ?prev \<and> ?prev \<noteq> [] \<and>
    rbottom (hd ?prev) = rtop (hd new) \<and> ?lr"
  have e: "coalesce_region reg p (length acc) = (if merge
      then (if ?rest = [] then p else q, reg\<lparr>rects := take p acc @
              map2 (\<lambda>p c. p\<lparr>rbottom := rbottom c\<rparr>) ?prev ?cur @ ?rest\<rparr>)
      else (q, reg))"
    unfolding coalesce_region_def b(2) Let_def prev cur rest q_def merge_def hd
    using pl by auto
  show ?thesis
  proof (cases merge)
    case False
    have "last_band (acc @ new) (length acc) \<and> (\<forall>r \<in> set (acc @ new). rbottom r \<le> rbottom (hd new))"
      if r: "?rest = []" and a: "\<forall>r \<in> set acc. rbottom r \<le> rtop (hd new)"
    proof -
      have n: "?cur = new" using split r by simp
      then have "xband (rtop (hd new)) (rbottom (hd new)) new" using cx(1) by simp
      then show ?thesis using last_band_append [OF _ b(4) a] a by (fastforce simp: xband_def)
    qed
    then show ?thesis using c False b(1,2) unfolding e q_def by auto
  next
    case True
    then have m: "length ?cur = length ?prev" "?prev \<noteq> []" "rbottom (hd ?prev) = rtop (hd new)" "?lr"
      by (simp_all add: merge_def)
    then have ne: "acc \<noteq> []" by auto
    obtain t bb where px: "xband t bb ?prev" "\<forall>r \<in> set (take p acc). rbottom r \<le> t"
      using b(3) ne by (auto simp: last_band_def)
    have bb: "bb = rtop (hd new)" using m(2,3) px(1) by (metis hd_in_set xband_def)
    let ?b' = "rbottom (hd new)" let ?m = "map (\<lambda>p. p\<lparr>rbottom := ?b'\<rparr>) ?prev"
    have m2: "map2 (\<lambda>p c. p\<lparr>rbottom := rbottom c\<rparr>) ?prev ?cur = ?m"
      using m(1) cx(1) by (intro map2_bottom) (auto simp: xband_def)
    have R: "reg' = reg\<lparr>rects := take p acc @ ?m @ ?rest\<rparr>" "p' = (if ?rest = [] then p else q)"
      using c True unfolding e m2 by simp_all
    have all: "acc @ new = take p acc @ ?prev @ ?cur @ ?rest" by (simp add: split)
    have "banded (take p acc @ ?prev @ ?cur @ ?rest)" using b(1) unfolding all .
    then have "banded (take p acc @ ?m @ ?rest)"
      by (rule merged_banded [OF _ px _ cx(2) below]) (use cx(1) bb in simp)
    moreover have tb: "t < ?b'" using px(1) cx(1) bb by (simp add: xband_def)
    have mx: "xband t ?b' ?m" by (rule xband_stretch [OF px(1) tb])
    have "in_rects ?m x y \<longleftrightarrow> in_rects (?prev @ ?cur) x y" for x y
      using in_rects_xband [OF mx] in_rects_xband [OF px(1)] in_rects_xband [OF cx(1)]
        same_columns [OF m(4)] px(1) cx(1) bb by (auto simp: in_x_stretch xband_def)
    then have "in_rects (take p acc @ ?m @ ?rest) x y \<longleftrightarrow> in_rects (acc @ new) x y" for x y
      unfolding all by auto
    moreover have "cap_ok reg \<longrightarrow> cap_ok reg'"
      using R(1) m(1) pl b(2) arg_cong [OF split, of length] by (auto simp: cap_ok_def)
    moreover have "last_band (take p acc @ ?m) p \<and> (\<forall>r \<in> set (take p acc @ ?m). rbottom r \<le> ?b')"
    proof -
      have "length (take p acc) = p" using pl by simp
      then have "last_band (take p acc @ ?m) p" using last_band_append [OF mx _ px(2)] m(2) by simp
      then show ?thesis using mx px(2) tb by (fastforce simp: xband_def)
    qed
    ultimately show ?thesis using R by auto
  qed
qed

end
