(* ===== verification/Region_Sweep.thy ===== *)
theory Region_Sweep
  imports Region_Bands
begin

text \<open>
  The sweep of \<^const>\<open>region_op\<close> over two banded lists, proved once for any three band
  functions that implement a Boolean operation on membership, and instantiated for
  intersection, difference and union.
\<close>

section \<open>The sweep\<close>

text \<open>What has been built when the sweep has reached \<open>y\<close>, and what one stretch of it adds.\<close>

definition built :: "rbuild \<Rightarrow> nat \<Rightarrow> int \<Rightarrow> bool" where
  "built s p y \<longleftrightarrow> banded (rects (snd s)) \<and> (\<forall>r \<in> set (rects (snd s)). rbottom r \<le> y) \<and>
     last_band (rects (snd s)) p"

definition adds_rows :: "rbuild \<Rightarrow> rbuild \<Rightarrow> int \<Rightarrow> int \<Rightarrow> (int \<Rightarrow> int \<Rightarrow> bool) \<Rightarrow> bool" where
  "adds_rows s s' lo hi Q \<longleftrightarrow> (\<exists>new. rects (snd s') = rects (snd s) @ new \<and>
     (new \<noteq> [] \<longrightarrow> (\<exists>t b. xband t b new \<and> lo \<le> t \<and> b \<le> hi)) \<and>
     (\<forall>x y. in_rects new x y \<longleftrightarrow> lo \<le> y \<and> y < hi \<and> Q x y))"

definition same_frame :: "(nat \<Rightarrow> bool) \<Rightarrow> rbuild \<Rightarrow> bool \<times> rbuild \<Rightarrow> bool" where
  "same_frame ok s res \<longleftrightarrow> ((\<forall>n. ok n) \<longrightarrow> fst res) \<and>
     (cap_ok (snd s) \<longrightarrow> cap_ok (snd (snd res))) \<and> extents (snd (snd res)) = extents (snd s)"

lemma adds_band_frame: "adds_band ok s res t b S \<Longrightarrow> same_frame ok s res"
  by (simp add: adds_band_def same_frame_def)

lemma adds_band_rows:
  assumes "adds_band ok s (True, s') t b S" "lo \<le> t" "b \<le> hi"
    and "\<And>x y. lo \<le> y \<Longrightarrow> y < hi \<Longrightarrow> Q x y \<longleftrightarrow> t \<le> y \<and> y < b \<and> S x"
  shows "adds_rows s s' lo hi Q"
proof -
  obtain new where n: "rects (snd s') = rects (snd s) @ new" "xband t b new" "\<forall>x. in_x new x \<longleftrightarrow> S x"
    using assms(1) by (auto simp: adds_band_def)
  have "in_rects new x y \<longleftrightarrow> lo \<le> y \<and> y < hi \<and> Q x y" for x y
    using in_rects_xband [OF n(2)] n(3) assms(2-4) by fastforce
  then show ?thesis using n assms(2,3) unfolding adds_rows_def by blast
qed

lemma adds_rows_none:
  "(\<And>x y. lo \<le> y \<Longrightarrow> y < hi \<Longrightarrow> \<not> Q x y) \<Longrightarrow> adds_rows s s lo hi Q"
  by (auto simp: adds_rows_def)

lemma coalesce_if_grown_built:
  assumes s: "built s p lo" and a: "adds_rows s s1 lo hi Q" and "lo \<le> hi"
    and c: "coalesce_if_grown s1 p (num_rects (snd s)) = (p', s2)"
  shows "built s2 p' hi \<and>
    (\<forall>x y. in_rects (rects (snd s2)) x y \<longleftrightarrow>
       in_rects (rects (snd s)) x y \<or> lo \<le> y \<and> y < hi \<and> Q x y)"
proof -
  obtain new where n: "rects (snd s1) = rects (snd s) @ new"
    "new \<noteq> [] \<longrightarrow> (\<exists>t b. xband t b new \<and> lo \<le> t \<and> b \<le> hi)"
    "\<forall>x y. in_rects new x y \<longleftrightarrow> lo \<le> y \<and> y < hi \<and> Q x y"
    using a by (auto simp: adds_rows_def)
  show ?thesis
  proof (cases "new = []")
    case True
    then have e: "p' = p" "rects (snd s2) = rects (snd s)"
      using c n(1) by (auto simp: coalesce_if_grown_def split: prod.splits)
    then show ?thesis using s n(3) True \<open>lo \<le> hi\<close> by (fastforce simp: built_def)
  next
    case False
    then obtain t b where x: "xband t b new" "lo \<le> t" "b \<le> hi" using n(2) by blast
    obtain reg' where r: "coalesce_region (snd s1) p (num_rects (snd s)) = (p', reg')" "snd s2 = reg'"
      using c n(1) False by (auto simp: coalesce_if_grown_def split: prod.splits)
    have bnd: "\<forall>r \<in> set (rects (snd s)). rbottom r \<le> t" using s x(2) by (fastforce simp: built_def)
    then have "banded (rects (snd s) @ new)"
      using s x(1) by (intro banded_append_xband) (auto simp: built_def)
    note sp = coalesce_region_spec [OF this n(1) _ False r(1)]
    have h: "rtop (hd new) = t" "rbottom (hd new) = b" "after_band new = []"
      using x(1) False hd_in_set [OF False] by (auto simp: xband_def after_band_def dropWhile_eq_Nil_conv)
    show ?thesis using sp s bnd h x(3) n(1,3) r(2) unfolding built_def by fastforce
  qed
qed

lemma coalesce_region_frame:
  "coalesce_region reg p c = (p', reg') \<Longrightarrow>
   extents reg' = extents reg \<and> rgn_size reg' = rgn_size reg \<and> num_rects reg' \<le> num_rects reg"
  using length_takeWhile_le [of "\<lambda>r. rtop r = rtop (rects reg ! c)" "drop c (rects reg)"]
  by (cases "p < c") (auto simp: coalesce_region_def Let_def min_def split: if_splits)

lemma coalesce_if_grown_frame:
  "coalesce_if_grown s1 p n = (p', s2) \<Longrightarrow>
   extents (snd s2) = extents (snd s1) \<and> (cap_ok (snd s1) \<longrightarrow> cap_ok (snd s2))"
  by (auto simp: coalesce_if_grown_def cap_ok_def split: prod.splits if_splits
      dest!: coalesce_region_frame)

lemma in_rects_top:
  assumes "banded r" "r \<noteq> []" "y < rbottom (hd r)"
  shows "in_rects r x y \<longleftrightarrow> rtop (hd r) \<le> y \<and> in_x (top_band r) x"
proof -
  have "\<not> in_rects (after_band r) x y"
    using after_band_below [OF assms(1)] assms(3) by (fastforce simp: in_rects_def point_in_rect_def)
  then have "in_rects r x y \<longleftrightarrow> in_rects (top_band r) x y"
    using in_rects_simps(3) [of "top_band r" "after_band r"] by (simp add: top_band_append)
  then show ?thesis using in_rects_xband [OF top_band_xband(1) [OF assms(1,2)]] assms(3) by simp
qed

lemma in_rects_after:
  assumes "banded r" "r \<noteq> []" "rbottom (hd r) \<le> y"
  shows "in_rects r x y \<longleftrightarrow> in_rects (after_band r) x y"
proof -
  have "\<not> in_rects (top_band r) x y"
    using in_rects_xband [OF top_band_xband(1) [OF assms(1,2)]] assms(3) by simp
  then show ?thesis
    using in_rects_simps(3) [of "top_band r" "after_band r"] by (simp add: top_band_append)
qed


text \<open>
  The interface of \<open>region_op\<close>: \<open>P\<close> is the Boolean operation on membership that the three
  function pointers implement on the columns of bands.
\<close>

locale band_operation =
  fixes overlap :: overlap_func
    and non_overlap1 :: "non_overlap_func option"
    and non_overlap2 :: "non_overlap_func option"
    and P :: "bool \<Rightarrow> bool \<Rightarrow> bool"
  assumes outside: "\<not> P False False"
    and overlap_band: "xband t1 b1 bs1 \<Longrightarrow> xband t2 b2 bs2 \<Longrightarrow> bs1 \<noteq> [] \<Longrightarrow> bs2 \<noteq> [] \<Longrightarrow> t < b \<Longrightarrow>
      \<forall>r \<in> set (rects (snd s)). rbottom r \<le> t \<Longrightarrow>
      adds_band ok s (overlap ok s bs1 bs2 t b) t b (\<lambda>x. P (in_x bs1 x) (in_x bs2 x))"
    and non_overlap1_band: "xband t1 b1 bs \<Longrightarrow> t < b \<Longrightarrow>
      adds_band ok s (call_non_overlap non_overlap1 ok s bs t b) t b (\<lambda>x. P (in_x bs x) False)"
    and non_overlap2_band: "xband t1 b1 bs \<Longrightarrow> t < b \<Longrightarrow>
      adds_band ok s (call_non_overlap non_overlap2 ok s bs t b) t b (\<lambda>x. P False (in_x bs x))"
begin

text \<open>The sources during the sweep: what is left of each reaches below the sweep line.\<close>

definition pending :: "int \<Rightarrow> rectangle list \<Rightarrow> rectangle list \<Rightarrow> bool" where
  "pending y r1 r2 \<longleftrightarrow> banded r1 \<and> banded r2 \<and> (r1 \<noteq> [] \<longrightarrow> y < rbottom (hd r1)) \<and>
     (r2 \<noteq> [] \<longrightarrow> y < rbottom (hd r2)) \<and>
     (r1 \<noteq> [] \<and> r2 \<noteq> [] \<longrightarrow> y \<le> max (rtop (hd r1)) (rtop (hd r2)))"

lemma guard: "P (A \<and> B) False \<longleftrightarrow> A \<and> P B False" "P False (A \<and> B) \<longleftrightarrow> A \<and> P False B"
  using outside by (cases A; simp)+

lemma above_rows:
  assumes "pending y r1 r2" "r1 \<noteq> []" "r2 \<noteq> []"
    and e: "region_op_above non_overlap1 non_overlap2 ok s y r1 r2 = (res, s1)"
  shows "same_frame ok s (res, s1) \<and> (res \<longrightarrow> adds_rows s s1 y
    (min (max (rtop (hd r1)) (rtop (hd r2))) (min (rbottom (hd r1)) (rbottom (hd r2))))
    (\<lambda>x y. P (in_rects r1 x y) (in_rects r2 x y)))"
    (is "_ \<and> (_ \<longrightarrow> adds_rows s s1 y ?hi ?Q)")
proof -
  let ?a = "hd r1" and ?c = "hd r2"
  have p: "banded r1" "banded r2" "y < rbottom ?a" "y < rbottom ?c" "y \<le> max (rtop ?a) (rtop ?c)"
    using assms(1-3) by (auto simp: pending_def)
  note x1 = top_band_xband [OF p(1) assms(2)] and x2 = top_band_xband [OF p(2) assms(3)]
  have ne: "rtop ?a < rbottom ?a" "rtop ?c < rbottom ?c" using x1(1) x2(1) by (simp_all add: xband_def)
  have rows: "in_rects r1 x z \<longleftrightarrow> rtop ?a \<le> z \<and> in_x (top_band r1) x"
    "in_rects r2 x z \<longleftrightarrow> rtop ?c \<le> z \<and> in_x (top_band r2) x" if "z < ?hi" for x z
    using in_rects_top [OF p(1) assms(2)] in_rects_top [OF p(2) assms(3)] that by auto
  consider (one) "rtop ?a < rtop ?c" | (two) "rtop ?c < rtop ?a" | (same) "rtop ?a = rtop ?c"
    by linarith
  then show ?thesis
  proof cases
    case one
    let ?t = "max (rtop ?a) y" and ?b = "min (rbottom ?a) (rtop ?c)"
    have hi: "?hi = ?b" using one ne by auto
    show ?thesis
    proof (cases "?t = ?b")
      case True
      then have "res" "s1 = s" using e one by (auto simp: region_op_above_def Let_def)
      moreover have "adds_rows s s y ?hi ?Q"
        using True one p(3,5) ne(1) rows outside unfolding hi by (intro adds_rows_none) auto
      ultimately show ?thesis by (simp add: same_frame_def)
    next
      case False
      then have c: "call_non_overlap non_overlap1 ok s (top_band r1) ?t ?b = (res, s1)" "?t < ?b"
        using e one p(3,5) ne(1) by (auto simp: region_op_above_def Let_def)
      note ab = non_overlap1_band [OF x1(1) c(2), of ok s, unfolded c(1)]
      have "adds_rows s s1 y ?hi ?Q" if res
        by (rule adds_band_rows [where t = ?t and b = ?b, OF ab [unfolded eqTrueI [OF that]]])
          (use rows one hi in \<open>auto simp: guard\<close>)
      then show ?thesis using adds_band_frame [OF ab] by simp
    qed
  next
    case two
    let ?t = "max (rtop ?c) y" and ?b = "min (rbottom ?c) (rtop ?a)"
    have hi: "?hi = ?b" using two ne by auto
    show ?thesis
    proof (cases "?t = ?b")
      case True
      then have "res" "s1 = s" using e two by (auto simp: region_op_above_def Let_def)
      moreover have "adds_rows s s y ?hi ?Q"
        using True two p(4,5) ne(2) rows outside unfolding hi by (intro adds_rows_none) auto
      ultimately show ?thesis by (simp add: same_frame_def)
    next
      case False
      then have c: "call_non_overlap non_overlap2 ok s (top_band r2) ?t ?b = (res, s1)" "?t < ?b"
        using e two p(4,5) ne(2) by (auto simp: region_op_above_def Let_def)
      note ab = non_overlap2_band [OF x2(1) c(2), of ok s, unfolded c(1)]
      have "adds_rows s s1 y ?hi ?Q" if res
        by (rule adds_band_rows [where t = ?t and b = ?b, OF ab [unfolded eqTrueI [OF that]]])
          (use rows two hi in \<open>auto simp: guard\<close>)
      then show ?thesis using adds_band_frame [OF ab] by simp
    qed
  next
    case same
    then have "res" "s1 = s" using e by (auto simp: region_op_above_def Let_def)
    moreover have "adds_rows s s y ?hi ?Q"
      using same rows outside by (intro adds_rows_none) auto
    ultimately show ?thesis by (simp add: same_frame_def)
  qed
qed

lemma step_built:
  assumes b: "built s p y" and pd: "pending y r1 r2" and ne: "r1 \<noteq> []" "r2 \<noteq> []"
    and e: "region_op_step overlap non_overlap1 non_overlap2 ok s p y r1 r2 = (res, s', p')"
  shows "same_frame ok s (res, s') \<and> (res \<longrightarrow> built s' p' (min (rbottom (hd r1)) (rbottom (hd r2))) \<and>
    (\<forall>x z. in_rects (rects (snd s')) x z \<longleftrightarrow> in_rects (rects (snd s)) x z \<or>
       y \<le> z \<and> z < min (rbottom (hd r1)) (rbottom (hd r2)) \<and> P (in_rects r1 x z) (in_rects r2 x z)))"
proof -
  let ?ytop = "max (rtop (hd r1)) (rtop (hd r2))" and ?bot = "min (rbottom (hd r1)) (rbottom (hd r2))"
  let ?Q = "\<lambda>x y. P (in_rects r1 x y) (in_rects r2 x y)"
  have p: "banded r1" "banded r2" "y < ?bot" "y \<le> ?ytop" using pd ne by (auto simp: pending_def)
  have yt: "(if rtop (hd r1) < rtop (hd r2) then rtop (hd r2) else rtop (hd r1)) = ?ytop" by auto
  obtain res1 s1 where a: "region_op_above non_overlap1 non_overlap2 ok s y r1 r2 = (res1, s1)"
    by (metis surj_pair)
  note ab = above_rows [OF pd ne a]
  show ?thesis
  proof (cases res1)
    case False
    then show ?thesis using e ab by (auto simp: region_op_step_def a)
  next
    case True
    obtain p1 s2 where c: "coalesce_if_grown s1 p (num_rects (snd s)) = (p1, s2)" by (metis surj_pair)
    have b2: "built s2 p1 (min ?ytop ?bot)" "\<forall>x z. in_rects (rects (snd s2)) x z \<longleftrightarrow>
        in_rects (rects (snd s)) x z \<or> y \<le> z \<and> z < min ?ytop ?bot \<and> ?Q x z"
      using coalesce_if_grown_built [OF b _ _ c] ab True p(3,4) by auto
    obtain res3 s3 where o: "(if ?bot > ?ytop then overlap ok s2 (top_band r1) (top_band r2) ?ytop ?bot
        else (True, s2)) = (res3, s3)" by (metis surj_pair)
    have E: "region_op_step overlap non_overlap1 non_overlap2 ok s p y r1 r2 =
        (if \<not> res3 then (False, s3, p1)
         else (case coalesce_if_grown s3 p1 (num_rects (snd s2)) of (p2, s4) \<Rightarrow> (True, s4, p2)))"
      unfolding region_op_step_def a prod.case Let_def yt using True
      by (simp only: c o prod.case not_True_eq_False if_False)
    note x1 = top_band_xband [OF p(1) ne(1)] and x2 = top_band_xband [OF p(2) ne(2)]
    have ob: "adds_band ok s2 (res3, s3) ?ytop ?bot (\<lambda>x. P (in_x (top_band r1) x) (in_x (top_band r2) x))"
      if "?ytop < ?bot"
      using overlap_band [OF x1(1) x2(1) x1(2) x2(2) that, of s2 ok] b2(1) o that
      by (simp add: built_def min_absorb1)
    have f3: "same_frame ok s2 (res3, s3)"
    proof (cases "?ytop < ?bot")
      case False
      then have "res3" "s3 = s2" using o by auto
      then show ?thesis by (simp add: same_frame_def)
    qed (rule adds_band_frame [OF ob])
    have f2: "same_frame ok s (True, s2)"
      using ab True coalesce_if_grown_frame [OF c] by (auto simp: same_frame_def)
    show ?thesis
    proof (cases res3)
      case False
      then show ?thesis using e f2 f3 by (auto simp: E same_frame_def)
    next
      case r3: True
      have rows: "adds_rows s2 s3 (min ?ytop ?bot) ?bot ?Q"
      proof (cases "?bot > ?ytop")
        case True
        have "adds_band ok s2 (True, s3) ?ytop ?bot (\<lambda>x. P (in_x (top_band r1) x) (in_x (top_band r2) x))"
          using ob [OF True] r3 by simp
        then show ?thesis
          by (rule adds_band_rows)
            (use True in_rects_top [OF p(1) ne(1)] in_rects_top [OF p(2) ne(2)] in auto)
      next
        case False
        then have "min ?ytop ?bot = ?bot" "s3 = s2" using o by auto
        then show ?thesis by (simp only:) (rule adds_rows_none, simp)
      qed
      obtain p2 s4 where c2: "coalesce_if_grown s3 p1 (num_rects (snd s2)) = (p2, s4)" by (metis surj_pair)
      have b4: "built s4 p2 ?bot" "\<forall>x z. in_rects (rects (snd s4)) x z \<longleftrightarrow>
          in_rects (rects (snd s2)) x z \<or> min ?ytop ?bot \<le> z \<and> z < ?bot \<and> ?Q x z"
        using coalesce_if_grown_built [OF b2(1) rows min.cobounded2 c2] by blast+
      have r: "res" "s' = s4" "p' = p2" using e
by (auto simp: E r3 c2)
      have "in_rects (rects (snd s4)) x z \<longleftrightarrow> in_rects (rects (snd s)) x z \<or> y \<le> z \<and> z < ?bot \<and> ?Q x z" for x z
        using b4(2) b2(2) p(3,4) by auto
      moreover have "same_frame ok s (True, s4)"
        using f2 f3 coalesce_if_grown_frame [OF c2] by (auto simp: same_frame_def)
      ultimately show ?thesis using b4(1) r by simp
    qed
  qed
qed

end

lemma banded_hd: "banded r \<Longrightarrow> r \<noteq> [] \<Longrightarrow> rtop (hd r) < rbottom (hd r)"
  using top_band_xband(1) by (auto simp: xband_def)

lemma in_rects_corner:
  "banded rs \<Longrightarrow> n \<in> set rs \<Longrightarrow> in_rects rs (rleft n) (rtop n) \<and> in_rects rs (rright n - 1) (rtop n) \<and>
   in_rects rs (rleft n) (rbottom n - 1)"
  unfolding in_rects_def
  by (intro conjI bexI [of _ n]) (auto simp: point_in_rect_def banded_def is_rect_empty_def)

lemma xband_top: "xband t b rs \<Longrightarrow> r \<in> set rs \<Longrightarrow> rtop r = t"
  by (simp add: xband_def)

lemma xband_before:
  "xband t b xs \<Longrightarrow> x \<in> set xs \<Longrightarrow> banded ys \<Longrightarrow> y \<in> set ys \<Longrightarrow> b \<le> rtop y \<Longrightarrow> before x y"
  by (auto simp: before_def xband_def banded_def is_rect_empty_def)

lemma banded_join:
  assumes "banded xs" "banded ys" "\<forall>r \<in> set xs. rbottom r \<le> y" "\<forall>r \<in> set ys. y \<le> rtop r"
  shows "banded (xs @ ys)"
proof -
  have "before u v" if "u \<in> set xs" "v \<in> set ys" for u v
  proof -
    have "rbottom u \<le> rtop v" "\<not> is_rect_empty u" "\<not> is_rect_empty v"
      using that assms by (auto simp: banded_def intro: order_trans)
    then show ?thesis by (simp add: before_def)
  qed
  then show ?thesis using assms by (simp add: banded_append)
qed

lemma grown_points:
  assumes "rects (snd s2) = rects (snd s1) @ new" "banded (rects (snd s1) @ new)"
    and "last_band (rects (snd s1)) p" "coalesce_if_grown s2 p (num_rects (snd s1)) = (p', k', reg')"
  shows "banded (rects reg') \<and> (\<forall>x y. in_rects (rects reg') x y \<longleftrightarrow> in_rects (rects (snd s2)) x y)"
proof (cases "new = []")
  case True
  then show ?thesis using assms by (auto simp: coalesce_if_grown_def split: prod.splits)
next
  case False
  then have "coalesce_region (snd s2) p (num_rects (snd s1)) = (p', reg')"
    using assms(1,4) by (auto simp: coalesce_if_grown_def split: prod.splits)
  from coalesce_region_spec [OF assms(2,1,3) False this] show ?thesis using assms(1) by simp
qed

context band_operation
begin

lemma pending_advance:
  assumes pd: "pending y r1 r2" and ne: "r1 \<noteq> []" "r2 \<noteq> []"
    and y': "y' = min (rbottom (hd r1)) (rbottom (hd r2))"
    and r1': "r1' = (if rbottom (hd r1) = y' then after_band r1 else r1)"
    and r2': "r2' = (if rbottom (hd r2) = y' then after_band r2 else r2)"
  shows "pending y' r1' r2' \<and> y < y' \<and>
    (\<forall>x z. y' \<le> z \<longrightarrow> (in_rects r1' x z \<longleftrightarrow> in_rects r1 x z) \<and> (in_rects r2' x z \<longleftrightarrow> in_rects r2 x z))"
proof -
  have p: "banded r1" "banded r2" "y < y'" using pd ne y' by (auto simp: pending_def)
  have below: "after_band r \<noteq> [] \<Longrightarrow> rbottom (hd r) \<le> rtop (hd (after_band r)) \<and>
      rtop (hd (after_band r)) < rbottom (hd (after_band r))" if "banded r" for r
    using after_band_below [OF that] banded_hd [OF banded_after_band [OF that]]
      hd_in_set [of "after_band r"] by blast
  note B1 = below [OF p(1)] and B2 = below [OF p(2)]
    and ab = banded_after_band [OF p(1)] banded_after_band [OF p(2)]
  consider "rbottom (hd r1) < rbottom (hd r2)" | "rbottom (hd r2) < rbottom (hd r1)"
    | "rbottom (hd r1) = rbottom (hd r2)" by linarith
  then have "pending y' r1' r2'"
  proof cases
    case 1
    then have "y' = rbottom (hd r1)" "r1' = after_band r1" "r2' = r2" using y' r1' r2' by simp_all
    then show ?thesis using p(2) ab B1 1 unfolding pending_def by fastforce
  next
    case 2
    then have "y' = rbottom (hd r2)" "r1' = r1" "r2' = after_band r2" using y' r1' r2' by simp_all
    then show ?thesis using p(1) ab B2 2 unfolding pending_def by fastforce
  next
    case 3
    then have "y' = rbottom (hd r1)" "r1' = after_band r1" "r2' = after_band r2" using y' r1' r2' by simp_all
    then show ?thesis using 3 ab B1 B2 unfolding pending_def by fastforce
  qed
  moreover have "in_rects r1' x z \<longleftrightarrow> in_rects r1 x z" "in_rects r2' x z \<longleftrightarrow> in_rects r2 x z"
    if "y' \<le> z" for x z
    using in_rects_after [OF p(1) ne(1)] in_rects_after [OF p(2) ne(2)] that by (auto simp: r1' r2')
  ultimately show ?thesis using p(3) by blast
qed

lemma loop_built:
  assumes "built s p y" "pending y r1 r2"
    and "region_op_loop overlap non_overlap1 non_overlap2 ok s p y r1 r2 = (res, s', p', y', r1', r2')"
  shows "same_frame ok s (res, s') \<and> (res \<longrightarrow>
    built s' p' y' \<and> pending y' r1' r2' \<and> (r1' = [] \<or> r2' = []) \<and> y \<le> y' \<and>
    (\<forall>x z. in_rects (rects (snd s')) x z \<longleftrightarrow> in_rects (rects (snd s)) x z \<or>
       y \<le> z \<and> z < y' \<and> P (in_rects r1 x z) (in_rects r2 x z)) \<and>
    (\<forall>x z. y' \<le> z \<longrightarrow> (in_rects r1' x z \<longleftrightarrow> in_rects r1 x z) \<and> (in_rects r2' x z \<longleftrightarrow> in_rects r2 x z)))"
  using assms
proof (induction "length r1 + length r2" arbitrary: s p y r1 r2 rule: less_induct)
  case less
  note e = less.prems(3) [unfolded region_op_loop.simps [of _ _ _ _ s p y r1 r2]]
  show ?case
  proof (cases "r1 = [] \<or> r2 = []")
    case True
    then show ?thesis using e less.prems(1,2) by (auto simp: same_frame_def)
  next
    case False
    then have ne: "r1 \<noteq> []" "r2 \<noteq> []" by simp_all
    let ?y = "min (rbottom (hd r1)) (rbottom (hd r2))"
    let ?r1 = "if rbottom (hd r1) = ?y then after_band r1 else r1"
    let ?r2 = "if rbottom (hd r2) = ?y then after_band r2 else r2"
    obtain res1 s1 p1 where st:
      "region_op_step overlap non_overlap1 non_overlap2 ok s p y r1 r2 = (res1, s1, p1)"
      by (metis surj_pair)
    note sb = step_built [OF less.prems(1,2) ne st]
    show ?thesis
    proof (cases res1)
      case f: False
      then show ?thesis using e False sb by (auto simp: st Let_def)
    next
      case True
      note adv = pending_advance [OF less.prems(2) ne refl refl refl]
      have "length ?r1 + length ?r2 < length r1 + length r2"
        using length_after_band [OF ne(1)] length_after_band [OF ne(2)] by (auto simp: min_def)
      moreover have "built s1 p1 ?y" using sb True by blast
      moreover have "pending ?y ?r1 ?r2" using adv by blast
      moreover have "region_op_loop overlap non_overlap1 non_overlap2 ok s1 p1 ?y ?r1 ?r2 =
          (res, s', p', y', r1', r2')"
        using e False True by (simp only: st Let_def prod.case if_False not_True_eq_False)
      ultimately have IH: "same_frame ok s1 (res, s') \<and> (res \<longrightarrow>
          built s' p' y' \<and> pending y' r1' r2' \<and> (r1' = [] \<or> r2' = []) \<and> ?y \<le> y' \<and>
          (\<forall>x z. in_rects (rects (snd s')) x z \<longleftrightarrow> in_rects (rects (snd s1)) x z \<or>
             ?y \<le> z \<and> z < y' \<and> P (in_rects ?r1 x z) (in_rects ?r2 x z)) \<and>
          (\<forall>x z. y' \<le> z \<longrightarrow> (in_rects r1' x z \<longleftrightarrow> in_rects ?r1 x z) \<and> (in_rects r2' x z \<longleftrightarrow> in_rects ?r2 x z)))"
        by (rule less.hyps)
      have fr: "same_frame ok s (res, s')"
        using sb IH True by (auto simp: same_frame_def)
      have pts: "in_rects (rects (snd s')) x z \<longleftrightarrow> in_rects (rects (snd s)) x z \<or>
          y \<le> z \<and> z < y' \<and> P (in_rects r1 x z) (in_rects r2 x z)" if res for x z
      proof (cases "?y \<le> z")
        case True
        then have "in_rects ?r1 x z = in_rects r1 x z" "in_rects ?r2 x z = in_rects r2 x z"
          using adv by blast+
        then show ?thesis using IH sb \<open>res1\<close> that True adv by auto
      next
        case False
        then show ?thesis using IH sb \<open>res1\<close> that adv by auto
      qed
      have "(in_rects r1' x z \<longleftrightarrow> in_rects r1 x z) \<and> (in_rects r2' x z \<longleftrightarrow> in_rects r2 x z)"
        if res "y' \<le> z" for x z
      proof -
        have "?y \<le> z" using IH that by auto
        then show ?thesis using IH adv that by blast
      qed
      then show ?thesis using fr IH pts adv by auto
    qed
  qed
qed

lemma tail_rows:
  assumes f: "\<forall>t1 b1 bs t b s. xband t1 b1 bs \<longrightarrow> t < b \<longrightarrow> adds_band ok s (f ok s bs t b) t b (\<lambda>x. Q (in_x bs x))"
    and Q: "\<not> Q False"
    and "banded r" "r \<noteq> [] \<longrightarrow> y < rbottom (hd r)"
    and "region_op_tail f ok s y r = (res, s')"
  shows "same_frame ok s (res, s') \<and> (res \<longrightarrow> (\<exists>new. rects (snd s') = rects (snd s) @ new \<and> banded new \<and>
    (\<forall>n \<in> set new. max y (rtop (hd r)) \<le> rtop n) \<and>
    (\<forall>x z. in_rects new x z \<longleftrightarrow> y \<le> z \<and> Q (in_rects r x z))))"
  using assms(3-)
proof (induction "length r" arbitrary: s r rule: less_induct)
  case less
  note e = less.prems(3) [unfolded region_op_tail.simps [of f ok s y r]]
  show ?case
  proof (cases "r = []")
    case True
    then show ?thesis using e Q by (auto simp: same_frame_def banded_def)
  next
    case False
    let ?t = "max (rtop (hd r)) y" and ?b = "rbottom (hd r)" and ?r = "after_band r"
    note x = top_band_xband [OF less.prems(1) False]
    have tb: "?t < ?b" using less.prems(2) False banded_hd [OF less.prems(1)] by simp
    obtain res1 s1 where c: "f ok s (top_band r) ?t ?b = (res1, s1)" by (metis surj_pair)
    note ab = f [rule_format, OF x(1) tb, of s, unfolded c]
    show ?thesis
    proof (cases res1)
      case f: False
      then show ?thesis using e False adds_band_frame [OF ab] by (auto simp: c)
    next
      case True
      obtain n1 where n1: "rects (snd s1) = rects (snd s) @ n1" "xband ?t ?b n1"
        "\<forall>x. in_x n1 x \<longleftrightarrow> Q (in_x (top_band r) x)" using ab True by (auto simp: adds_band_def)
      have br: "banded ?r" by (rule banded_after_band [OF less.prems(1)])
      have hr: "?r \<noteq> [] \<longrightarrow> ?b \<le> rtop (hd ?r)"
        using after_band_below [OF less.prems(1)] by auto
      have "?r \<noteq> [] \<longrightarrow> y < rbottom (hd ?r)" using hr tb banded_hd [OF br] by auto
      moreover have "region_op_tail f ok s1 y ?r = (res, s')" using e False True by (simp add: c)
      ultimately have IH: "same_frame ok s1 (res, s') \<and> (res \<longrightarrow> (\<exists>new. rects (snd s') = rects (snd s1) @ new \<and>
          banded new \<and> (\<forall>n \<in> set new. max y (rtop (hd ?r)) \<le> rtop n) \<and>
          (\<forall>x z. in_rects new x z \<longleftrightarrow> y \<le> z \<and> Q (in_rects ?r x z))))"
        using less.hyps [OF length_after_band [OF False] br] by blast
      have "\<exists>new. rects (snd s') = rects (snd s) @ new \<and> banded new \<and>
          (\<forall>n \<in> set new. max y (rtop (hd r)) \<le> rtop n) \<and>
          (\<forall>x z. in_rects new x z \<longleftrightarrow> y \<le> z \<and> Q (in_rects r x z))" if r: res
      proof -
        obtain n2 where n2: "rects (snd s') = rects (snd s1) @ n2" "banded n2"
          "\<forall>n \<in> set n2. max y (rtop (hd ?r)) \<le> rtop n"
          "\<forall>x z. in_rects n2 x z \<longleftrightarrow> y \<le> z \<and> Q (in_rects ?r x z)" using IH r by blast
        have low: "?b \<le> rtop n" if "n \<in> set n2" for n
        proof -
          have "in_rects n2 (rleft n) (rtop n)"
            using in_rects_corner [OF n2(2) that] by blast
          then have "?r \<noteq> []" using n2(4) Q by auto
          then show ?thesis using hr n2(3) that by fastforce
        qed
        have "before u v" if "u \<in> set n1" "v \<in> set n2" for u v
          by (rule xband_before [OF n1(2) that(1) n2(2) that(2) low [OF that(2)]])
        then have "banded (n1 @ n2)" using n2(2) xband_banded [OF n1(2)] by (simp add: banded_append)
        moreover have "\<forall>n \<in> set (n1 @ n2). max y (rtop (hd r)) \<le> rtop n"
        proof
          fix n assume "n \<in> set (n1 @ n2)"
          then consider "rtop n = ?t" | "?b \<le> rtop n" using xband_top [OF n1(2)] low by auto
          then show "max y (rtop (hd r)) \<le> rtop n" using tb by cases linarith+
        qed
        moreover have "in_rects (n1 @ n2) x z \<longleftrightarrow> y \<le> z \<and> Q (in_rects r x z)" for x z
        proof (cases "z < ?b")
          case True
          have g: "Q (A \<and> B) \<longleftrightarrow> A \<and> Q B" for A B using Q by (cases A) auto
          have "\<not> in_rects ?r x z" using True after_band_below [OF less.prems(1)]
            by (fastforce simp: in_rects_def point_in_rect_def)
          then show ?thesis using in_rects_top [OF less.prems(1) False True] n1(3)
              in_rects_xband [OF n1(2)] n2(4) True Q by (auto simp: g)
        next
          case z: False
          then show ?thesis using in_rects_after [OF less.prems(1) False] in_rects_xband [OF n1(2)]
              n2(4) by auto
        qed
        ultimately show ?thesis using n1(1) n2(1) by (intro exI [of _ "n1 @ n2"]) auto
      qed
      moreover have "same_frame ok s (res, s')"
        using adds_band_frame [OF ab] IH True by (auto simp: same_frame_def)
      ultimately show ?thesis by blast
    qed
  qed
qed

lemma no_func: "non_overlap1 = None \<Longrightarrow> \<not> P A False" "non_overlap2 = None \<Longrightarrow> \<not> P False A"
proof -
  have x: "xband 0 1 [mk_rect 0 0 1 1]" by (simp add: xband_def)
  show "\<not> P A False" if "non_overlap1 = None"
    using non_overlap1_band [OF x, of 0 1 undefined undefined] that outside
    by (cases A) (auto simp: adds_band_def call_non_overlap_def dest: spec [of _ 0])
  show "\<not> P False A" if "non_overlap2 = None"
    using non_overlap2_band [OF x, of 0 1 undefined undefined] that outside
    by (cases A) (auto simp: adds_band_def call_non_overlap_def dest: spec [of _ 0])
qed

lemma rest_rows:
  assumes b: "built s p y" and pd: "pending y r1 r2" and ex: "r1 = [] \<or> r2 = []"
    and e: "region_op_rest non_overlap1 non_overlap2 ok s y r1 r2 = (res, s')"
  shows "same_frame ok s (res, s') \<and> (res \<longrightarrow> (\<exists>new. rects (snd s') = rects (snd s) @ new \<and>
    banded (rects (snd s) @ new) \<and>
    (\<forall>x z. in_rects new x z \<longleftrightarrow> y \<le> z \<and> P (in_rects r1 x z) (in_rects r2 x z))))"
proof -
  have join: "banded (rects (snd s) @ new)" if "banded new" "\<forall>n \<in> set new. max y m \<le> rtop n" for new m
    using b that by (intro banded_join [where y = y]) (auto simp: built_def)
  have unchanged: ?thesis if "res" "s' = s" "\<And>x z. \<not> P (in_rects r1 x z) (in_rects r2 x z)"
    using that b by (auto simp: same_frame_def built_def)
  consider (one) "r1 \<noteq> []" "r2 = []" | (two) "r1 = []" "r2 \<noteq> []" | (none) "r1 = []" "r2 = []"
    using ex by blast
  then show ?thesis
  proof cases
    case one
    show ?thesis
    proof (cases non_overlap1)
      case None
      then show ?thesis using e one no_func(1) by (intro unchanged) (auto simp: region_op_rest_def)
    next
      case (Some f)
      have t: "region_op_tail f ok s y r1 = (res, s')" using e one Some by (simp add: region_op_rest_def)
      have f: "\<forall>t1 b1 bs t b s. xband t1 b1 bs \<longrightarrow> t < b \<longrightarrow>
          adds_band ok s (f ok s bs t b) t b (\<lambda>x. P (in_x bs x) False)"
        using non_overlap1_band by (auto simp: call_non_overlap_def Some)
      have "banded r1" "r1 \<noteq> [] \<longrightarrow> y < rbottom (hd r1)" using pd by (simp_all add: pending_def)
      from tail_rows [where Q = "\<lambda>A. P A False", OF f outside this t] show ?thesis
        using one join by auto
    qed
  next
    case two
    show ?thesis
    proof (cases non_overlap2)
      case None
      then show ?thesis using e two no_func(2) by (intro unchanged) (auto simp: region_op_rest_def)
    next
      case (Some f)
      have t: "region_op_tail f ok s y r2 = (res, s')" using e two Some by (simp add: region_op_rest_def)
      have f: "\<forall>t1 b1 bs t b s. xband t1 b1 bs \<longrightarrow> t < b \<longrightarrow>
          adds_band ok s (f ok s bs t b) t b (\<lambda>x. P False (in_x bs x))"
        using non_overlap2_band by (auto simp: call_non_overlap_def Some)
      have "banded r2" "r2 \<noteq> [] \<longrightarrow> y < rbottom (hd r2)" using pd by (simp_all add: pending_def)
      from tail_rows [where Q = "P False", OF f outside this t] show ?thesis
        using two join by auto
    qed
  next
    case none
    then show ?thesis using e outside by (intro unchanged) (auto simp: region_op_rest_def)
  qed
qed

lemma region_op_points:
  assumes b: "banded (rects reg1)" "banded (rects reg2)" "rects reg1 \<noteq> []" "rects reg2 \<noteq> []"
    and ext: "rtop (extents reg1) \<le> rtop (hd (rects reg1))" "rtop (extents reg2) \<le> rtop (hd (rects reg2))"
    and e: "region_op overlap non_overlap1 non_overlap2 ok (k, reg) reg1 reg2 = (res, k', reg')"
  shows "((\<forall>n. ok n) \<longrightarrow> res) \<and> (cap_ok reg \<longrightarrow> cap_ok reg') \<and> (res \<longrightarrow> banded (rects reg') \<and>
    (\<forall>x y. in_rects (rects reg') x y \<longleftrightarrow> P (in_rects (rects reg1) x y) (in_rects (rects reg2) x y)))"
proof (cases "ok k")
  case False
  then show ?thesis using e by (auto simp: region_op_def)
next
  case ok: True
  let ?new = "reg\<lparr>rgn_size := max (num_rects reg1) (num_rects reg2) * 2, rects := []\<rparr>"
  let ?y = "min (rtop (extents reg1)) (rtop (extents reg2))"
  have yb: "(if rtop (extents reg1) < rtop (extents reg2) then rtop (extents reg1)
      else rtop (extents reg2)) = ?y" by auto
  have cap: "cap_ok ?new" using b(3,4) by (simp add: cap_ok_def max_def)
  obtain res1 s1 p1 y1 r1 r2 where l: "region_op_loop overlap non_overlap1 non_overlap2 ok
      (Suc k, ?new) 0 ?y (rects reg1) (rects reg2) = (res1, s1, p1, y1, r1, r2)" by (metis surj_pair)
  have "built (Suc k, ?new) 0 ?y" by (simp add: built_def banded_def last_band_def)
  moreover have "pending ?y (rects reg1) (rects reg2)"
    using b ext banded_hd [OF b(1,3)] banded_hd [OF b(2,4)] by (auto simp: pending_def)
  ultimately have L: "same_frame ok (Suc k, ?new) (res1, s1) \<and> (res1 \<longrightarrow>
    built s1 p1 y1 \<and> pending y1 r1 r2 \<and> (r1 = [] \<or> r2 = []) \<and> ?y \<le> y1 \<and>
    (\<forall>x z. in_rects (rects (snd s1)) x z \<longleftrightarrow> in_rects [] x z \<or>
       ?y \<le> z \<and> z < y1 \<and> P (in_rects (rects reg1) x z) (in_rects (rects reg2) x z)) \<and>
    (\<forall>x z. y1 \<le> z \<longrightarrow> (in_rects r1 x z \<longleftrightarrow> in_rects (rects reg1) x z) \<and>
       (in_rects r2 x z \<longleftrightarrow> in_rects (rects reg2) x z)))"
    using loop_built [OF _ _ l] by simp
  then have cap1: "cap_ok (snd s1)" using cap by (simp add: same_frame_def)
  show ?thesis
  proof (cases res1)
    case False
    then show ?thesis using e L ok cap1 by (auto simp: region_op_def yb l Let_def same_frame_def)
  next
    case r1: True
    obtain res2 s2 where r: "region_op_rest non_overlap1 non_overlap2 ok s1 y1 r1 r2 = (res2, s2)"
      by (metis surj_pair)
    have R: "same_frame ok s1 (res2, s2) \<and> (res2 \<longrightarrow> (\<exists>new. rects (snd s2) = rects (snd s1) @ new \<and>
        banded (rects (snd s1) @ new) \<and>
        (\<forall>x z. in_rects new x z \<longleftrightarrow> y1 \<le> z \<and> P (in_rects r1 x z) (in_rects r2 x z))))"
      using rest_rows [OF _ _ _ r] L r1 by blast
    then have cap2: "cap_ok (snd s2)" using cap1 by (simp add: same_frame_def)
    show ?thesis
    proof (cases res2)
      case False
      then show ?thesis using e R ok cap2 r1
        by (auto simp: region_op_def yb l r Let_def same_frame_def)
    next
      case r2: True
      obtain new where n: "rects (snd s2) = rects (snd s1) @ new" "banded (rects (snd s1) @ new)"
        "\<forall>x z. in_rects new x z \<longleftrightarrow> y1 \<le> z \<and> P (in_rects r1 x z) (in_rects r2 x z)"
        using R r2 by blast
      obtain p3 k3 reg3 where c: "coalesce_if_grown s2 p1 (num_rects (snd s1)) = (p3, k3, reg3)"
        by (metis surj_pair)
      have C: "banded (rects reg3) \<and> (\<forall>x y. in_rects (rects reg3) x y \<longleftrightarrow> in_rects (rects (snd s2)) x y)"
        using L r1 by (intro grown_points [OF n(1,2) _ c]) (simp add: built_def)
      have cap3: "cap_ok reg3" using coalesce_if_grown_frame [OF c] cap2 by simp
      have res: "res" and reg': "(k', reg') = shrink_region ok (k3, reg3)"
        using e ok r1 r2 by (auto simp: region_op_def yb l r c Let_def)
      have S: "rects reg' = rects reg3" "cap_ok reg'"
        using reg' cap3 by (auto simp: shrink_region_def Let_def cap_ok_def RGN_DEFAULT_RECTS_def split: if_splits)
      have "in_rects (rects reg') x z \<longleftrightarrow> P (in_rects (rects reg1) x z) (in_rects (rects reg2) x z)" for x z
      proof -
        have "in_rects (rects reg') x z \<longleftrightarrow> in_rects (rects (snd s1)) x z \<or> in_rects new x z"
          using C S n(1) by simp
        moreover have "\<not> P (in_rects (rects reg1) x z) (in_rects (rects reg2) x z)" if "\<not> ?y \<le> z"
        proof -
          have "z < rtop (hd (rects reg1))" "z < rtop (hd (rects reg2))" using that ext by linarith+
          then have "\<not> in_rects (rects reg1) x z" "\<not> in_rects (rects reg2) x z"
            using in_rects_top [OF b(1,3), of z x] in_rects_top [OF b(2,4), of z x]
              banded_hd [OF b(1,3)] banded_hd [OF b(2,4)] by auto
          then show ?thesis using outside by simp
        qed
        ultimately show ?thesis using L r1 n(3) by (cases "y1 \<le> z") auto
      qed
      then show ?thesis using C S res by simp
    qed
  qed
qed

end

section \<open>The three operations\<close>

interpretation isect: band_operation intersect_overlapping None None "(\<and>)"
  by unfold_locales
    (auto intro: intersect_overlapping_band adds_band_none simp: call_non_overlap_def)

interpretation diff: band_operation subtract_overlapping "Some subtract_non_overlapping" None
  "\<lambda>a b. a \<and> \<not> b"
  by unfold_locales
    (auto intro: subtract_overlapping_band subtract_non_overlapping_band adds_band_none
      simp: call_non_overlap_def)

interpretation unite: band_operation union_overlapping "Some union_non_overlapping"
  "Some union_non_overlapping" "(\<or>)"
  by unfold_locales
    (auto intro: union_overlapping_band subtract_non_overlapping_band
      simp: call_non_overlap_def union_non_overlapping_eq)

end
