(* ===== verification/Region_Ops.thy ===== *)
theory Region_Ops
  imports Region_Sweep
begin

text \<open>
  Correctness of the region operations on pointers: the invariant of a region (banded
  rectangles, exact extents, capacity), the point sets computed by union, intersection,
  difference and exclusive or, membership tests, the exchange of region data with clients,
  and the operations that move or scale a region.
\<close>

section \<open>Extents\<close>

text \<open>The extents are the smallest rectangle around the points.\<close>

definition exact_extents :: "rectangle \<Rightarrow> rectangle list \<Rightarrow> bool" where
  "exact_extents e rs \<longleftrightarrow> (if rs = [] then e = empty_rect else
     (\<forall>x y. in_rects rs x y \<longrightarrow> point_in_rect e x y) \<and>
     (\<exists>y. in_rects rs (rleft e) y) \<and> (\<exists>y. in_rects rs (rright e - 1) y) \<and>
     (\<exists>x. in_rects rs x (rtop e)) \<and> (\<exists>x. in_rects rs x (rbottom e - 1)))"

definition rgn_wf :: "region \<Rightarrow> bool" where
  "rgn_wf reg \<longleftrightarrow> banded (rects reg) \<and> exact_extents (extents reg) (rects reg) \<and> cap_ok reg"

lemma in_rects_of: "r \<in> set rs \<Longrightarrow> point_in_rect r x y \<Longrightarrow> in_rects rs x y"
  by (auto simp: in_rects_def)

lemma banded_hd_top: "banded rs \<Longrightarrow> r \<in> set rs \<Longrightarrow> rtop (hd rs) \<le> rtop r"
  by (cases rs) (auto simp: banded_def before_def is_rect_empty_def)

lemma banded_last_bottom: "banded rs \<Longrightarrow> r \<in> set rs \<Longrightarrow> rbottom r \<le> rbottom (last rs)"
  by (cases rs rule: rev_cases) (auto simp: banded_def before_def is_rect_empty_def sorted_wrt_append)

lemma banded_nonempty:
  "banded rs \<Longrightarrow> r \<in> set rs \<Longrightarrow> rleft r < rright r \<and> rtop r < rbottom r"
  by (auto simp: banded_def is_rect_empty_def)

definition grow_extents :: "rectangle \<Rightarrow> rectangle \<Rightarrow> rectangle" where
  "grow_extents r e = (let e' = (if rleft r < rleft e then e\<lparr>rleft := rleft r\<rparr> else e)
                       in if rright r > rright e' then e'\<lparr>rright := rright r\<rparr> else e')"

lemma fold_grow_extents:
  "let f = fold grow_extents rs e in
     rtop f = rtop e \<and> rbottom f = rbottom e \<and>
     rleft f \<le> rleft e \<and> (\<forall>r \<in> set rs. rleft f \<le> rleft r) \<and> rleft f \<in> insert (rleft e) (rleft ` set rs) \<and>
     rright e \<le> rright f \<and> (\<forall>r \<in> set rs. rright r \<le> rright f) \<and> rright f \<in> insert (rright e) (rright ` set rs)"
proof (induction rs arbitrary: e)
  case (Cons r rs)
  show ?case using Cons [of "grow_extents r e"] by (auto simp: grow_extents_def Let_def split: if_splits)
qed simp

lemma set_region_extents_exact:
  assumes "banded (rects reg)"
  shows "exact_extents (extents (set_region_extents reg)) (rects reg)"
proof (cases "rects reg = []")
  case True
  then show ?thesis by (simp add: exact_extents_def set_region_extents_def empty_rect_def)
next
  case False
  let ?rs = "rects reg"
  define e where "e = mk_rect (rleft (hd ?rs)) (rtop (hd ?rs)) (rright (last ?rs)) (rbottom (last ?rs))"
  define f where "f = fold grow_extents ?rs e"
  have ex: "extents (set_region_extents reg) = f"
    using False by (simp add: set_region_extents_def e_def f_def grow_extents_def [abs_def] Let_def)
  have hl: "hd ?rs \<in> set ?rs" "last ?rs \<in> set ?rs" using False by simp_all
  have F: "rtop f = rtop (hd ?rs)" "rbottom f = rbottom (last ?rs)" "\<forall>r \<in> set ?rs. rleft f \<le> rleft r"
    "\<forall>r \<in> set ?rs. rright r \<le> rright f" "rleft f \<in> rleft ` set ?rs" "rright f \<in> rright ` set ?rs"
    using fold_grow_extents [of ?rs e] hl unfolding f_def e_def by (auto simp: Let_def)
  have "point_in_rect f x y" if "in_rects ?rs x y" for x y
    using that F(1-4) banded_hd_top [OF assms] banded_last_bottom [OF assms]
    by (fastforce simp: in_rects_def point_in_rect_def)
  moreover have "\<exists>y. in_rects ?rs (rleft f) y" "\<exists>y. in_rects ?rs (rright f - 1) y"
    using F(5,6) in_rects_corner [OF assms] by (metis imageE)+
  moreover have "\<exists>x. in_rects ?rs x (rtop f)" "\<exists>x. in_rects ?rs x (rbottom f - 1)"
    using F(1,2) hl in_rects_corner [OF assms] by metis+
  ultimately show ?thesis using False unfolding ex exact_extents_def by simp
qed

section \<open>The operations on region pointers\<close>

lemma point_in_region_rects: "banded (rects reg) \<Longrightarrow> point_in_region reg x y \<longleftrightarrow> in_rects (rects reg) x y"
proof -
  have "point_in_rects rs x y \<longleftrightarrow> in_rects rs x y" if "banded rs" for rs
    using that
  proof (induction rs)
    case (Cons r rs)
    have b: "banded rs" "\<forall>s \<in> set rs. before r s" "\<not> is_rect_empty r"
      using Cons.prems by (auto simp: banded_def)
    have "\<not> in_rects rs x y" if "y < rtop r \<or> rtop r \<le> y \<and> y < rbottom r \<and> x < rleft r"
      using b(2) that by (fastforce simp: in_rects_def before_def point_in_rect_def is_rect_empty_def)
    then show ?case using Cons.IH [OF b(1)] by (auto simp: point_in_rect_def)
  qed simp
  then show "banded (rects reg) \<Longrightarrow> ?thesis" by (simp add: point_in_region_def)
qed

text \<open>
  What an operation with destination \<open>dst\<close> achieves: it succeeds when memory does not run out;
  on success the destination is well formed and holds exactly the points \<open>S\<close>; in every case all
  other regions are untouched and the destination keeps a valid array.
\<close>

definition region_result ::
  "(nat \<Rightarrow> bool) \<Rightarrow> rgn_store \<Rightarrow> nat result \<times> rgn_store \<Rightarrow> nat \<Rightarrow> (int \<Rightarrow> int \<Rightarrow> bool) \<Rightarrow> bool" where
  "region_result ok st res dst S \<longleftrightarrow>
     ((\<forall>n. ok n) \<longrightarrow> fst res = Inr dst) \<and>
     (fst res = Inr dst \<or> fst res = Inl STATUS_NO_MEMORY) \<and>
     (\<exists>d'. rgns (snd res) dst = Some d' \<and> cap_ok d' \<and>
        (fst res = Inr dst \<longrightarrow> rgn_wf d' \<and> (\<forall>x y. point_in_region d' x y \<longleftrightarrow> S x y))) \<and>
     (\<forall>p. p \<noteq> dst \<longrightarrow> rgns (snd res) p = rgns st p) \<and> next_rgn (snd res) = next_rgn st"

lemma region_result_cong:
  "region_result ok st res dst S \<Longrightarrow> (\<And>x y. S x y = S' x y) \<Longrightarrow> region_result ok st res dst S'"
  by (simp add: region_result_def)

lemma rgn_wf_points: "rgn_wf reg \<Longrightarrow> point_in_region reg x y \<longleftrightarrow> in_rects (rects reg) x y"
  by (simp add: rgn_wf_def point_in_region_rects)

lemma copy_region_result:
  assumes "rgns st dst = Some d" "rgns st src = Some s" "cap_ok d" "rgn_wf s"
  shows "region_result ok st (copy_region ok st dst src) dst (point_in_region s)"
proof (cases "dst = src")
  case True
  then show ?thesis using assms by (auto simp: region_result_def copy_region_def rgn_wf_def)
next
  case False
  have p: "point_in_region \<lparr>rgn_size = c, rects = rects s, extents = extents s\<rparr> x y \<longleftrightarrow> point_in_region s x y"
    for c x y by (simp add: point_in_region_def)
  show ?thesis using False assms
    by (auto simp: region_result_def copy_region_def mem_alloc_def Let_def p cap_ok_def rgn_wf_def)
qed

lemma exact_top:
  "banded rs \<Longrightarrow> exact_extents e rs \<Longrightarrow> rs \<noteq> [] \<Longrightarrow> rtop e \<le> rtop (hd rs)"
  using in_rects_corner [of rs "hd rs"] by (auto simp: exact_extents_def point_in_rect_def)

lemma region_op_at_set_extents:
  assumes dst: "rgns st dst = Some d" "cap_ok d"
    and op: "\<And>res k reg. region_op f g h ok (allocs st, d) s1 s2 = (res, k, reg) \<Longrightarrow>
      ((\<forall>n. ok n) \<longrightarrow> res) \<and> (cap_ok d \<longrightarrow> cap_ok reg) \<and>
      (res \<longrightarrow> banded (rects reg) \<and> (\<forall>x y. in_rects (rects reg) x y \<longleftrightarrow> S x y))"
    and src: "rgns st src1 = Some s1" "rgns st src2 = Some s2"
    and ext: "\<And>reg. banded (rects reg) \<Longrightarrow> cap_ok reg \<Longrightarrow> \<forall>x y. in_rects (rects reg) x y \<longleftrightarrow> S x y \<Longrightarrow>
      rects (E reg) = rects reg \<and> rgn_wf (E reg)"
  shows "region_result ok st
    (case region_op_at f g h ok st dst src1 src2 of (res, st1) \<Rightarrow>
       if \<not> res then (Inl STATUS_NO_MEMORY, st1)
       else (Inr dst, put_rgn st1 dst (E (rgn st1 dst)))) dst S"
proof -
  obtain res k reg where r: "region_op f g h ok (allocs st, d) s1 s2 = (res, k, reg)"
    by (metis surj_pair)
  note o = op [OF r]
  have at: "region_op_at f g h ok st dst src1 src2 = (res, put_rgn (st\<lparr>allocs := k\<rparr>) dst reg)"
    using r dst src by (simp add: region_op_at_def)
  show ?thesis
  proof (cases res)
    case True
    then have "rects (E reg) = rects reg" "rgn_wf (E reg)" using o ext dst(2) by blast+
    moreover from this have "point_in_region (E reg) x y \<longleftrightarrow> S x y" for x y
      using o True rgn_wf_points by simp
    ultimately show ?thesis using True by (simp add: at region_result_def rgn_wf_def)
  next
    case False
    then show ?thesis using o dst by (auto simp: at region_result_def)
  qed
qed

lemma set_region_extents_wf:
  assumes "banded (rects reg)" "cap_ok reg"
  shows "rects (set_region_extents reg) = rects reg \<and> rgn_wf (set_region_extents reg)"
proof -
  have "rects (set_region_extents reg) = rects reg" "rgn_size (set_region_extents reg) = rgn_size reg"
    by (simp_all add: set_region_extents_def Let_def)
  then show ?thesis using set_region_extents_exact [OF assms(1)] assms by (simp add: rgn_wf_def cap_ok_def)
qed

lemma extents_disjoint:
  assumes "rgn_wf s1" "rgn_wf s2" "\<not> EXTENTCHECK (extents s1) (extents s2)"
  shows "\<not> (point_in_region s1 x y \<and> point_in_region s2 x y)"
proof
  assume "point_in_region s1 x y \<and> point_in_region s2 x y"
  then have i: "in_rects (rects s1) x y" "in_rects (rects s2) x y" using assms rgn_wf_points by blast+
  then have "rects s1 \<noteq> []" "rects s2 \<noteq> []" by auto
  then have "point_in_rect (extents s1) x y" "point_in_rect (extents s2) x y"
    using i assms(1,2) by (auto simp: rgn_wf_def exact_extents_def)
  then show False using assms(3) by (auto simp: EXTENTCHECK_def point_in_rect_def)
qed

lemma empty_region_points: "num_rects s = 0 \<Longrightarrow> \<not> point_in_region s x y"
  by (simp add: point_in_region_def)

lemma intersect_region_result:
  assumes "rgns st dst = Some d" "rgns st src1 = Some s1" "rgns st src2 = Some s2"
    "cap_ok d" "rgn_wf s1" "rgn_wf s2"
  shows "region_result ok st (intersect_region ok st dst src1 src2) dst
    (\<lambda>x y. point_in_region s1 x y \<and> point_in_region s2 x y)"
proof (cases "num_rects s1 = 0 \<or> num_rects s2 = 0 \<or> \<not> EXTENTCHECK (extents s1) (extents s2)")
  case True
  then have "\<not> (point_in_region s1 x y \<and> point_in_region s2 x y)" for x y
    using extents_disjoint [OF assms(5,6)] empty_region_points by blast
  moreover have "rgn_wf (d\<lparr>rects := [], extents := mk_rect 0 0 0 0\<rparr>)"
    using assms(4) by (simp add: rgn_wf_def banded_def exact_extents_def empty_rect_def cap_ok_def)
  ultimately show ?thesis using True assms(1-4)
    by (auto simp: region_result_def intersect_region_def Let_def empty_region_points cap_ok_def)
next
  case False
  have b: "banded (rects s1)" "banded (rects s2)" "rects s1 \<noteq> []" "rects s2 \<noteq> []"
    using assms(5,6) False by (auto simp: rgn_wf_def)
  have t: "rtop (extents s1) \<le> rtop (hd (rects s1))" "rtop (extents s2) \<le> rtop (hd (rects s2))"
    using assms(5,6) b by (auto simp: rgn_wf_def intro: exact_top)
  show ?thesis
    using region_op_at_set_extents [OF assms(1,4) isect.region_op_points [OF b t] assms(2,3) set_region_extents_wf] False assms
    by (simp add: intersect_region_def Let_def rgn_wf_points)
qed

lemma subtract_region_result:
  assumes "rgns st dst = Some d" "rgns st src1 = Some s1" "rgns st src2 = Some s2"
    "cap_ok d" "rgn_wf s1" "rgn_wf s2"
  shows "region_result ok st (subtract_region ok st dst src1 src2) dst
    (\<lambda>x y. point_in_region s1 x y \<and> \<not> point_in_region s2 x y)"
proof (cases "num_rects s1 = 0 \<or> num_rects s2 = 0 \<or> \<not> EXTENTCHECK (extents s1) (extents s2)")
  case True
  have "point_in_region s1 x y \<longleftrightarrow> point_in_region s1 x y \<and> \<not> point_in_region s2 x y" for x y
    using True extents_disjoint [OF assms(5,6)] empty_region_points by blast
  from region_result_cong [OF copy_region_result [OF assms(1,2,4,5)] this] show ?thesis
    using True assms by (simp add: subtract_region_def Let_def)
next
  case False
  have b: "banded (rects s1)" "banded (rects s2)" "rects s1 \<noteq> []" "rects s2 \<noteq> []"
    using assms(5,6) False by (auto simp: rgn_wf_def)
  have t: "rtop (extents s1) \<le> rtop (hd (rects s1))" "rtop (extents s2) \<le> rtop (hd (rects s2))"
    using assms(5,6) b by (auto simp: rgn_wf_def intro: exact_top)
  show ?thesis
    using region_op_at_set_extents [OF assms(1,4) diff.region_op_points [OF b t] assms(2,3) set_region_extents_wf] False assms
    by (simp add: subtract_region_def Let_def rgn_wf_points)
qed


lemma exact_single:
  assumes r: "\<not> is_rect_empty r" and e: "exact_extents e [r]"
  shows "e = r"
proof -
  have "point_in_rect e (rleft r) (rtop r)" "point_in_rect e (rright r - 1) (rbottom r - 1)"
    using r e by (auto simp: exact_extents_def point_in_rect_def is_rect_empty_def)
  then show ?thesis using e
    by (intro rectangle.equality) (auto simp: exact_extents_def point_in_rect_def)
qed

lemma contains_extents_points:
  assumes "rgn_wf s1" "rgn_wf s2" "contains_extents s1 s2" "point_in_region s2 x y"
  shows "point_in_region s1 x y"
proof -
  obtain r where r: "rects s1 = [r]" using assms(3) by (auto simp: contains_extents_def length_Suc_conv)
  then have e: "extents s1 = r" using assms(1) by (auto simp: rgn_wf_def banded_def intro: exact_single)
  have "in_rects (rects s2) x y" using assms(2,4) rgn_wf_points by blast
  moreover from this have "rects s2 \<noteq> []" by auto
  ultimately have "point_in_rect (extents s2) x y" using assms(2) by (auto simp: rgn_wf_def exact_extents_def)
  then have "point_in_rect r x y" using assms(3) e by (auto simp: contains_extents_def point_in_rect_def)
  then show ?thesis using rgn_wf_points [OF assms(1)] r by simp
qed

definition joined_extents :: "rectangle \<Rightarrow> rectangle \<Rightarrow> rectangle" where
  "joined_extents e1 e2 = \<lparr>rleft = min (rleft e1) (rleft e2), rtop = min (rtop e1) (rtop e2),
     rright = max (rright e1) (rright e2), rbottom = max (rbottom e1) (rbottom e2)\<rparr>"

lemma joined_extents_exact:
  assumes "exact_extents e1 rs1" "exact_extents e2 rs2" "rs1 \<noteq> []" "rs2 \<noteq> []"
    and "\<forall>x y. in_rects rs x y \<longleftrightarrow> in_rects rs1 x y \<or> in_rects rs2 x y"
  shows "exact_extents (joined_extents e1 e2) rs"
proof -
  let ?j = "joined_extents e1 e2"
  note ex = assms(1,2) [unfolded exact_extents_def if_not_P [OF assms(3)] if_not_P [OF assms(4)]]
  have "rs \<noteq> []" using ex(1) assms(5) by auto
  moreover have "\<forall>x y. in_rects rs x y \<longrightarrow> point_in_rect ?j x y"
  proof (intro allI impI)
    fix x y assume "in_rects rs x y"
    then have "point_in_rect e1 x y \<or> point_in_rect e2 x y"
      using assms(5) ex by blast
    then show "point_in_rect ?j x y" by (auto simp: joined_extents_def point_in_rect_def)
  qed
  moreover have "rleft ?j = rleft e1 \<or> rleft ?j = rleft e2" "rright ?j = rright e1 \<or> rright ?j = rright e2"
    "rtop ?j = rtop e1 \<or> rtop ?j = rtop e2" "rbottom ?j = rbottom e1 \<or> rbottom ?j = rbottom e2"
    by (auto simp: joined_extents_def min_def max_def)
  then have "\<exists>y. in_rects rs (rleft ?j) y" "\<exists>y. in_rects rs (rright ?j - 1) y"
    "\<exists>x. in_rects rs x (rtop ?j)" "\<exists>x. in_rects rs x (rbottom ?j - 1)"
    using ex assms(5) by (metis+)
  ultimately show ?thesis by (simp add: exact_extents_def)
qed

lemma union_region_result:
  assumes "rgns st dst = Some d" "rgns st src1 = Some s1" "rgns st src2 = Some s2"
    "cap_ok d" "rgn_wf s1" "rgn_wf s2"
  shows "region_result ok st (union_region ok st dst src1 src2) dst
    (\<lambda>x y. point_in_region s1 x y \<or> point_in_region s2 x y)" (is "region_result _ _ _ _ ?S")
proof -
  have c1: "region_result ok st (copy_region ok st dst src1) dst ?S"
    if "\<And>x y. point_in_region s2 x y \<Longrightarrow> point_in_region s1 x y"
    by (rule region_result_cong [OF copy_region_result [OF assms(1,2,4,5)]]) (use that in blast)
  have c2: "region_result ok st (copy_region ok st dst src2) dst ?S"
    if "\<And>x y. point_in_region s1 x y \<Longrightarrow> point_in_region s2 x y"
    by (rule region_result_cong [OF copy_region_result [OF assms(1,3,4,6)]]) (use that in blast)
  consider "src1 = src2" | "num_rects s1 = 0" "src1 \<noteq> src2"
    | "num_rects s2 = 0" "src1 \<noteq> src2" "num_rects s1 \<noteq> 0"
    | "contains_extents s1 s2" "src1 \<noteq> src2" "num_rects s1 \<noteq> 0" "num_rects s2 \<noteq> 0"
    | "contains_extents s2 s1" "\<not> contains_extents s1 s2" "src1 \<noteq> src2" "num_rects s1 \<noteq> 0" "num_rects s2 \<noteq> 0"
    | (general) "\<not> contains_extents s2 s1" "\<not> contains_extents s1 s2" "src1 \<noteq> src2" "num_rects s1 \<noteq> 0" "num_rects s2 \<noteq> 0"
    by blast
  then show ?thesis
  proof cases
    case 1
    then show ?thesis using c1 assms(2,3) by (simp add: union_region_def)
  next
    case 2
    then show ?thesis using c2 assms(2,3) empty_region_points by (simp add: union_region_def Let_def)
  next
    case 3
    then show ?thesis using c1 assms(2,3) empty_region_points by (simp add: union_region_def Let_def)
  next
    case 4
    then show ?thesis using c1 assms contains_extents_points by (simp add: union_region_def Let_def)
  next
    case 5
    then show ?thesis using c2 assms contains_extents_points by (simp add: union_region_def Let_def)
  next
    case general
    have b: "banded (rects s1)" "banded (rects s2)" "rects s1 \<noteq> []" "rects s2 \<noteq> []"
      using assms(5,6) general by (auto simp: rgn_wf_def)
    have t: "rtop (extents s1) \<le> rtop (hd (rects s1))" "rtop (extents s2) \<le> rtop (hd (rects s2))"
      using assms(5,6) b by (auto simp: rgn_wf_def intro: exact_top)
    let ?E = "\<lambda>reg. reg\<lparr>extents := joined_extents (extents s1) (extents s2)\<rparr>"
    have E: "rects (?E reg) = rects reg \<and> rgn_wf (?E reg)"
      if "banded (rects reg)" "cap_ok reg"
        "\<forall>x y. in_rects (rects reg) x y \<longleftrightarrow> in_rects (rects s1) x y \<or> in_rects (rects s2) x y" for reg
      using that joined_extents_exact [OF _ _ b(3,4) that(3)] assms(5,6)
      by (simp add: rgn_wf_def cap_ok_def)
    have e: "union_region ok st dst src1 src2 =
      (case region_op_at union_overlapping (Some union_non_overlapping) (Some union_non_overlapping)
              ok st dst src1 src2 of (res, st1) \<Rightarrow>
         if \<not> res then (Inl STATUS_NO_MEMORY, st1) else (Inr dst, put_rgn st1 dst (?E (rgn st1 dst))))"
      using general assms(2,3) by (simp only: union_region_def Let_def joined_extents_def option.sel if_False)
    show ?thesis unfolding e
      by (rule region_result_cong [OF region_op_at_set_extents
            [where E = ?E, OF assms(1,4) unite.region_op_points [OF b t] assms(2,3) E]])
        (simp_all add: rgn_wf_points assms)
  qed
qed

lemma create_empty_region_result:
  assumes "create_empty_region ok st = (r, st')"
  shows "((\<forall>n. ok n) \<longrightarrow> r = Inr (next_rgn st)) \<and> (r = Inr (next_rgn st) \<or> r = Inl STATUS_NO_MEMORY) \<and>
    (\<forall>p. p \<noteq> next_rgn st \<longrightarrow> rgns st' p = rgns st p) \<and>
    (\<forall>e. r = Inl e \<longrightarrow> rgns st' = rgns st) \<and>
    (\<forall>p. r = Inr p \<longrightarrow> (\<exists>d. rgns st' p = Some d \<and> rgn_wf d \<and> rects d = []))"
  using assms
  by (auto simp: create_empty_region_def mem_alloc_def new_region_def rgn_wf_def banded_def
      exact_extents_def empty_rect_def cap_ok_def RGN_DEFAULT_RECTS_def split: if_splits)

lemma region_resultD:
  assumes "region_result ok st (r, st') dst S"
  obtains (fail) "r = Inl STATUS_NO_MEMORY" "\<not> (\<forall>n. ok n)" "\<forall>p. p \<noteq> dst \<longrightarrow> rgns st' p = rgns st p"
  | (success) d' where "r = Inr dst" "rgns st' dst = Some d'" "rgn_wf d'"
      "\<forall>x y. point_in_region d' x y \<longleftrightarrow> S x y" "\<forall>p. p \<noteq> dst \<longrightarrow> rgns st' p = rgns st p"
  using assms by (auto simp: region_result_def)

lemma xor_region_result:
  assumes st: "\<forall>p. rgns st p \<noteq> None \<longrightarrow> p < next_rgn st"
    and p: "rgns st dst = Some d" "rgns st src1 = Some s1" "rgns st src2 = Some s2"
    and wf: "cap_ok d" "rgn_wf s1" "rgn_wf s2"
    and x: "xor_region ok st dst src1 src2 = (r, st')"
  shows "((\<forall>n. ok n) \<longrightarrow> r = Inr dst) \<and> (r = Inr dst \<or> r = Inl STATUS_NO_MEMORY) \<and>
    (r = Inr dst \<longrightarrow> (\<exists>d'. rgns st' dst = Some d' \<and> rgn_wf d' \<and>
       (\<forall>x y. point_in_region d' x y \<longleftrightarrow> point_in_region s1 x y \<noteq> point_in_region s2 x y))) \<and>
    (\<forall>p. p \<noteq> dst \<longrightarrow> rgns st' p = rgns st p)"
proof -
  let ?t = "next_rgn st"
  have ne: "dst \<noteq> ?t" "src1 \<noteq> ?t" "src2 \<noteq> ?t" "rgns st ?t = None" using st p by auto
  obtain c st0 where c: "create_empty_region ok st = (c, st0)" by (metis surj_pair)
  note C = create_empty_region_result [OF c]
  show ?thesis
  proof (cases c)
    case (Inl e)
    then show ?thesis using C x by (auto simp: xor_region_def c)
  next
    case (Inr q)
    then have q: "c = Inr ?t" using C by auto
    then obtain t0 where t0: "rgns st0 ?t = Some t0" "rgn_wf t0" using C by auto
    have p0: "rgns st0 dst = Some d" "rgns st0 src1 = Some s1" "rgns st0 src2 = Some s2"
      "\<forall>p. p \<noteq> ?t \<longrightarrow> rgns st0 p = rgns st p" using C p ne by auto
    obtain a st1 where a: "subtract_region ok st0 ?t src1 src2 = (a, st1)" by (metis surj_pair)
    have "cap_ok t0" using t0(2) by (simp add: rgn_wf_def)
    from subtract_region_result [OF t0(1) p0(2,3) this wf(2,3), of ok, unfolded a] show ?thesis
    proof (cases rule: region_resultD)
      case fail
      then show ?thesis using x ne p0(4) by (auto simp: xor_region_def c q a free_region_def)
    next
      case A: (success t1)
      have p1: "rgns st1 dst = Some d" "rgns st1 src1 = Some s1" "rgns st1 src2 = Some s2"
        using A(5) p0 ne by auto
      obtain b st2 where b: "subtract_region ok st1 dst src2 src1 = (b, st2)" by (metis surj_pair)
      from subtract_region_result [OF p1(1,3,2) wf(1,3,2), of ok, unfolded b] show ?thesis
      proof (cases rule: region_resultD)
        case fail
        then show ?thesis using x ne p0(4) A(1,5) by (auto simp: xor_region_def c q a b free_region_def)
      next
        case B: (success d2)
        have t2: "rgns st2 ?t = Some t1" using B(5) A(2) ne by auto
        have cap: "cap_ok d2" using B(3) by (simp add: rgn_wf_def)
        obtain u st3 where u: "union_region ok st2 dst dst ?t = (u, st3)" by (metis surj_pair)
        from union_region_result [OF B(2) B(2) t2 cap B(3) A(3), of ok, unfolded u] show ?thesis
        proof (cases rule: region_resultD)
          case fail
          then show ?thesis using x ne p0(4) A(1,5) B(1,5)
            by (auto simp: xor_region_def c q a b u free_region_def)
        next
          case U: (success d3)
          have "point_in_region d3 x y \<longleftrightarrow> point_in_region s1 x y \<noteq> point_in_region s2 x y" for x y
            using U(4) B(4) A(4) by auto
          moreover have "(r, st') = (Inr dst, free_region st3 ?t)"
            using x by (simp add: xor_region_def c q a b u A(1) B(1) U(1))
          ultimately show ?thesis using U(2,3,5) ne p0(4) A(5) B(5) by (auto simp: free_region_def)
        qed
      qed
    qed
  qed
qed

lemma rect_in_rects_iff:
  assumes "banded rs" "\<not> is_rect_empty rect"
  shows "rect_in_rects rs rect \<longleftrightarrow> (\<exists>r \<in> set rs. EXTENTCHECK r rect)"
  using assms(1)
proof (induction rs)
  case (Cons r rs)
  have b: "banded rs" "\<forall>s \<in> set rs. before r s" using Cons.prems by (auto simp: banded_def)
  have "\<not> (\<exists>s \<in> set rs. EXTENTCHECK s rect)" if "rbottom rect \<le> rtop r"
    using b(2) that by (fastforce simp: before_def EXTENTCHECK_def is_rect_empty_def)
  then show ?case using Cons.IH [OF b(1)] by (auto simp: EXTENTCHECK_def)
qed simp

lemma EXTENTCHECK_points:
  assumes "\<not> is_rect_empty r" "\<not> is_rect_empty s"
  shows "EXTENTCHECK r s \<longleftrightarrow> (\<exists>x y. point_in_rect r x y \<and> point_in_rect s x y)"
proof
  assume "EXTENTCHECK r s"
  then show "\<exists>x y. point_in_rect r x y \<and> point_in_rect s x y" using assms
    by (intro exI [of _ "max (rleft r) (rleft s)"] exI [of _ "max (rtop r) (rtop s)"])
      (auto simp: EXTENTCHECK_def point_in_rect_def is_rect_empty_def)
qed (auto simp: EXTENTCHECK_def point_in_rect_def)

text \<open>C33: for a well-formed region and a non-empty rectangle, \<open>rect_in_region\<close> holds exactly when
  some point lies in both.\<close>

theorem rect_in_region_correct:
  assumes "rgn_wf reg" and "\<not> is_rect_empty rect"
  shows "rect_in_region reg rect \<longleftrightarrow> (\<exists>x y. point_in_region reg x y \<and> point_in_rect rect x y)"
proof -
  have b: "banded (rects reg)" using assms(1) by (simp add: rgn_wf_def)
  then have "rect_in_region reg rect \<longleftrightarrow> (\<exists>r \<in> set (rects reg). EXTENTCHECK r rect)"
    using rect_in_rects_iff [OF b assms(2)] by (simp add: rect_in_region_def)
  also have "\<dots> \<longleftrightarrow> (\<exists>r \<in> set (rects reg). \<exists>x y. point_in_rect r x y \<and> point_in_rect rect x y)"
    using b EXTENTCHECK_points [OF _ assms(2)] by (auto simp: banded_def)
  finally show ?thesis by (auto simp: rgn_wf_points [OF assms(1)] in_rects_def)
qed

abbreviation (input) l_shape :: region where
  "l_shape \<equiv> \<lparr>rgn_size = 2, rects = [mk_rect 0 0 2 5, mk_rect 0 5 8 7], extents = mk_rect 0 0 8 7\<rparr>"

lemma l_shape_wf: "rgn_wf l_shape"
  by (auto simp: rgn_wf_def banded_def before_def is_rect_empty_def cap_ok_def exact_extents_def
      point_in_rect_def intro: exI [of _ 0] exI [of _ 6])

theorem rect_in_region_correct_witness:
  "rgn_wf l_shape \<and> \<not> (\<exists>x y. point_in_region l_shape x y \<and> point_in_rect (mk_rect 2 0 9 5) x y)"
proof -
  have "\<not> is_rect_empty (mk_rect 2 0 9 5)" by (simp add: is_rect_empty_def)
  from rect_in_region_correct [OF l_shape_wf this] l_shape_wf show ?thesis
    by (simp add: rect_in_region_def)
qed

text \<open>C32: \<open>point_in_region\<close>, which stops at the first rectangle beyond the point, agrees with
  membership in one of the rectangles on every well-formed region.\<close>

theorem point_in_region_correct:
  assumes "rgn_wf reg"
  shows "point_in_region reg x y \<longleftrightarrow> (\<exists>r \<in> set (rects reg). point_in_rect r x y)"
  using rgn_wf_points [OF assms] by (simp add: in_rects_def)

theorem point_in_region_correct_witness:
  "rgn_wf l_shape \<and> point_in_region l_shape 7 6 \<and> (\<exists>r \<in> set (rects l_shape). point_in_rect r 7 6)"
  using point_in_region_correct [OF l_shape_wf, of 7 6] l_shape_wf
  by (simp add: point_in_region_def)

lemma exact_within:
  assumes "exact_extents e rs" "exact_extents e' rs" "rs \<noteq> []"
  shows "rleft e' \<le> rleft e \<and> rright e \<le> rright e' \<and> rtop e' \<le> rtop e \<and> rbottom e \<le> rbottom e'"
proof -
  note ex = assms(1,2) [unfolded exact_extents_def if_not_P [OF assms(3)]]
  obtain y1 y2 x1 x2 where "point_in_rect e' (rleft e) y1" "point_in_rect e' (rright e - 1) y2"
    "point_in_rect e' x1 (rtop e)" "point_in_rect e' x2 (rbottom e - 1)" using ex by blast
  then show ?thesis by (simp add: point_in_rect_def)
qed

lemma exact_unique:
  assumes "exact_extents e rs" "exact_extents e' rs"
  shows "e = e'"
proof (cases "rs = []")
  case True
  then show ?thesis using assms by (simp add: exact_extents_def)
next
  case False
  then show ?thesis using exact_within [OF assms] exact_within [OF assms(2,1)]
    by (intro rectangle.equality) simp_all
qed

lemma create_region_from_req_data_result:
  assumes "create_region_from_req_data ok st data = (r, st')"
  shows "case r of
      Inl e \<Rightarrow> rgns st' = rgns st \<and>
        (e = STATUS_INVALID_PARAMETER \<and> \<not> validate_rectangles data \<and> data \<noteq> [empty_rect] \<or>
         e = STATUS_NO_MEMORY \<and> \<not> (\<forall>n. ok n))
    | Inr p \<Rightarrow> p = next_rgn st \<and> (validate_rectangles data \<or> data = [empty_rect]) \<and>
        (\<exists>reg. rgns st' = (rgns st)(p := Some reg) \<and> rgn_wf reg \<and>
           rects reg = (if data = [empty_rect] then [] else data))"
proof -
  define d where "d = (if data = [empty_rect] then [] else data)"
  have e1: "(if length data = 1 \<and> hd data = empty_rect then [] else data) = d"
    by (cases data) (auto simp: d_def)
  have v: "validate_rectangles d \<longleftrightarrow> validate_rectangles data \<or> data = [empty_rect]"
    by (simp add: d_def)
  let ?reg = "\<lparr>rgn_size = max (length d) RGN_DEFAULT_RECTS, rects = d, extents = empty_rect\<rparr>"
  have wf: "rects (set_region_extents ?reg) = d \<and> rgn_wf (set_region_extents ?reg)" if "validate_rectangles d"
    using set_region_extents_wf [of ?reg] that
    by (simp add: validate_rectangles_banded cap_ok_def RGN_DEFAULT_RECTS_def)
  show ?thesis
    using assms unfolding create_region_from_req_data_def Let_def e1 d_def [symmetric]
    by (auto simp: mem_alloc_def new_region_def v wf split: if_splits
        intro!: exI [of _ "set_region_extents ?reg"])
qed

text \<open>C24: the server accepts exactly the rectangle lists that are properly banded (or the single
  all-zero rectangle, for the empty region); the region it creates is well formed and holds the
  points of the list, and sending it back to a client with enough room returns the same list.\<close>

theorem region_data_roundtrip:
  assumes "create_region_from_req_data ok st data = (Inr p, st')" and "\<forall>n. ok n"
    and "length data * 16 + 16 \<le> max_size"
  shows "rgn_wf (rgn st' p) \<and> rects (rgn st' p) = (if data = [empty_rect] then [] else data) \<and>
    (\<exists>total st''. get_region_data ok st' p max_size =
       (total, Inr (if data = [] then [empty_rect] else data), st'') \<and>
       (case create_region_from_req_data ok st'' (if data = [] then [empty_rect] else data) of
          (Inr q, st3) \<Rightarrow> is_region_equal (rgn st3 q) (rgn st' p)
        | (Inl e, st3) \<Rightarrow> False))"
proof -
  note c = create_region_from_req_data_result [OF assms(1), simplified]
  then obtain reg where reg: "rgns st' p = Some reg" "rgn_wf reg"
    "rects reg = (if data = [empty_rect] then [] else data)" by auto
  let ?data = "if data = [] then [empty_rect] else data"
  have "?data = (if rects reg = [] then [empty_rect] else rects reg)"
    using reg(3) by auto
  moreover have len: "num_rects reg * 16 \<le> max_size" "16 \<le> max_size" using assms(3) reg(3) by auto
  ultimately have g: "get_region_data ok st' p max_size =
      (if rects reg = [] then 16 else num_rects reg * 16, Inr ?data, snd (mem_alloc ok st'))"
    using reg(1) assms(2) by (auto simp: get_region_data_def mem_alloc_def Let_def)
  let ?st = "snd (mem_alloc ok st')"
  obtain r st3 where r: "create_region_from_req_data ok ?st ?data = (r, st3)" by (metis surj_pair)
  have v: "validate_rectangles ?data \<or> ?data = [empty_rect]" using c by auto
  obtain q where q: "r = Inr q" using create_region_from_req_data_result [OF r] v assms(2)
    by (cases r) auto
  then obtain reg3 where reg3: "rgns st3 q = Some reg3" "rgn_wf reg3" "rects reg3 = rects reg"
    using create_region_from_req_data_result [OF r] reg(3) by (auto split: if_splits)
  then have "extents reg3 = extents reg" using reg(2) by (auto simp: rgn_wf_def intro: exact_unique)
  then have "is_region_equal reg3 reg"
    using reg3(3) by (simp add: is_region_equal_def is_rect_equal_def list_all2_same)
  then show ?thesis using g r q reg reg3(1) by auto
qed

theorem region_data_roundtrip_witness:
  "\<exists>st'. create_region_from_req_data (\<lambda>_. True) \<lparr>rgns = (\<lambda>_. None), next_rgn = 0, allocs = 0\<rparr> (rects l_shape) =
       (Inr 0, st') \<and> rgn_wf (rgn st' 0) \<and> rects (rgn st' 0) = rects l_shape"
proof -
  obtain st' where c: "create_region_from_req_data (\<lambda>_. True)
      \<lparr>rgns = (\<lambda>_. None), next_rgn = 0, allocs = 0\<rparr> (rects l_shape) = (Inr 0, st')"
    by (simp add: create_region_from_req_data_def mem_alloc_def new_region_def is_rect_empty_def)
  from region_data_roundtrip [OF c, of 48] c show ?thesis by simp
qed

section \<open>Combining regions\<close>

abbreviation (input) two_regions :: rgn_store where
  "two_regions \<equiv> \<lparr>rgns = [0 \<mapsto> l_shape, 1 \<mapsto> \<lparr>rgn_size = 2, rects = [mk_rect 1 4 3 9], extents = mk_rect 1 4 3 9\<rparr>],
     next_rgn = 2, allocs = 0\<rparr>"

lemma square_wf: "rgn_wf \<lparr>rgn_size = 2, rects = [mk_rect 1 4 3 9], extents = mk_rect 1 4 3 9\<rparr>"
  by (auto simp: rgn_wf_def banded_def is_rect_empty_def cap_ok_def exact_extents_def
      point_in_rect_def intro: exI [of _ 1] exI [of _ 4])

text \<open>C1: \<open>union_region\<close> computes the union of the points of its sources into the destination, which
  may be one of the sources; it fails only when memory runs out and never touches another region.\<close>

theorem union_region_correct:
  assumes "rgns st dst = Some d" and "rgns st src1 = Some s1" and "rgns st src2 = Some s2"
    and "cap_ok d" and "rgn_wf s1" and "rgn_wf s2"
  shows "region_result ok st (union_region ok st dst src1 src2) dst
    (\<lambda>x y. point_in_region s1 x y \<or> point_in_region s2 x y)"
  using assms by (rule union_region_result)

theorem union_region_correct_witness:
  "\<exists>st' d'. union_region (\<lambda>_. True) two_regions 0 0 1 = (Inr 0, st') \<and> rgns st' 0 = Some d' \<and>
     rgn_wf d' \<and> point_in_region d' 2 8 \<and> \<not> point_in_region d' 0 8"
proof -
  have "cap_ok l_shape" by (simp add: cap_ok_def)
  from union_region_correct [of two_regions 0 _ 0 _ 1 _ "\<lambda>_. True", OF _ _ _ this l_shape_wf square_wf]
  show ?thesis
    by (cases "union_region (\<lambda>_. True) two_regions 0 0 1") (auto simp: region_result_def point_in_region_def)
qed

text \<open>C3: \<open>intersect_region\<close> computes the intersection of the points of its sources.\<close>

theorem intersect_region_correct:
  assumes "rgns st dst = Some d" and "rgns st src1 = Some s1" and "rgns st src2 = Some s2"
    and "cap_ok d" and "rgn_wf s1" and "rgn_wf s2"
  shows "region_result ok st (intersect_region ok st dst src1 src2) dst
    (\<lambda>x y. point_in_region s1 x y \<and> point_in_region s2 x y)"
  using assms by (rule intersect_region_result)

theorem intersect_region_correct_witness:
  "\<exists>st' d'. intersect_region (\<lambda>_. True) two_regions 1 0 1 = (Inr 1, st') \<and> rgns st' 1 = Some d' \<and>
     rgn_wf d' \<and> point_in_region d' 2 6 \<and> \<not> point_in_region d' 2 4"
proof -
  have "cap_ok \<lparr>rgn_size = 2, rects = [mk_rect 1 4 3 9], extents = mk_rect 1 4 3 9\<rparr>"
    by (simp add: cap_ok_def)
  from intersect_region_correct [of two_regions 1 _ 0 _ 1 _ "\<lambda>_. True", OF _ _ _ this l_shape_wf square_wf]
  show ?thesis
    by (cases "intersect_region (\<lambda>_. True) two_regions 1 0 1") (auto simp: region_result_def point_in_region_def)
qed

text \<open>C2: \<open>subtract_region\<close> computes the points of the first source that are not in the second.\<close>

theorem subtract_region_correct:
  assumes "rgns st dst = Some d" and "rgns st src1 = Some s1" and "rgns st src2 = Some s2"
    and "cap_ok d" and "rgn_wf s1" and "rgn_wf s2"
  shows "region_result ok st (subtract_region ok st dst src1 src2) dst
    (\<lambda>x y. point_in_region s1 x y \<and> \<not> point_in_region s2 x y)"
  using assms by (rule subtract_region_result)

theorem subtract_region_correct_witness:
  "\<exists>st' d'. subtract_region (\<lambda>_. True) two_regions 0 0 1 = (Inr 0, st') \<and> rgns st' 0 = Some d' \<and>
     rgn_wf d' \<and> point_in_region d' 0 4 \<and> \<not> point_in_region d' 2 6"
proof -
  have "cap_ok l_shape" by (simp add: cap_ok_def)
  from subtract_region_correct [of two_regions 0 _ 0 _ 1 _ "\<lambda>_. True", OF _ _ _ this l_shape_wf square_wf]
  show ?thesis
    by (cases "subtract_region (\<lambda>_. True) two_regions 0 0 1") (auto simp: region_result_def point_in_region_def)
qed

text \<open>C6: \<open>xor_region\<close> computes the symmetric difference, also when the destination is one of the
  sources, and leaves no trace of its temporary region.\<close>

theorem xor_region_correct:
  assumes "\<forall>p. rgns st p \<noteq> None \<longrightarrow> p < next_rgn st"
    and "rgns st dst = Some d" and "rgns st src1 = Some s1" and "rgns st src2 = Some s2"
    and "cap_ok d" and "rgn_wf s1" and "rgn_wf s2"
    and "xor_region ok st dst src1 src2 = (r, st')"
  shows "((\<forall>n. ok n) \<longrightarrow> r = Inr dst) \<and> (r = Inr dst \<or> r = Inl STATUS_NO_MEMORY) \<and>
    (r = Inr dst \<longrightarrow> (\<exists>d'. rgns st' dst = Some d' \<and> rgn_wf d' \<and>
       (\<forall>x y. point_in_region d' x y \<longleftrightarrow> point_in_region s1 x y \<noteq> point_in_region s2 x y))) \<and>
    (\<forall>p. p \<noteq> dst \<longrightarrow> rgns st' p = rgns st p)"
  using assms by (rule xor_region_result)

theorem xor_region_correct_witness:
  "\<exists>st' d'. xor_region (\<lambda>_. True) two_regions 0 0 1 = (Inr 0, st') \<and> rgns st' 0 = Some d' \<and>
     rgn_wf d' \<and> point_in_region d' 0 4 \<and> \<not> point_in_region d' 2 6 \<and> point_in_region d' 2 8"
proof -
  have "cap_ok l_shape" by (simp add: cap_ok_def)
  obtain r st' where x: "xor_region (\<lambda>_. True) two_regions 0 0 1 = (r, st')" by (metis surj_pair)
  have "\<forall>p. rgns two_regions p \<noteq> None \<longrightarrow> p < next_rgn two_regions" by simp
  from xor_region_correct [OF this _ _ _ \<open>cap_ok l_shape\<close> l_shape_wf square_wf x] x
  show ?thesis by (auto simp: point_in_region_def)
qed

section \<open>Moving regions\<close>

definition fits_s32 :: "int \<Rightarrow> bool" where
  "fits_s32 v \<longleftrightarrow> - (2 ^ 31) \<le> v \<and> v < 2 ^ 31"

lemma s32_id: "fits_s32 v \<Longrightarrow> s32 v = v"
  by (simp add: fits_s32_def s32_def)

abbreviation shift_rect :: "int \<Rightarrow> int \<Rightarrow> rectangle \<Rightarrow> rectangle" where
  "shift_rect dx dy r \<equiv> mk_rect (rleft r + dx) (rtop r + dy) (rright r + dx) (rbottom r + dy)"

lemma point_shift: "point_in_rect (shift_rect dx dy r) x y \<longleftrightarrow> point_in_rect r (x - dx) (y - dy)"
  by (auto simp: point_in_rect_def)

lemma in_rects_shift: "in_rects (map (shift_rect dx dy) rs) x y \<longleftrightarrow> in_rects rs (x - dx) (y - dy)"
  by (simp add: in_rects_def point_shift)

lemma banded_shift: "banded rs \<Longrightarrow> banded (map (shift_rect dx dy) rs)"
  by (auto simp: banded_def is_rect_empty_def before_def sorted_wrt_map elim: sorted_wrt_mono_rel [rotated])

lemma exact_shift:
  assumes "exact_extents e rs" "rs \<noteq> []"
  shows "exact_extents (shift_rect dx dy e) (map (shift_rect dx dy) rs)"
proof -
  note ex = assms(1) [unfolded exact_extents_def if_not_P [OF assms(2)]]
  then obtain y1 y2 x1 x2 where c: "in_rects rs (rleft e) y1" "in_rects rs (rright e - 1) y2"
    "in_rects rs x1 (rtop e)" "in_rects rs x2 (rbottom e - 1)" by blast
  let ?rs = "map (shift_rect dx dy) rs"
  have "in_rects ?rs (rleft e + dx) (y1 + dy)" "in_rects ?rs (rright e + dx - 1) (y2 + dy)"
    "in_rects ?rs (x1 + dx) (rtop e + dy)" "in_rects ?rs (x2 + dx) (rbottom e + dy - 1)"
    using c by (simp_all add: in_rects_shift add_diff_eq [symmetric])
  moreover have "\<forall>x y. in_rects ?rs x y \<longrightarrow> point_in_rect (shift_rect dx dy e) x y"
    using ex by (simp add: in_rects_shift point_shift)
  ultimately show ?thesis using assms(2) by (auto simp: exact_extents_def)
qed

lemma rect_within_extents:
  assumes "rgn_wf reg" "r \<in> set (rects reg)"
  shows "rleft (extents reg) \<le> rleft r" "rright r \<le> rright (extents reg)"
    "rtop (extents reg) \<le> rtop r" "rbottom r \<le> rbottom (extents reg)" "\<not> is_rect_empty r"
proof -
  have b: "banded (rects reg)" using assms(1) by (simp add: rgn_wf_def)
  have "rects reg \<noteq> []" using assms(2) by auto
  then have "point_in_rect (extents reg) (rleft r) (rtop r)" "point_in_rect (extents reg) (rright r - 1) (rtop r)"
    "point_in_rect (extents reg) (rleft r) (rbottom r - 1)"
    using assms(1) in_rects_corner [OF b assms(2)] by (auto simp: rgn_wf_def exact_extents_def)
  then show "rleft (extents reg) \<le> rleft r" "rright r \<le> rright (extents reg)"
    "rtop (extents reg) \<le> rtop r" "rbottom r \<le> rbottom (extents reg)" "\<not> is_rect_empty r"
    using b assms(2) by (auto simp: point_in_rect_def banded_def)
qed

text \<open>C34: when the shifted extents fit in 32 bits, \<open>offset_region\<close> moves every point of the region by
  the offset and keeps the region well formed.\<close>

theorem offset_region_correct:
  assumes wf: "rgn_wf reg"
    and "fits_s32 (rleft (extents reg) + dx)" and "fits_s32 (rright (extents reg) + dx)"
    and "fits_s32 (rtop (extents reg) + dy)" and "fits_s32 (rbottom (extents reg) + dy)"
  shows "rgn_wf (offset_region reg dx dy) \<and>
    (\<forall>x y. point_in_region (offset_region reg dx dy) (x + dx) (y + dy) \<longleftrightarrow> point_in_region reg x y)"
proof (cases "rects reg = []")
  case True
  then show ?thesis using wf by (simp add: offset_region_def empty_region_points)
next
  case False
  have o: "offset_rect r dx dy = shift_rect dx dy r"
    if "rleft (extents reg) \<le> rleft r" "rright r \<le> rright (extents reg)"
      "rtop (extents reg) \<le> rtop r" "rbottom r \<le> rbottom (extents reg)" "\<not> is_rect_empty r" for r
    unfolding offset_rect_def using that assms(2-5)
    by (intro arg_cong4 [where f = mk_rect] s32_id) (auto simp: fits_s32_def is_rect_empty_def)
  have m: "map (\<lambda>r. offset_rect r dx dy) (rects reg) = map (shift_rect dx dy) (rects reg)"
    using o rect_within_extents [OF wf] by simp
  have "rleft (extents reg) < rright (extents reg)" "rtop (extents reg) < rbottom (extents reg)"
    using rect_within_extents [OF wf hd_in_set [OF False]] by (auto simp: is_rect_empty_def)
  then have "offset_rect (extents reg) dx dy = shift_rect dx dy (extents reg)"
    by (intro o) (auto simp: is_rect_empty_def)
  then have e: "offset_region reg dx dy = reg\<lparr>rects := map (shift_rect dx dy) (rects reg),
      extents := shift_rect dx dy (extents reg)\<rparr>"
    using False by (simp only: offset_region_def m) simp
  have "rgn_wf (offset_region reg dx dy)"
    using wf banded_shift exact_shift False by (simp add: e rgn_wf_def cap_ok_def)
  then show ?thesis using rgn_wf_points wf by (simp add: e in_rects_shift)
qed

theorem offset_region_correct_witness:
  "rgn_wf l_shape \<and> rgn_wf (offset_region l_shape 10 (- 3)) \<and> point_in_region (offset_region l_shape 10 (- 3)) 17 3"
proof -
  have "rgn_wf (offset_region l_shape 10 (- 3)) \<and> (\<forall>x y. point_in_region (offset_region l_shape 10 (- 3)) (x + 10) (y + - 3) \<longleftrightarrow>
      point_in_region l_shape x y)"
    by (rule offset_region_correct [OF l_shape_wf]) (simp_all add: fits_s32_def)
  from this [THEN conjunct2, rule_format, of 7 6] this [THEN conjunct1] l_shape_wf show ?thesis
    by (simp add: point_in_region_def)
qed


text \<open>\<open>scale_dpi\<close> rounds to the nearest integer (halves upwards) for a non-negative coordinate as
  long as the product fits, but because its arithmetic is unsigned it turns every negative
  coordinate into a non-negative one as soon as the ratio has a denominator above one.\<close>

theorem scale_dpi_sign:
  assumes "num = ratio_num dpi_to * ratio_den dpi_from" and "den = ratio_num dpi_from * ratio_den dpi_to"
    and "0 < num" and "num < 2 ^ 32" and "1 < den" and "\<bar>val\<bar> * num + den < 2 ^ 31"
  shows "if 0 \<le> val then scale_dpi val dpi_from dpi_to = (val * num + den div 2) div den
    else 0 < scale_dpi val dpi_from dpi_to"
proof -
  define v where "v = \<bar>val\<bar> * num"
  have v: "0 \<le> v" "v + den < 2 ^ 31" using assms(3,6) by (simp_all add: v_def)
  have nd: "u32_of num = num" "u32_of den = den"
    using v assms(3-5) by (simp_all add: u32_of_def)
  show ?thesis
  proof (cases "0 \<le> val")
    case True
    then have e: "val * num = v" by (simp add: v_def)
    have q: "0 \<le> (v + den div 2) div den" "(v + den div 2) div den \<le> v + den div 2"
      using v assms(5) zdiv_mono2 [of "v + den div 2" 1 den]
      by (simp_all add: pos_imp_zdiv_nonneg_iff)
    have "u32_of (u32_of v + den div 2) = v + den div 2" using v assms(5) by (simp add: u32_of_def)
    moreover have "s32 ((v + den div 2) div den) = (v + den div 2) div den"
      using q v assms(5) by (intro s32_id) (auto simp: fits_s32_def)
    ultimately show ?thesis using True nd
      by (simp add: scale_dpi_def e Let_def assms(1,2) [symmetric])
  next
    case False
    then have e: "val * num = - v" "0 < v" using assms(3) by (simp_all add: v_def mult_neg_pos)
    let ?x = "2 ^ 32 - v - den div 2"
    have "(- v) mod 2 ^ 32 = (2 ^ 32 - v) mod 2 ^ 32"
      by (metis mod_add_self1 uminus_add_conv_diff add.commute)
    also have "\<dots> = 2 ^ 32 - v" using v e(2) assms(5) by (intro mod_pos_pos_trivial) auto
    finally have "u32_of (- v) = 2 ^ 32 - v" unfolding u32_of_def .
    moreover have "u32_of ?x = ?x" using v e(2) assms(5) by (simp add: u32_of_def)
    ultimately have "u32_of (u32_of (- v) - den div 2) = ?x" by (simp only:)
    moreover have "0 < ?x div den" "?x div den \<le> ?x div 2"
      using v e(2) assms(5) by (simp_all add: pos_imp_zdiv_pos_iff zdiv_mono2)
    moreover from this have "s32 (?x div den) = ?x div den"
      using v e(2) assms(5) by (intro s32_id) (auto simp: fits_s32_def)
    ultimately show ?thesis using False nd
      by (simp add: scale_dpi_def e Let_def assms(1,2) [symmetric])
  qed
qed

theorem scale_dpi_sign_witness:
  "scale_dpi 10 \<lparr>ratio_num = 192, ratio_den = 1\<rparr> \<lparr>ratio_num = 96, ratio_den = 1\<rparr> = 5 \<and>
   0 < scale_dpi (- 10) \<lparr>ratio_num = 192, ratio_den = 1\<rparr> \<lparr>ratio_num = 96, ratio_den = 1\<rparr>"
  using scale_dpi_sign [of 96 "\<lparr>ratio_num = 96, ratio_den = 1\<rparr>" "\<lparr>ratio_num = 192, ratio_den = 1\<rparr>" 192 10]
    scale_dpi_sign [of 96 "\<lparr>ratio_num = 96, ratio_den = 1\<rparr>" "\<lparr>ratio_num = 192, ratio_den = 1\<rparr>" 192 "- 10"]
  by simp

text \<open>Mirroring a region with two rectangles in a band does not yield the mirrored region: the
  exchange saves the wrong element, and the result is not even properly banded.\<close>

theorem mirror_region_loses_rect:
  "\<exists>client reg. rgn_wf reg \<and> \<not> banded (rects (mirror_region client reg)) \<and>
     (\<exists>x y. point_in_region reg x y \<and>
        \<not> (\<exists>r \<in> set (rects (mirror_region client reg)).
             point_in_rect r (rright client - rleft client - 1 - x) y))"
proof -
  let ?reg = "\<lparr>rgn_size = 2, rects = [mk_rect 0 0 1 1, mk_rect 2 0 3 1], extents = mk_rect 0 0 3 1\<rparr>"
  let ?client = "mk_rect 0 0 10 10"
  have m: "rects (mirror_region ?client ?reg) = [mk_rect 7 0 8 1, mk_rect 7 0 8 1]"
    by (simp add: mirror_region_def mirror_bands.simps mirror_swap.simps mirror_band_end.simps
        mirror_rect_def s32_def)
  have wf: "rgn_wf ?reg"
    by (auto simp: rgn_wf_def banded_def before_def is_rect_empty_def cap_ok_def exact_extents_def
        point_in_rect_def intro: exI [of _ 0])
  have "\<not> banded (rects (mirror_region ?client ?reg))"
    unfolding m by (simp add: banded_def before_def)
  moreover have "point_in_region ?reg 0 0" by (simp add: point_in_region_def)
  moreover have "\<not> (\<exists>r \<in> set (rects (mirror_region ?client ?reg)). point_in_rect r (10 - 0 - 1 - 0) 0)"
    unfolding m by (simp add: point_in_rect_def)
  ultimately show ?thesis using wf
    by (intro exI [of _ ?client] exI [of _ ?reg] conjI exI [of _ 0]) auto
qed

end
