(* ===== verification/Handle_Table.thy ===== *)
theory Handle_Table
  imports Server_Prelude
begin

unbundle bit_operations_syntax

text \<open>
  One kernel handle table, \<^verbatim>\<open>server/handle.c\<close>: the array of entries, its growth and shrinking,
  the search for the first free entry and the numbering of handles.  An object pointer is an
  identifier of type \<open>nat\<close>; the objects themselves are the subject of the theory \<open>Handles\<close>.
\<close>

section \<open>Data\<close>

record handle_entry =
  he_ptr :: "nat option"
  he_access :: u32

text \<open>
  \<open>ht_entries\<close> holds the elements \<^verbatim>\<open>0..last\<close> of the array (what lies beyond \<^verbatim>\<open>last\<close> is
  uninitialised memory), so \<^verbatim>\<open>last\<close> is its length minus one; \<open>ht_count\<close> is the capacity.
\<close>

record handle_table =
  ht_entries :: "handle_entry list"
  ht_count :: nat
  ht_free :: nat

abbreviation ht_last :: "handle_table \<Rightarrow> int" where
  "ht_last t \<equiv> int (length (ht_entries t)) - 1"

definition RESERVED_SHIFT :: nat where "RESERVED_SHIFT = 26"
definition RESERVED_INHERIT :: u32 where "RESERVED_INHERIT = push_bit RESERVED_SHIFT 1"
definition RESERVED_CLOSE_PROTECT :: u32 where "RESERVED_CLOSE_PROTECT = push_bit RESERVED_SHIFT 2"
definition RESERVED_ALL :: u32 where "RESERVED_ALL = RESERVED_INHERIT OR RESERVED_CLOSE_PROTECT"

definition MIN_HANDLE_ENTRIES :: nat where "MIN_HANDLE_ENTRIES = 32"
definition MAX_HANDLE_ENTRIES :: nat where "MAX_HANDLE_ENTRIES = 0x00ffffff"
definition HANDLE_OBFUSCATOR :: u32 where "HANDLE_OBFUSCATOR = 0x544a4def"

section \<open>Handles and indices\<close>

definition index_to_handle :: "nat \<Rightarrow> u32" where
  "index_to_handle index = push_bit 2 (of_nat (index + 1))"

definition handle_to_index :: "u32 \<Rightarrow> int" where
  "handle_to_index handle = sint (drop_bit 2 handle - 1)"

definition handle_is_global :: "u32 \<Rightarrow> bool" where
  "handle_is_global handle \<longleftrightarrow> handle XOR HANDLE_OBFUSCATOR \<le> push_bit 2 (of_nat MAX_HANDLE_ENTRIES)"

definition handle_local_to_global :: "u32 \<Rightarrow> u32" where
  "handle_local_to_global handle = (if handle = 0 then 0 else handle XOR HANDLE_OBFUSCATOR)"

definition handle_global_to_local :: "u32 \<Rightarrow> u32" where
  "handle_global_to_local handle = handle XOR HANDLE_OBFUSCATOR"

section \<open>Operations on a table\<close>

text \<open>
  A function that allocates takes the allocator's answers \<open>ok\<close> and the number of requests made so
  far, and returns the new number.
\<close>

definition alloc_handle_table :: "(nat \<Rightarrow> bool) \<Rightarrow> nat \<Rightarrow> nat \<Rightarrow> handle_table option \<times> nat" where
  "alloc_handle_table ok k count =
     (let count' = (if count < MIN_HANDLE_ENTRIES then MIN_HANDLE_ENTRIES else count)
      in if \<not> ok k then (None, k + 1)
         else if \<not> ok (k + 1) then (None, k + 2)
         else (Some \<lparr>ht_entries = [], ht_count = count', ht_free = 0\<rparr>, k + 2))"

definition grow_handle_table :: "(nat \<Rightarrow> bool) \<Rightarrow> nat \<Rightarrow> handle_table \<Rightarrow> handle_table option \<times> nat" where
  "grow_handle_table ok k t =
     (let count = min (ht_count t * 2) MAX_HANDLE_ENTRIES
      in if count = ht_count t then (None, k)
         else if \<not> ok k then (None, k + 1)
         else (Some (t\<lparr>ht_count := count\<rparr>), k + 1))"

fun first_free :: "handle_entry list \<Rightarrow> nat \<Rightarrow> nat" where
  "first_free [] i = i"
| "first_free (e # es) i = (if he_ptr e = None then i else first_free es (Suc i))"

text \<open>
  \<open>alloc_slot\<close> is the part of \<^verbatim>\<open>alloc_entry\<close> that works on the table: the index it picks and the
  table with the new entry.  The search starts at \<^verbatim>\<open>free\<close>, which never lies beyond
  \<^verbatim>\<open>last + 1\<close>.
\<close>

definition alloc_slot ::
  "(nat \<Rightarrow> bool) \<Rightarrow> nat \<Rightarrow> handle_table \<Rightarrow> handle_entry \<Rightarrow> (nat \<times> handle_table) option \<times> nat" where
  "alloc_slot ok k t entry =
     (let i = first_free (drop (ht_free t) (ht_entries t)) (ht_free t)
      in if i < length (ht_entries t)
         then (Some (i, t\<lparr>ht_entries := (ht_entries t)[i := entry], ht_free := i + 1\<rparr>), k)
         else case (if i \<ge> ht_count t then grow_handle_table ok k t else (Some t, k)) of
                (None, k') \<Rightarrow> (None, k')
              | (Some t', k') \<Rightarrow>
                  (Some (i, t'\<lparr>ht_entries := ht_entries t' @ [entry], ht_free := i + 1\<rparr>), k'))"

text \<open>\<open>get_handle\<close> on one table: the index of the entry of a local handle.\<close>

definition get_slot :: "handle_table \<Rightarrow> u32 \<Rightarrow> nat option" where
  "get_slot t handle =
     (let index = handle_to_index handle
      in if index < 0 then None
         else if index > ht_last t then None
         else if he_ptr (ht_entries t ! nat index) = None then None
         else Some (nat index))"

text \<open>Trailing unused entries are dropped; then a mostly unused array is halved.\<close>

fun drop_unused :: "handle_entry list \<Rightarrow> handle_entry list" where
  "drop_unused [] = []"
| "drop_unused (e # es) = (if he_ptr e = None then drop_unused es else e # es)"

definition shrink_handle_table :: "(nat \<Rightarrow> bool) \<Rightarrow> nat \<Rightarrow> handle_table \<Rightarrow> handle_table \<times> nat" where
  "shrink_handle_table ok k t =
     (let t' = t\<lparr>ht_entries := rev (drop_unused (rev (ht_entries t)))\<rparr>;
          count = ht_count t
      in if ht_last t' \<ge> int (count div 4) then (t', k)
         else if count < MIN_HANDLE_ENTRIES * 2 then (t', k)
         else if \<not> ok k then (t', k + 1)
         else (t'\<lparr>ht_count := count div 2\<rparr>, k + 1))"

text \<open>The stores of \<^verbatim>\<open>close_handle\<close> into the table; a store outside the array is \<^const>\<open>None\<close>.\<close>

definition free_slot ::
  "(nat \<Rightarrow> bool) \<Rightarrow> nat \<Rightarrow> handle_table \<Rightarrow> int \<Rightarrow> (handle_table \<times> nat) option" where
  "free_slot ok k t index =
     (if index < 0 \<or> index > ht_last t then None
      else let i = nat index;
               t1 = t\<lparr>ht_entries := (ht_entries t)[i := (ht_entries t ! i)\<lparr>he_ptr := None\<rparr>]\<rparr>;
               t2 = (if i < ht_free t1 then t1\<lparr>ht_free := i\<rparr> else t1)
           in if index = ht_last t2 then Some (shrink_handle_table ok k t2) else Some (t2, k))"

section \<open>Arithmetic of handles\<close>

lemma unat_index_to_handle: "i < 2 ^ 29 \<Longrightarrow> unat (index_to_handle i) = 4 * (i + 1)"
proof -
  assume i: "i < 2 ^ 29"
  have "index_to_handle i = of_nat (4 * (i + 1))"
    by (simp add: index_to_handle_def push_bit_eq_mult algebra_simps)
  then show ?thesis using i by (simp only:) (rule unat_of_nat_less, simp)
qed

lemma handle_to_index_index: "i < 2 ^ 29 \<Longrightarrow> handle_to_index (index_to_handle i) = int i"
proof -
  assume i: "i < 2 ^ 29"
  have u: "unat (of_nat (i + 1) :: u32) = i + 1" by (rule unat_of_nat_less) (use i in simp)
  have "unat (drop_bit 2 (index_to_handle i)) = i + 1"
    unfolding unat_drop_bit unat_index_to_handle [OF i] by simp
  then have "drop_bit 2 (index_to_handle i) = of_nat (i + 1)"
    by (simp only: word_unat_eq_iff u)
  then have "drop_bit 2 (index_to_handle i) - 1 = of_nat i" by simp
  then show ?thesis unfolding handle_to_index_def using i
    by (simp only:) (rule sint_of_nat_less, simp)
qed

lemma index_to_handle_nonzero: "i < 2 ^ 29 \<Longrightarrow> index_to_handle i \<noteq> 0"
proof
  assume i: "i < 2 ^ 29" and "index_to_handle i = 0"
  then show False using unat_index_to_handle [OF i] by simp
qed

lemma index_to_handle_inj:
  assumes "i < 2 ^ 29" "j < 2 ^ 29"
  shows "index_to_handle i = index_to_handle j \<longleftrightarrow> i = j"
proof
  assume "index_to_handle i = index_to_handle j"
  then have "int i = int j"
    using handle_to_index_index [OF assms(1)] handle_to_index_index [OF assms(2)] by (simp only:)
  then show "i = j" by simp
qed simp

section \<open>Well-formed tables\<close>

text \<open>
  All entries below \<^verbatim>\<open>free\<close> are in use, the last entry is in use, and the used part fits the
  capacity, which stays within its bounds.
\<close>

definition table_wf :: "handle_table \<Rightarrow> bool" where
  "table_wf t \<longleftrightarrow> ht_free t \<le> length (ht_entries t) \<and>
     (\<forall>i < ht_free t. he_ptr (ht_entries t ! i) \<noteq> None) \<and>
     (ht_entries t \<noteq> [] \<longrightarrow> he_ptr (last (ht_entries t)) \<noteq> None) \<and>
     length (ht_entries t) \<le> ht_count t \<and>
     MIN_HANDLE_ENTRIES \<le> ht_count t \<and> ht_count t \<le> MAX_HANDLE_ENTRIES"

text \<open>The abstraction of a table: a finite map from indices to object and access rights.\<close>

definition table_map :: "handle_table \<Rightarrow> nat \<Rightarrow> (nat \<times> u32) option" where
  "table_map t i = (if i < length (ht_entries t)
     then map_option (\<lambda>p. (p, he_access (ht_entries t ! i))) (he_ptr (ht_entries t ! i)) else None)"

lemma table_wf_bound: "table_wf t \<Longrightarrow> length (ht_entries t) \<le> MAX_HANDLE_ENTRIES"
  by (simp add: table_wf_def)

lemma table_index_small: "table_wf t \<Longrightarrow> i < length (ht_entries t) \<Longrightarrow> i < 2 ^ 29"
  by (auto simp: table_wf_def MAX_HANDLE_ENTRIES_def)

lemma first_free_least:
  "n \<le> first_free es n \<and> first_free es n \<le> n + length es \<and>
   (\<forall>j. n \<le> j \<and> j < first_free es n \<longrightarrow> he_ptr (es ! (j - n)) \<noteq> None) \<and>
   (first_free es n < n + length es \<longrightarrow> he_ptr (es ! (first_free es n - n)) = None)"
proof (induction es arbitrary: n)
  case (Cons e es)
  show ?case
  proof (cases "he_ptr e = None")
    case False
    have "he_ptr ((e # es) ! (j - n)) \<noteq> None" if "n \<le> j" "j < first_free es (Suc n)" for j
    proof (cases "j = n")
      case True
      then show ?thesis using False by simp
    next
      case f: False
      then have "he_ptr (es ! (j - Suc n)) \<noteq> None" "j - n = Suc (j - Suc n)"
        using Cons [of "Suc n"] that by auto
      then show ?thesis by simp
    qed
    moreover have "first_free es (Suc n) - n = Suc (first_free es (Suc n) - Suc n)"
      using Cons [of "Suc n"] by auto
    ultimately show ?thesis using False Cons [of "Suc n"] by auto
  qed simp
qed auto

text \<open>The index that \<open>alloc_slot\<close> picks: the first unused one of the whole table.\<close>

lemma first_free_table:
  assumes "table_wf t" and i: "i = first_free (drop (ht_free t) (ht_entries t)) (ht_free t)"
  shows "i \<le> length (ht_entries t)" "\<forall>j < i. he_ptr (ht_entries t ! j) \<noteq> None"
    "i < length (ht_entries t) \<Longrightarrow> he_ptr (ht_entries t ! i) = None"
proof -
  let ?f = "ht_free t" and ?es = "ht_entries t"
  have f: "?f \<le> length ?es" "\<forall>j < ?f. he_ptr (?es ! j) \<noteq> None" using assms(1) by (auto simp: table_wf_def)
  have L: "?f \<le> i" "i \<le> ?f + length (drop ?f ?es)"
    "\<forall>j. ?f \<le> j \<and> j < i \<longrightarrow> he_ptr (drop ?f ?es ! (j - ?f)) \<noteq> None"
    "i < ?f + length (drop ?f ?es) \<longrightarrow> he_ptr (drop ?f ?es ! (i - ?f)) = None"
    using first_free_least [of ?f "drop ?f ?es"] unfolding i by blast+
  show "i \<le> length ?es" using L(2) f(1) by simp
  show "\<forall>j < i. he_ptr (?es ! j) \<noteq> None"
  proof (intro allI impI)
    fix j assume "j < i"
    then show "he_ptr (?es ! j) \<noteq> None"
      using f L(2,3) by (cases "j < ?f") (auto simp: nth_drop)
  qed
  show "he_ptr (?es ! i) = None" if "i < length ?es" using L(1,4) f(1) that by (simp add: nth_drop)
qed

lemma alloc_slot_spec:
  assumes wf: "table_wf t" and e: "he_ptr e = Some p"
    and a: "alloc_slot ok k t e = (Some (i, t'), k')"
  shows "table_wf t' \<and> i < length (ht_entries t') \<and> (\<forall>j < i. table_map t j \<noteq> None) \<and> table_map t i = None \<and>
    table_map t' = (table_map t)(i := Some (p, he_access e))"
proof -
  define n where "n = first_free (drop (ht_free t) (ht_entries t)) (ht_free t)"
  note F = first_free_table [OF wf n_def]
  have used: "\<forall>j < n. table_map t j \<noteq> None" using F(1,2) by (auto simp: table_map_def)
  show ?thesis
  proof (cases "n < length (ht_entries t)")
    case True
    then have r: "i = n" "t' = t\<lparr>ht_entries := (ht_entries t)[n := e], ht_free := n + 1\<rparr>"
      using a by (auto simp: alloc_slot_def n_def [symmetric] Let_def)
    have "table_wf t'"
      using wf True F e unfolding r by (auto simp: table_wf_def nth_list_update last_list_update less_Suc_eq)
    moreover have "table_map t' = (table_map t)(n := Some (p, he_access e))"
      using True e unfolding r by (auto simp: table_map_def fun_eq_iff nth_list_update)
    ultimately show ?thesis using True used F(3) r by (simp add: table_map_def)
  next
    case False
    then have n: "n = length (ht_entries t)" using F(1) by simp
    obtain t1 where t1: "(if n \<ge> ht_count t then grow_handle_table ok k t else (Some t, k)) = (Some t1, k')"
      and r: "i = n" "t' = t1\<lparr>ht_entries := ht_entries t1 @ [e], ht_free := n + 1\<rparr>"
      using a False by (auto simp: alloc_slot_def n_def [symmetric] Let_def split: option.splits prod.splits if_splits)
    have g: "ht_entries t1 = ht_entries t" "n < ht_count t1" "MIN_HANDLE_ENTRIES \<le> ht_count t1" "ht_count t1 \<le> MAX_HANDLE_ENTRIES"
      using t1 wf n by (auto simp: grow_handle_table_def table_wf_def Let_def MIN_HANDLE_ENTRIES_def MAX_HANDLE_ENTRIES_def split: if_splits)
    have "table_wf t'"
      using wf g F(2) e n unfolding r by (auto simp: table_wf_def nth_append less_Suc_eq)
    moreover have "table_map t' = (table_map t)(n := Some (p, he_access e))"
      using n g(1) e unfolding r by (auto simp: table_map_def fun_eq_iff nth_append)
    ultimately show ?thesis using n used r g(1) by (simp add: table_map_def)
  qed
qed

text \<open>Allocation fails only when the allocator does or when the table is full.\<close>

lemma alloc_slot_None:
  assumes wf: "table_wf t" and a: "alloc_slot ok k t e = (None, k')"
  shows "(\<forall>i < MAX_HANDLE_ENTRIES. table_map t i \<noteq> None) \<and> k' = k \<or> \<not> ok k \<and> k' = k + 1"
proof -
  define n where "n = first_free (drop (ht_free t) (ht_entries t)) (ht_free t)"
  note F = first_free_table [OF wf n_def]
  have n: "n = length (ht_entries t)" "ht_count t \<le> n" "grow_handle_table ok k t = (None, k')"
    using a F(1) by (auto simp: alloc_slot_def n_def [symmetric] Let_def split: option.splits prod.splits if_splits)
  then have c: "n = ht_count t" using wf by (simp add: table_wf_def)
  show ?thesis
  proof (cases "ht_count t = MAX_HANDLE_ENTRIES")
    case True
    then have "\<forall>i < MAX_HANDLE_ENTRIES. table_map t i \<noteq> None"
      using F(2) n(1) c by (auto simp: table_map_def)
    then show ?thesis using n(3) True by (auto simp: grow_handle_table_def Let_def)
  next
    case False
    then have "min (ht_count t * 2) MAX_HANDLE_ENTRIES \<noteq> ht_count t"
      using wf by (auto simp: table_wf_def MIN_HANDLE_ENTRIES_def)
    then show ?thesis using n(3) by (auto simp: grow_handle_table_def Let_def split: if_splits)
  qed
qed

section \<open>Lookup\<close>

lemma get_slot_Some:
  assumes "get_slot t h = Some i"
  shows "handle_to_index h = int i" "i < length (ht_entries t)" "table_map t i \<noteq> None"
  using assms by (auto simp: get_slot_def table_map_def Let_def split: if_splits)

lemma get_slot_iff:
  "get_slot t h = Some i \<longleftrightarrow> handle_to_index h = int i \<and> table_map t i \<noteq> None"
  by (auto simp: get_slot_def table_map_def Let_def split: if_splits)

lemma get_slot_index:
  "i < 2 ^ 29 \<Longrightarrow> get_slot t (index_to_handle i) = (if table_map t i \<noteq> None then Some i else None)"
  by (auto simp: get_slot_def table_map_def handle_to_index_index Let_def)

lemma table_map_Some:
  "table_map t i = Some (p, a) \<longleftrightarrow>
   i < length (ht_entries t) \<and> he_ptr (ht_entries t ! i) = Some p \<and> he_access (ht_entries t ! i) = a"
  by (auto simp: table_map_def)

section \<open>Removal\<close>

lemma drop_unused_rev:
  "\<exists>us. es = rev (drop_unused (rev es)) @ us \<and> (\<forall>u \<in> set us. he_ptr u = None)"
proof (induction es rule: rev_induct)
  case (snoc e es)
  show ?case
  proof (cases "he_ptr e = None")
    case True
    from snoc obtain us where "es = rev (drop_unused (rev es)) @ us" "\<forall>u \<in> set us. he_ptr u = None"
      by blast
    then have "es @ [e] = rev (drop_unused (rev (es @ [e]))) @ (us @ [e])"
      "\<forall>u \<in> set (us @ [e]). he_ptr u = None"
      using True by auto
    then show ?thesis by blast
  qed auto
qed simp

lemma drop_unused_head: "drop_unused es \<noteq> [] \<Longrightarrow> he_ptr (hd (drop_unused es)) \<noteq> None"
  by (induction es) auto

text \<open>What a table satisfies between the removal of an entry and the shrinking.\<close>

definition table_pre :: "handle_table \<Rightarrow> bool" where
  "table_pre t \<longleftrightarrow> ht_free t \<le> length (ht_entries t) \<and>
     (\<forall>i < ht_free t. he_ptr (ht_entries t ! i) \<noteq> None) \<and>
     length (ht_entries t) \<le> ht_count t \<and>
     MIN_HANDLE_ENTRIES \<le> ht_count t \<and> ht_count t \<le> MAX_HANDLE_ENTRIES"

lemma shrink_handle_table_spec:
  assumes pre: "table_pre t" and s: "shrink_handle_table ok k t = (t', k')"
  shows "table_wf t'" "table_map t' = table_map t"
proof -
  define es where "es = rev (drop_unused (rev (ht_entries t)))"
  obtain us where us: "ht_entries t = es @ us" "\<forall>u \<in> set us. he_ptr u = None"
    using drop_unused_rev [of "ht_entries t"] unfolding es_def by blast
  have l: "es \<noteq> [] \<longrightarrow> he_ptr (last es) \<noteq> None"
    using drop_unused_head [of "rev (ht_entries t)"] unfolding es_def by (simp add: last_rev)
  have e': "ht_entries t' = es" "ht_free t' = ht_free t"
    using s by (auto simp: shrink_handle_table_def es_def Let_def split: if_splits)
  have f: "ht_free t \<le> length es"
  proof (rule ccontr)
    assume a: "\<not> ht_free t \<le> length es"
    then have "he_ptr (ht_entries t ! length es) \<noteq> None" "length es < length (ht_entries t)"
      using pre by (auto simp: table_pre_def)
    then show False using us by (auto simp: nth_append)
  qed
  have f2: "\<forall>i < ht_free t. he_ptr (es ! i) \<noteq> None"
  proof (intro allI impI)
    fix i assume "i < ht_free t"
    then show "he_ptr (es ! i) \<noteq> None" using pre f us(1) by (auto simp: table_pre_def nth_append)
  qed
  have c: "length es \<le> ht_count t'" "MIN_HANDLE_ENTRIES \<le> ht_count t'" "ht_count t' \<le> MAX_HANDLE_ENTRIES"
  proof -
    have len: "length es \<le> length (ht_entries t)" using us(1) by simp
    have "ht_count t' = (if int (length es) - 1 \<ge> int (ht_count t div 4) \<or> ht_count t < MIN_HANDLE_ENTRIES * 2 \<or> \<not> ok k
        then ht_count t else ht_count t div 2)"
      using s by (auto simp: shrink_handle_table_def es_def Let_def split: if_splits)
    then show "length es \<le> ht_count t'" "MIN_HANDLE_ENTRIES \<le> ht_count t'" "ht_count t' \<le> MAX_HANDLE_ENTRIES"
      using len pre by (auto simp: table_pre_def MIN_HANDLE_ENTRIES_def split: if_splits)
  qed
  show "table_wf t'" using f f2 l c by (simp add: table_wf_def e')
  show "table_map t' = table_map t"
  proof
    fix i
    show "table_map t' i = table_map t i"
      using us(2) by (auto simp: table_map_def e' us(1) nth_append)
  qed
qed

lemma free_slot_spec:
  assumes wf: "table_wf t" and i: "table_map t i \<noteq> None"
  shows "\<exists>t' k'. free_slot ok k t (int i) = Some (t', k') \<and> table_wf t' \<and>
    table_map t' = (table_map t)(i := None)"
proof -
  have il: "i < length (ht_entries t)" using i by (auto simp: table_map_def split: if_splits)
  define t2 where "t2 = t\<lparr>ht_entries := (ht_entries t)[i := (ht_entries t ! i)\<lparr>he_ptr := None\<rparr>],
    ht_free := min i (ht_free t)\<rparr>"
  have e: "free_slot ok k t (int i) =
      (if int i = ht_last t2 then Some (shrink_handle_table ok k t2) else Some (t2, k))"
    using il by (auto simp: free_slot_def t2_def Let_def min_def)
  have m: "table_map t2 = (table_map t)(i := None)"
    using il by (auto simp: table_map_def t2_def fun_eq_iff nth_list_update)
  have p: "table_pre t2"
    using wf il by (auto simp: table_wf_def table_pre_def t2_def nth_list_update)
  show ?thesis
  proof (cases "int i = ht_last t2")
    case True
    obtain t' k' where s: "shrink_handle_table ok k t2 = (t', k')" by (metis surj_pair)
    then show ?thesis using shrink_handle_table_spec [OF p s] m True e by auto
  next
    case False
    then have "i \<noteq> length (ht_entries t) - 1" using il by (auto simp: t2_def)
    then have "table_wf t2"
      using p wf il by (auto simp: table_wf_def table_pre_def t2_def last_list_update)
    then show ?thesis using e m False by simp
  qed
qed

lemma alloc_handle_table_spec:
  assumes "alloc_handle_table ok k n = (Some t, k')" "n \<le> MAX_HANDLE_ENTRIES"
  shows "table_wf t" "table_map t = Map.empty"
  using assms
  by (auto simp: alloc_handle_table_def table_wf_def table_map_def fun_eq_iff Let_def MIN_HANDLE_ENTRIES_def
      MAX_HANDLE_ENTRIES_def split: if_splits)

end
