(* ===== verification/Objects.thy ===== *)
theory Objects
  imports Handle_Table "HOL-Library.Monad_Syntax"
begin

unbundle bit_operations_syntax

text \<open>
  Reference-counted kernel objects, \<^verbatim>\<open>server/object.c\<close> and \<^verbatim>\<open>server/object.h\<close>: the state of the
  object system, allocation, \<^verbatim>\<open>grab_object\<close> and \<^verbatim>\<open>release_object\<close>, the mapping of generic access
  rights, and the invariant that ties reference counts and handle counts to the handle tables.

  An operation that can stop the server (a failed \<^verbatim>\<open>assert\<close>, a null or dangling pointer, a store
  outside an array) returns an option, where \<^const>\<open>None\<close> is the crash.
\<close>

section \<open>Data\<close>

record kobject =
  ko_refcount :: nat
  ko_handle_count :: nat
  ko_ops :: nat
  ko_permanent :: bool

text \<open>The counters of \<^verbatim>\<open>struct type_descr\<close>; they wrap around.\<close>

record type_counts =
  tc_obj_count :: u32
  tc_obj_max :: u32
  tc_handle_count :: u32
  tc_handle_max :: u32

record generic_map =
  gm_read :: u32
  gm_write :: u32
  gm_exec :: u32
  gm_all :: u32

text \<open>
  The server's state: the live objects by identifier, the counters of the types, the handle table of
  each process (\<^verbatim>\<open>process->handles\<close>, \<^const>\<open>None\<close> for a null pointer), the global table, the
  processes that exist, the list of the running ones, the next fresh identifier, the number of memory requests made so far and the error of
  the current request.
\<close>

record kstate =
  ks_objs :: "nat \<Rightarrow> kobject option"
  ks_types :: "nat \<Rightarrow> type_counts"
  ks_handles :: "nat \<Rightarrow> handle_table option"
  ks_global :: "handle_table option"
  ks_procs :: "nat list"
  ks_process_list :: "nat list"
  ks_next :: nat
  ks_allocs :: nat
  ks_error :: u32

text \<open>
  The operations of an object type.  \<open>op_close_handle\<close> and \<open>op_map_access\<close> are the optional callbacks;
  \<open>op_destroy\<close> stands for everything \<^verbatim>\<open>release_object\<close> runs on a dead object before freeing it
  (\<^verbatim>\<open>free_kernel_objects\<close>, \<^verbatim>\<open>unlink_named_object\<close> and the type's \<^verbatim>\<open>destroy\<close> callback).
\<close>

record object_ops =
  op_type :: nat
  op_index :: u32
  op_mapping :: generic_map
  op_map_access :: "(nat \<Rightarrow> u32 \<Rightarrow> u32) option"
  op_close_handle :: "(nat \<Rightarrow> nat \<Rightarrow> u32 \<Rightarrow> kstate \<Rightarrow> (bool \<times> kstate) option) option"
  op_destroy :: "nat \<Rightarrow> kstate \<Rightarrow> kstate option"

text \<open>
  The surroundings of a request: the allocator's answers, the table of object operations, the access
  check of \<^verbatim>\<open>token.c\<close> (\<^const>\<open>None\<close> when it refuses), the current process and thread, the token of
  the current thread if it has one, the token and the identifier of each process, and the operations
  table of the process objects.
\<close>

record kcontext =
  cx_ok :: "nat \<Rightarrow> bool"
  cx_ops :: "nat \<Rightarrow> object_ops"
  cx_check :: "nat option \<Rightarrow> nat \<Rightarrow> u32 \<Rightarrow> u32 option"
  cx_process :: nat
  cx_thread :: nat
  cx_token :: "nat option"
  cx_ptoken :: "nat \<Rightarrow> nat"
  cx_pid :: "nat \<Rightarrow> u32"
  cx_process_ops :: nat

definition INT_MAX :: nat where "INT_MAX = 2147483647"

definition GENERIC_READ :: u32 where "GENERIC_READ = 0x80000000"
definition GENERIC_WRITE :: u32 where "GENERIC_WRITE = 0x40000000"
definition GENERIC_EXECUTE :: u32 where "GENERIC_EXECUTE = 0x20000000"
definition GENERIC_ALL :: u32 where "GENERIC_ALL = 0x10000000"

section \<open>Operations\<close>

definition set_error :: "u32 \<Rightarrow> kstate \<Rightarrow> kstate" where
  "set_error err s = s\<lparr>ks_error := err\<rparr>"

definition set_obj :: "nat \<Rightarrow> kobject option \<Rightarrow> kstate \<Rightarrow> kstate" where
  "set_obj p ob s = s\<lparr>ks_objs := (ks_objs s)(p := ob)\<rparr>"

definition set_type :: "nat \<Rightarrow> type_counts \<Rightarrow> kstate \<Rightarrow> kstate" where
  "set_type y c s = s\<lparr>ks_types := (ks_types s)(y := c)\<rparr>"

definition alloc_object :: "kcontext \<Rightarrow> nat \<Rightarrow> kstate \<Rightarrow> nat option \<times> kstate" where
  "alloc_object cx ops s =
     (let s0 = s\<lparr>ks_allocs := ks_allocs s + 1\<rparr>
      in if \<not> cx_ok cx (ks_allocs s) then (None, set_error STATUS_NO_MEMORY s0)
         else let p = ks_next s;
                  y = op_type (cx_ops cx ops);
                  c = ks_types s y;
                  n = tc_obj_count c + 1;
                  s1 = set_obj p (Some \<lparr>ko_refcount = 1, ko_handle_count = 0, ko_ops = ops, ko_permanent = False\<rparr>) s0;
                  s2 = set_type y (c\<lparr>tc_obj_count := n, tc_obj_max := max (tc_obj_max c) n\<rparr>) s1
              in (Some p, s2\<lparr>ks_next := p + 1\<rparr>))"

definition free_object :: "kcontext \<Rightarrow> nat \<Rightarrow> kstate \<Rightarrow> kstate option" where
  "free_object cx p s =
     do {
       ob \<leftarrow> ks_objs s p;
       let y = op_type (cx_ops cx (ko_ops ob));
       let c = ks_types s y;
       Some (set_obj p None (set_type y (c\<lparr>tc_obj_count := tc_obj_count c - 1\<rparr>) s))
     }"

definition grab_object :: "nat \<Rightarrow> kstate \<Rightarrow> kstate option" where
  "grab_object p s =
     do {
       ob \<leftarrow> ks_objs s p;
       if ko_refcount ob < INT_MAX
       then Some (set_obj p (Some (ob\<lparr>ko_refcount := ko_refcount ob + 1\<rparr>)) s) else None
     }"

definition release_object :: "kcontext \<Rightarrow> nat \<Rightarrow> kstate \<Rightarrow> kstate option" where
  "release_object cx p s =
     do {
       ob \<leftarrow> ks_objs s p;
       if ko_refcount ob = 0 then None
       else let n = ko_refcount ob - 1;
                s1 = set_obj p (Some (ob\<lparr>ko_refcount := n\<rparr>)) s
            in if n \<noteq> 0 then Some s1
               else if ko_handle_count ob \<noteq> 0 then None
               else do {
                 s2 \<leftarrow> op_destroy (cx_ops cx (ko_ops ob)) p s1;
                 free_object cx p s2
               }
     }"

definition make_object_permanent :: "nat \<Rightarrow> kstate \<Rightarrow> kstate option" where
  "make_object_permanent p s = do { ob \<leftarrow> ks_objs s p; Some (set_obj p (Some (ob\<lparr>ko_permanent := True\<rparr>)) s) }"

definition make_object_temporary :: "nat \<Rightarrow> kstate \<Rightarrow> kstate option" where
  "make_object_temporary p s = do { ob \<leftarrow> ks_objs s p; Some (set_obj p (Some (ob\<lparr>ko_permanent := False\<rparr>)) s) }"

definition map_access :: "u32 \<Rightarrow> generic_map \<Rightarrow> u32" where
  "map_access access mapping =
     (let a1 = (if access AND GENERIC_READ \<noteq> 0 then access OR gm_read mapping else access);
          a2 = (if a1 AND GENERIC_WRITE \<noteq> 0 then a1 OR gm_write mapping else a1);
          a3 = (if a2 AND GENERIC_EXECUTE \<noteq> 0 then a2 OR gm_exec mapping else a2);
          a4 = (if a3 AND GENERIC_ALL \<noteq> 0 then a3 OR gm_all mapping else a3)
      in a4 AND NOT (GENERIC_READ OR GENERIC_WRITE OR GENERIC_EXECUTE OR GENERIC_ALL))"

definition default_map_access :: "kcontext \<Rightarrow> nat \<Rightarrow> u32 \<Rightarrow> u32" where
  "default_map_access cx ops access = map_access access (op_mapping (cx_ops cx ops))"

definition map_obj_access :: "kcontext \<Rightarrow> nat \<Rightarrow> u32 \<Rightarrow> kstate \<Rightarrow> u32 option" where
  "map_obj_access cx p access s =
     do {
       ob \<leftarrow> ks_objs s p;
       Some (case op_map_access (cx_ops cx (ko_ops ob)) of
               Some f \<Rightarrow> f p access
             | None \<Rightarrow> default_map_access cx (ko_ops ob) access)
     }"

section \<open>The counting invariant\<close>

text \<open>\<open>handle_refs s p\<close> is the number of entries, over all handle tables, that point to \<open>p\<close>.\<close>

fun refs_in :: "handle_table option \<Rightarrow> nat \<Rightarrow> nat" where
  "refs_in None p = 0"
| "refs_in (Some t) p = length (filter (\<lambda>e. he_ptr e = Some p) (ht_entries t))"

definition handle_refs :: "kstate \<Rightarrow> nat \<Rightarrow> nat" where
  "handle_refs s p = refs_in (ks_global s) p + sum_list (map (\<lambda>q. refs_in (ks_handles s q) p) (ks_procs s))"

definition tables_wf :: "kstate \<Rightarrow> bool" where
  "tables_wf s \<longleftrightarrow> (\<forall>q t. ks_handles s q = Some t \<longrightarrow> table_wf t \<and> q \<in> set (ks_procs s)) \<and>
     (\<forall>t. ks_global s = Some t \<longrightarrow> table_wf t) \<and> distinct (ks_procs s)"

fun obj_ok :: "nat \<Rightarrow> kobject option \<Rightarrow> bool" where
  "obj_ok n None = (n = 0)"
| "obj_ok n (Some ob) = (ko_handle_count ob = n \<and> n \<le> ko_refcount ob \<and> 0 < ko_refcount ob)"

text \<open>
  The invariant: the tables are well formed; the handle count of every object is the number of its
  entries in the tables plus the \<open>x p\<close> entries of a table that is being taken down; a handle holds a
  reference; no entry points to a dead object.  The objects in \<open>D\<close> (being destroyed) are exempt.
\<close>

definition kinv :: "nat set \<Rightarrow> (nat \<Rightarrow> nat) \<Rightarrow> kstate \<Rightarrow> bool" where
  "kinv D x s \<longleftrightarrow> tables_wf s \<and> (\<forall>p. p \<notin> D \<longrightarrow> obj_ok (handle_refs s p + x p) (ks_objs s p)) \<and>
     (\<forall>p. ks_objs s p \<noteq> None \<longrightarrow> p < ks_next s)"

abbreviation kernel_wf :: "kstate \<Rightarrow> bool" where
  "kernel_wf s \<equiv> kinv {} (\<lambda>_. 0) s"

text \<open>
  What the callbacks of an object type may do: touch anything but the handle tables, the handle counts
  and the references that handles hold.
\<close>

fun obj_kept :: "kobject option \<Rightarrow> kobject option \<Rightarrow> bool" where
  "obj_kept None None = True"
| "obj_kept (Some ob) None = (ko_handle_count ob = 0)"
| "obj_kept None (Some ob') = (ko_handle_count ob' = 0 \<and> 0 < ko_refcount ob')"
| "obj_kept (Some ob) (Some ob') = (ko_handle_count ob' = ko_handle_count ob \<and> ko_ops ob' = ko_ops ob \<and>
     ko_handle_count ob' \<le> ko_refcount ob' \<and> 0 < ko_refcount ob')"

definition frame :: "nat set \<Rightarrow> kstate \<Rightarrow> kstate \<Rightarrow> bool" where
  "frame D s s' \<longleftrightarrow> ks_handles s' = ks_handles s \<and> ks_global s' = ks_global s \<and>
     ks_procs s' = ks_procs s \<and>
     (\<forall>p. p \<notin> D \<longrightarrow> obj_kept (ks_objs s p) (ks_objs s' p)) \<and> (\<forall>p \<in> D. ks_objs s' p = ks_objs s p) \<and>
     (\<forall>p. ks_objs s' p \<noteq> None \<longrightarrow> p < ks_next s')"

definition callbacks_ok :: "kcontext \<Rightarrow> bool" where
  "callbacks_ok cx \<longleftrightarrow>
     (\<forall>o' p x s. kinv {p} x s \<longrightarrow> (\<exists>s'. op_destroy (cx_ops cx o') p s = Some s' \<and> frame {p} s s')) \<and>
     (\<forall>o' f p q h x s. op_close_handle (cx_ops cx o') = Some f \<and> kinv {} x s \<longrightarrow>
        (\<exists>b s'. f p q h s = Some (b, s') \<and> frame {} s s'))"

lemma handle_refs_cong:
  "ks_handles s' = ks_handles s \<Longrightarrow> ks_global s' = ks_global s \<Longrightarrow> ks_procs s' = ks_procs s \<Longrightarrow>
   handle_refs s' = handle_refs s"
  by (simp add: handle_refs_def fun_eq_iff)

lemma tables_wf_cong:
  "ks_handles s' = ks_handles s \<Longrightarrow> ks_global s' = ks_global s \<Longrightarrow> ks_procs s' = ks_procs s \<Longrightarrow>
   tables_wf s' = tables_wf s"
  by (simp add: tables_wf_def)

lemma obj_ok_kept: "obj_ok n a \<Longrightarrow> obj_kept a b \<Longrightarrow> obj_ok n b"
  by (cases a; cases b) auto

lemma kinv_frame:
  assumes k: "kinv D x s" and f: "frame D s s'"
  shows "kinv D x s'"
proof -
  have t: "ks_handles s' = ks_handles s" "ks_global s' = ks_global s" "ks_procs s' = ks_procs s"
    using f by (auto simp: frame_def)
  have "\<forall>p. p \<notin> D \<longrightarrow> obj_ok (handle_refs s' p + x p) (ks_objs s' p)"
    unfolding handle_refs_cong [OF t] using k f obj_ok_kept unfolding kinv_def frame_def by blast
  then show ?thesis using k f by (auto simp: kinv_def frame_def tables_wf_cong [OF t])
qed

text \<open>A change of one object that leaves the tables alone.\<close>

lemma kinv_set_obj:
  assumes "kinv D x s" "p < ks_next s" "obj_ok (handle_refs s p + y p) ob" "\<forall>q. q \<noteq> p \<longrightarrow> y q = x q"
  shows "kinv (D - {p}) y (set_obj p ob s)"
proof -
  have h: "handle_refs (set_obj p ob s) = handle_refs s" by (rule handle_refs_cong) (simp_all add: set_obj_def)
  have t: "tables_wf (set_obj p ob s) = tables_wf s" by (rule tables_wf_cong) (simp_all add: set_obj_def)
  have "ks_objs (set_obj p ob s) q = (if q = p then ob else ks_objs s q)" for q by (simp add: set_obj_def)
  then show ?thesis using assms unfolding kinv_def h t by (auto simp: set_obj_def)
qed

lemma set_obj_simps [simp]:
  "ks_handles (set_obj p ob s) = ks_handles s" "ks_global (set_obj p ob s) = ks_global s"
  "ks_procs (set_obj p ob s) = ks_procs s" "ks_objs (set_obj p ob s) = (ks_objs s)(p := ob)"
  "ks_process_list (set_obj p ob s) = ks_process_list s" "ks_next (set_obj p ob s) = ks_next s" "ks_error (set_obj p ob s) = ks_error s" "ks_types (set_obj p ob s) = ks_types s"
  "ks_allocs (set_obj p ob s) = ks_allocs s"
  by (simp_all add: set_obj_def)

lemma set_type_simps [simp]:
  "ks_handles (set_type y c s) = ks_handles s" "ks_global (set_type y c s) = ks_global s"
  "ks_procs (set_type y c s) = ks_procs s" "ks_objs (set_type y c s) = ks_objs s"
  "ks_process_list (set_type y c s) = ks_process_list s" "ks_next (set_type y c s) = ks_next s" "ks_error (set_type y c s) = ks_error s" "ks_allocs (set_type y c s) = ks_allocs s"
  by (simp_all add: set_type_def)

lemma set_error_simps [simp]:
  "ks_handles (set_error e s) = ks_handles s" "ks_global (set_error e s) = ks_global s"
  "ks_procs (set_error e s) = ks_procs s" "ks_objs (set_error e s) = ks_objs s"
  "ks_process_list (set_error e s) = ks_process_list s" "ks_next (set_error e s) = ks_next s" "ks_error (set_error e s) = e" "ks_types (set_error e s) = ks_types s"
  "ks_allocs (set_error e s) = ks_allocs s"
  by (simp_all add: set_error_def)

text \<open>The invariant only reads the tables, the objects and the next identifier.\<close>

lemma kinv_cong:
  assumes "ks_handles s' = ks_handles s" "ks_global s' = ks_global s" "ks_procs s' = ks_procs s"
    "ks_objs s' = ks_objs s" "ks_next s' = ks_next s"
  shows "kinv D x s' \<longleftrightarrow> kinv D x s"
  unfolding kinv_def using handle_refs_cong [OF assms(1-3)] tables_wf_cong [OF assms(1-3)] assms by simp

lemma kinv_set_type [simp]: "kinv D x (set_type y c s) \<longleftrightarrow> kinv D x s"
  by (rule kinv_cong) simp_all

lemma kinv_set_error [simp]: "kinv D x (set_error e s) \<longleftrightarrow> kinv D x s"
  by (rule kinv_cong) simp_all

lemma kinv_live:
  "kinv D x s \<Longrightarrow> p \<notin> D \<Longrightarrow> ks_objs s p = Some ob \<Longrightarrow>
   ko_handle_count ob = handle_refs s p + x p \<and> ko_handle_count ob \<le> ko_refcount ob \<and> 0 < ko_refcount ob \<and> p < ks_next s"
  unfolding kinv_def by (metis obj_ok.simps(2) option.distinct(1))

section \<open>Lemmas on the operations\<close>

lemma grab_object_Some:
  assumes "ks_objs s p = Some ob" "ko_refcount ob < INT_MAX"
  shows "grab_object p s = Some (set_obj p (Some (ob\<lparr>ko_refcount := ko_refcount ob + 1\<rparr>)) s)"
  using assms by (simp add: grab_object_def)

lemma kinv_grab_object:
  assumes "kinv D x s" "p \<notin> D" "grab_object p s = Some s'"
  shows "kinv D x s'"
proof -
  obtain ob where ob: "ks_objs s p = Some ob" "s' = set_obj p (Some (ob\<lparr>ko_refcount := ko_refcount ob + 1\<rparr>)) s"
    using assms(3) by (auto simp: grab_object_def bind_eq_Some_conv split: if_splits)
  have "kinv (D - {p}) x s'" unfolding ob(2)
    by (rule kinv_set_obj [OF assms(1)]) (use kinv_live [OF assms(1,2) ob(1)] in auto)
  then show ?thesis using assms(2) by simp
qed

text \<open>
  Releasing a reference that no handle holds keeps the invariant; the object goes away exactly when
  that was its last reference.
\<close>

lemma release_object_spec:
  assumes cx: "callbacks_ok cx" and k: "kinv {} x s" and ob: "ks_objs s p = Some ob"
    and r: "ko_handle_count ob < ko_refcount ob"
  shows "\<exists>s'. release_object cx p s = Some s' \<and> kinv {} x s' \<and>
    ks_handles s' = ks_handles s \<and> ks_global s' = ks_global s \<and> ks_procs s' = ks_procs s \<and>
    ks_objs s' p = (if ko_refcount ob = 1 then None else Some (ob\<lparr>ko_refcount := ko_refcount ob - 1\<rparr>)) \<and>
    (\<forall>q. q \<noteq> p \<longrightarrow> obj_kept (ks_objs s q) (ks_objs s' q))"
proof -
  let ?s1 = "set_obj p (Some (ob\<lparr>ko_refcount := ko_refcount ob - 1\<rparr>)) s"
  note L = kinv_live [OF k _ ob, simplified]
  have kept: "obj_kept (ks_objs s q) (ks_objs s q)" for q
    using kinv_live [OF k, of q] by (cases "ks_objs s q") auto
  show ?thesis
  proof (cases "ko_refcount ob = 1")
    case False
    then have e: "release_object cx p s = Some ?s1"
      using ob L by (auto simp: release_object_def Let_def)
    have "kinv ({} - {p}) x ?s1"
      by (rule kinv_set_obj [OF k]) (use L r False in auto)
    then show ?thesis using e False kept by auto
  next
    case True
    then have h0: "ko_handle_count ob = 0" using r by simp
    have hr: "handle_refs s p + x p = 0" using L h0 by simp
    have k1: "kinv {p} x ?s1"
    proof -
      have "handle_refs ?s1 = handle_refs s" "tables_wf ?s1 = tables_wf s"
        by (rule handle_refs_cong tables_wf_cong, simp_all)+
      then show ?thesis using k L by (auto simp: kinv_def)
    qed
    then obtain s2 where s2: "op_destroy (cx_ops cx (ko_ops ob)) p ?s1 = Some s2" "frame {p} ?s1 s2"
      using cx unfolding callbacks_ok_def by blast
    have p2: "ks_objs s2 p = Some (ob\<lparr>ko_refcount := 0\<rparr>)" "p < ks_next s2"
      using s2(2) True by (auto simp: frame_def)
    have t2: "ks_handles s2 = ks_handles s" "ks_global s2 = ks_global s" "ks_procs s2 = ks_procs s"
      using s2(2) by (auto simp: frame_def)
    obtain y c where fr: "free_object cx p s2 = Some (set_obj p None (set_type y c s2))"
      using p2(1) by (auto simp: free_object_def Let_def)
    have "kinv ({p} - {p}) x (set_obj p None (set_type y c s2))"
    proof (rule kinv_set_obj)
      show "kinv {p} x (set_type y c s2)" using kinv_frame [OF k1 s2(2)] by simp
      show "p < ks_next (set_type y c s2)" using p2 by simp
      have "handle_refs (set_type y c s2) = handle_refs s" by (rule handle_refs_cong) (simp_all add: t2)
      then show "obj_ok (handle_refs (set_type y c s2) p + x p) None" using hr by simp
    qed simp
    moreover have "release_object cx p s = Some (set_obj p None (set_type y c s2))"
      using ob True h0 s2(1) fr by (auto simp: release_object_def Let_def)
    moreover have "\<forall>q. q \<noteq> p \<longrightarrow> obj_kept (ks_objs s q) (ks_objs s2 q)"
      using s2(2) by (auto simp: frame_def)
    ultimately show ?thesis using True t2 by auto
  qed
qed

end
