(* ===== verification/Handles.thy ===== *)
theory Handles
  imports Objects
begin

unbundle bit_operations_syntax

text \<open>
  Kernel handles, \<^verbatim>\<open>server/handle.c\<close>: allocating, looking up, closing, duplicating and inheriting
  handles over the tables of all processes and the global table, and the requests built on them.
  The access check of \<^verbatim>\<open>token.c\<close> and the callbacks of the object types are fields of the context.
\<close>

section \<open>Constants\<close>

definition OBJ_PROTECT_CLOSE :: u32 where "OBJ_PROTECT_CLOSE = 1"
definition OBJ_INHERIT :: u32 where "OBJ_INHERIT = 2"
definition DUPLICATE_CLOSE_SOURCE :: u32 where "DUPLICATE_CLOSE_SOURCE = 1"
definition DUPLICATE_SAME_ACCESS :: u32 where "DUPLICATE_SAME_ACCESS = 2"
definition DUPLICATE_SAME_ATTRIBUTES :: u32 where "DUPLICATE_SAME_ATTRIBUTES = 4"
definition DUPLICATE_MAKE_GLOBAL :: u32 where "DUPLICATE_MAKE_GLOBAL = 0x80000000"
definition MAXIMUM_ALLOWED :: u32 where "MAXIMUM_ALLOWED = 0x02000000"
definition DELETE :: u32 where "DELETE = 0x10000"
definition PROCESS_DUP_HANDLE :: u32 where "PROCESS_DUP_HANDLE = 0x40"

section \<open>Access to the tables\<close>

text \<open>
  A pointer to an entry is a pair: whether the entry is in the global table, and its index.
\<close>

definition get_table :: "nat \<Rightarrow> bool \<Rightarrow> kstate \<Rightarrow> handle_table option" where
  "get_table q g s = (if g then ks_global s else ks_handles s q)"

definition set_table :: "nat \<Rightarrow> bool \<Rightarrow> handle_table option \<Rightarrow> kstate \<Rightarrow> kstate" where
  "set_table q g t s = (if g then s\<lparr>ks_global := t\<rparr> else s\<lparr>ks_handles := (ks_handles s)(q := t)\<rparr>)"

definition entry_at :: "nat \<Rightarrow> bool \<times> nat \<Rightarrow> kstate \<Rightarrow> handle_entry option" where
  "entry_at q loc s =
     do {
       t \<leftarrow> get_table q (fst loc) s;
       if snd loc < length (ht_entries t) then Some (ht_entries t ! snd loc) else None
     }"

definition set_access :: "nat \<Rightarrow> bool \<times> nat \<Rightarrow> u32 \<Rightarrow> kstate \<Rightarrow> kstate option" where
  "set_access q loc access s =
     do {
       t \<leftarrow> get_table q (fst loc) s;
       if snd loc < length (ht_entries t)
       then Some (set_table q (fst loc)
              (Some (t\<lparr>ht_entries := (ht_entries t)[snd loc := (ht_entries t ! snd loc)\<lparr>he_access := access\<rparr>]\<rparr>)) s)
       else None
     }"

section \<open>Counting handles\<close>

definition grab_object_for_handle :: "kcontext \<Rightarrow> nat \<Rightarrow> kstate \<Rightarrow> kstate option" where
  "grab_object_for_handle cx p s =
     do {
       ob \<leftarrow> ks_objs s p;
       let y = op_type (cx_ops cx (ko_ops ob));
       let c = ks_types s y;
       let n = tc_handle_count c + 1;
       let s1 = set_obj p (Some (ob\<lparr>ko_handle_count := ko_handle_count ob + 1\<rparr>)) s;
       let s2 = set_type y (c\<lparr>tc_handle_count := n, tc_handle_max := max (tc_handle_max c) n\<rparr>) s1;
       grab_object p s2
     }"

definition release_object_from_handle :: "kcontext \<Rightarrow> nat \<Rightarrow> kstate \<Rightarrow> kstate option" where
  "release_object_from_handle cx p s =
     do {
       ob \<leftarrow> ks_objs s p;
       if ko_handle_count ob = 0 then None
       else let y = op_type (cx_ops cx (ko_ops ob));
                c = ks_types s y;
                s1 = set_type y (c\<lparr>tc_handle_count := tc_handle_count c - 1\<rparr>) s;
                s2 = set_obj p (Some (ob\<lparr>ko_handle_count := ko_handle_count ob - 1\<rparr>)) s1
            in release_object cx p s2
     }"

text \<open>The close callback of a type: without one, closing is always allowed.\<close>

definition call_close_handle :: "kcontext \<Rightarrow> nat \<Rightarrow> nat \<Rightarrow> u32 \<Rightarrow> kstate \<Rightarrow> (bool \<times> kstate) option" where
  "call_close_handle cx p q handle s =
     do {
       ob \<leftarrow> ks_objs s p;
       (case op_close_handle (cx_ops cx (ko_ops ob)) of None \<Rightarrow> Some (True, s) | Some f \<Rightarrow> f p q handle s)
     }"

section \<open>Destroying a table\<close>

text \<open>The process is \<^const>\<open>None\<close> for the global table; \<open>i\<close> is the index of the first entry of the list.\<close>

fun handle_table_destroy :: "kcontext \<Rightarrow> nat option \<Rightarrow> nat \<Rightarrow> handle_entry list \<Rightarrow> kstate \<Rightarrow> kstate option" where
  "handle_table_destroy cx process i [] s = Some s"
| "handle_table_destroy cx process i (e # es) s =
     (case he_ptr e of
        None \<Rightarrow> handle_table_destroy cx process (Suc i) es s
      | Some p \<Rightarrow>
          do {
            s1 \<leftarrow> (case process of
                     None \<Rightarrow> Some s
                   | Some q \<Rightarrow> map_option snd (call_close_handle cx p q (index_to_handle i) s));
            s2 \<leftarrow> release_object_from_handle cx p s1;
            handle_table_destroy cx process (Suc i) es s2
          })"

definition close_process_handles :: "kcontext \<Rightarrow> nat \<Rightarrow> kstate \<Rightarrow> kstate option" where
  "close_process_handles cx q s =
     (let s1 = set_table q False None s
      in case ks_handles s q of
           None \<Rightarrow> Some s1
         | Some t \<Rightarrow> handle_table_destroy cx (Some q) 0 (ht_entries t) s1)"

section \<open>Allocating handles\<close>

definition alloc_entry :: "kcontext \<Rightarrow> nat \<Rightarrow> bool \<Rightarrow> nat \<Rightarrow> u32 \<Rightarrow> kstate \<Rightarrow> (u32 \<times> kstate) option" where
  "alloc_entry cx q g p access s =
     do {
       t \<leftarrow> get_table q g s;
       (case alloc_slot (cx_ok cx) (ks_allocs s) t \<lparr>he_ptr = Some p, he_access = access\<rparr> of
          (None, k) \<Rightarrow> Some (0, set_error STATUS_INSUFFICIENT_RESOURCES (s\<lparr>ks_allocs := k\<rparr>))
        | (Some (i, t'), k) \<Rightarrow>
            do {
              s1 \<leftarrow> grab_object_for_handle cx p (s\<lparr>ks_allocs := k\<rparr>);
              Some (index_to_handle i, set_table q g (Some t') s1)
            })
     }"

definition alloc_handle_entry :: "kcontext \<Rightarrow> nat \<Rightarrow> nat \<Rightarrow> u32 \<Rightarrow> u32 \<Rightarrow> kstate \<Rightarrow> (u32 \<times> kstate) option" where
  "alloc_handle_entry cx q p access attr s =
     (if access AND RESERVED_ALL \<noteq> 0 then None
      else let access' = (if attr AND OBJ_INHERIT \<noteq> 0 then access OR RESERVED_INHERIT else access)
           in if ks_handles s q = None then Some (0, set_error STATUS_PROCESS_IS_TERMINATING s)
              else alloc_entry cx q False p access' s)"

definition alloc_handle_no_access_check ::
  "kcontext \<Rightarrow> nat \<Rightarrow> nat \<Rightarrow> u32 \<Rightarrow> u32 \<Rightarrow> kstate \<Rightarrow> (u32 \<times> kstate) option" where
  "alloc_handle_no_access_check cx q p access attr s =
     do {
       let access1 = (if access AND MAXIMUM_ALLOWED \<noteq> 0 then GENERIC_ALL else access);
       access2 \<leftarrow> map_obj_access cx p access1 s;
       alloc_handle_entry cx q p (access2 AND NOT RESERVED_ALL) attr s
     }"

definition alloc_handle :: "kcontext \<Rightarrow> nat \<Rightarrow> nat \<Rightarrow> u32 \<Rightarrow> u32 \<Rightarrow> kstate \<Rightarrow> (u32 \<times> kstate) option" where
  "alloc_handle cx q p access attr s =
     do {
       access1 \<leftarrow> map_obj_access cx p access s;
       let access2 = access1 AND NOT RESERVED_ALL;
       (if access2 = 0 then Some (0, set_error STATUS_ACCESS_DENIED s)
        else case cx_check cx None p access2 of
               None \<Rightarrow> Some (0, set_error STATUS_ACCESS_DENIED s)
             | Some access3 \<Rightarrow> alloc_handle_entry cx q p access3 attr s)
     }"

definition alloc_global_handle_no_access_check ::
  "kcontext \<Rightarrow> nat \<Rightarrow> u32 \<Rightarrow> kstate \<Rightarrow> (u32 \<times> kstate) option" where
  "alloc_global_handle_no_access_check cx p access s =
     (let (t, k) = (if ks_global s = None then alloc_handle_table (cx_ok cx) (ks_allocs s) 0
                    else (ks_global s, ks_allocs s));
          s1 = s\<lparr>ks_global := t, ks_allocs := k\<rparr>
      in if t = None then Some (0, set_error STATUS_NO_MEMORY s1)
         else do {
           (handle, s2) \<leftarrow> alloc_entry cx 0 True p access s1;
           Some (handle_local_to_global handle, s2)
         })"

definition alloc_global_handle :: "kcontext \<Rightarrow> nat \<Rightarrow> u32 \<Rightarrow> kstate \<Rightarrow> (u32 \<times> kstate) option" where
  "alloc_global_handle cx p access s =
     (if access = 0 then alloc_global_handle_no_access_check cx p access s
      else case cx_check cx None p access of
             None \<Rightarrow> Some (0, set_error STATUS_ACCESS_DENIED s)
           | Some access' \<Rightarrow> alloc_global_handle_no_access_check cx p access' s)"

section \<open>Looking up handles\<close>

definition get_handle :: "nat \<Rightarrow> u32 \<Rightarrow> kstate \<Rightarrow> (bool \<times> nat) option" where
  "get_handle q handle s =
     (let g = handle_is_global handle;
          handle' = (if g then handle_global_to_local handle else handle)
      in do {
           t \<leftarrow> get_table q g s;
           i \<leftarrow> get_slot t handle';
           Some (g, i)
         })"

definition thread_get_impersonation_token :: "kcontext \<Rightarrow> nat" where
  "thread_get_impersonation_token cx =
     (case cx_token cx of Some token \<Rightarrow> token | None \<Rightarrow> cx_ptoken cx (cx_process cx))"

definition get_magic_handle :: "kcontext \<Rightarrow> u32 \<Rightarrow> nat option" where
  "get_magic_handle cx handle =
     (if handle = 0xfffffffa then Some (thread_get_impersonation_token cx)
      else if handle = 0xfffffffb then cx_token cx
      else if handle = 0xfffffffc then Some (cx_ptoken cx (cx_process cx))
      else if handle = 0xfffffffe then Some (cx_thread cx)
      else if handle = 0x7fffffff \<or> handle = 0xffffffff then Some (cx_process cx)
      else None)"

definition get_handle_obj ::
  "kcontext \<Rightarrow> nat \<Rightarrow> u32 \<Rightarrow> u32 \<Rightarrow> nat option \<Rightarrow> kstate \<Rightarrow> (nat option \<times> kstate) option" where
  "get_handle_obj cx q handle access ops s =
     (case get_magic_handle cx handle of
        None \<Rightarrow>
          (case get_handle q handle s of
             None \<Rightarrow> Some (None, set_error STATUS_INVALID_HANDLE s)
           | Some loc \<Rightarrow>
               do {
                 e \<leftarrow> entry_at q loc s;
                 p \<leftarrow> he_ptr e;
                 ob \<leftarrow> ks_objs s p;
                 if ops \<noteq> None \<and> ops \<noteq> Some (ko_ops ob)
                 then Some (None, set_error STATUS_OBJECT_TYPE_MISMATCH s)
                 else if he_access e AND access \<noteq> access then Some (None, set_error STATUS_ACCESS_DENIED s)
                 else do { s1 \<leftarrow> grab_object p s; Some (Some p, s1) }
               })
      | Some p \<Rightarrow>
          do {
            ob \<leftarrow> ks_objs s p;
            if ops \<noteq> None \<and> ops \<noteq> Some (ko_ops ob)
            then Some (None, set_error STATUS_OBJECT_TYPE_MISMATCH s)
            else do { s1 \<leftarrow> grab_object p s; Some (Some p, s1) }
          })"

definition get_handle_access :: "kcontext \<Rightarrow> nat \<Rightarrow> u32 \<Rightarrow> kstate \<Rightarrow> u32" where
  "get_handle_access cx q handle s =
     (if get_magic_handle cx handle \<noteq> None then NOT RESERVED_ALL
      else case get_handle q handle s of
             None \<Rightarrow> 0
           | Some loc \<Rightarrow>
               (case entry_at q loc s of None \<Rightarrow> 0 | Some e \<Rightarrow> he_access e AND NOT RESERVED_ALL))"

text \<open>\<open>find_inherited_handle\<close> scans a table from entry \<open>i\<close> on; a dangling entry is a crash.\<close>

fun find_inherited_in :: "nat \<Rightarrow> nat \<Rightarrow> handle_entry list \<Rightarrow> kstate \<Rightarrow> u32 option" where
  "find_inherited_in ops i [] s = Some 0"
| "find_inherited_in ops i (e # es) s =
     (case he_ptr e of
        None \<Rightarrow> find_inherited_in ops (Suc i) es s
      | Some p \<Rightarrow>
          do {
            ob \<leftarrow> ks_objs s p;
            if ko_ops ob \<noteq> ops then find_inherited_in ops (Suc i) es s
            else if he_access e AND RESERVED_INHERIT \<noteq> 0 then Some (index_to_handle i)
            else find_inherited_in ops (Suc i) es s
          })"

definition find_inherited_handle :: "nat \<Rightarrow> nat \<Rightarrow> kstate \<Rightarrow> u32 option" where
  "find_inherited_handle q ops s =
     (case ks_handles s q of None \<Rightarrow> Some 0 | Some t \<Rightarrow> find_inherited_in ops 0 (ht_entries t) s)"

definition get_obj_handle_count :: "nat \<Rightarrow> nat \<Rightarrow> kstate \<Rightarrow> u32" where
  "get_obj_handle_count q p s =
     (case ks_handles s q of
        None \<Rightarrow> 0
      | Some t \<Rightarrow> fold (\<lambda>e count. if he_ptr e = Some p then count + 1 else count) (ht_entries t) 0)"

definition get_handle_table_count :: "nat \<Rightarrow> kstate \<Rightarrow> nat" where
  "get_handle_table_count q s = (case ks_handles s q of None \<Rightarrow> 0 | Some t \<Rightarrow> ht_count t)"

section \<open>Inheriting handles\<close>

text \<open>
  \<open>inherit_handle\<close> works on the table of the new process, which is not yet installed.  The array was
  cleared, so the entries beyond the last one are null.  The index is that of the handle as given, also
  for a global handle; a store beyond the capacity is a crash.
\<close>

definition null_entry :: handle_entry where "null_entry = \<lparr>he_ptr = None, he_access = 0\<rparr>"

definition store_entry :: "nat \<Rightarrow> handle_entry \<Rightarrow> handle_entry list \<Rightarrow> handle_entry list" where
  "store_entry i e es = (es @ replicate (Suc i - length es) null_entry)[i := e]"

definition inherit_handle ::
  "kcontext \<Rightarrow> nat \<Rightarrow> u32 \<Rightarrow> handle_table \<Rightarrow> kstate \<Rightarrow> (handle_table \<times> kstate) option" where
  "inherit_handle cx parent handle t s =
     (case get_handle parent handle s of
        None \<Rightarrow> Some (t, s)
      | Some loc \<Rightarrow>
          do {
            e \<leftarrow> entry_at parent loc s;
            if he_access e AND RESERVED_INHERIT = 0 then Some (t, s)
            else let index = handle_to_index handle
                 in if index < 0 \<or> index \<ge> int (ht_count t) then None
                    else if nat index < length (ht_entries t) \<and> he_ptr (ht_entries t ! nat index) \<noteq> None
                    then Some (t, s)
                    else do {
                      p \<leftarrow> he_ptr e;
                      s1 \<leftarrow> grab_object_for_handle cx p s;
                      Some (t\<lparr>ht_entries := store_entry (nat index) e (ht_entries t)\<rparr>, s1)
                    }
          })"

fun inherit_handles ::
  "kcontext \<Rightarrow> nat \<Rightarrow> u32 list \<Rightarrow> handle_table \<Rightarrow> kstate \<Rightarrow> (handle_table \<times> kstate) option" where
  "inherit_handles cx parent [] t s = Some (t, s)"
| "inherit_handles cx parent (h # hs) t s =
     do { (t1, s1) \<leftarrow> inherit_handle cx parent h t s; inherit_handles cx parent hs t1 s1 }"

fun inherit_all :: "kcontext \<Rightarrow> handle_entry list \<Rightarrow> kstate \<Rightarrow> (handle_entry list \<times> kstate) option" where
  "inherit_all cx [] s = Some ([], s)"
| "inherit_all cx (e # es) s =
     (case he_ptr e of
        None \<Rightarrow> do { (es', s') \<leftarrow> inherit_all cx es s; Some (e # es', s') }
      | Some p \<Rightarrow>
          if he_access e AND RESERVED_INHERIT \<noteq> 0
          then do {
            s1 \<leftarrow> grab_object_for_handle cx p s;
            (es', s') \<leftarrow> inherit_all cx es s1;
            Some (e # es', s')
          }
          else do { (es', s') \<leftarrow> inherit_all cx es s; Some (e\<lparr>he_ptr := None\<rparr> # es', s') })"

definition copy_handle_table ::
  "kcontext \<Rightarrow> nat \<Rightarrow> u32 list option \<Rightarrow> u32 list \<Rightarrow> kstate \<Rightarrow> (handle_table option \<times> kstate) option" where
  "copy_handle_table cx parent handles std_handles s =
     do {
       parent_table \<leftarrow> ks_handles s parent;
       (case alloc_handle_table (cx_ok cx) (ks_allocs s) (ht_count parent_table) of
          (None, k) \<Rightarrow> Some (None, set_error STATUS_NO_MEMORY (s\<lparr>ks_allocs := k\<rparr>))
        | (Some t, k) \<Rightarrow>
            do {
              let s0 = s\<lparr>ks_allocs := k\<rparr>;
              (t1, s1) \<leftarrow> (case handles of
                 Some hs \<Rightarrow>
                   do {
                     (t', s') \<leftarrow> inherit_handles cx parent hs t s0;
                     inherit_handles cx parent (take 3 std_handles) t' s'
                   }
               | None \<Rightarrow>
                   do {
                     (es, s') \<leftarrow> inherit_all cx (ht_entries parent_table) s0;
                     Some (t\<lparr>ht_entries := es\<rparr>, s')
                   });
              let (t2, k2) = shrink_handle_table (cx_ok cx) (ks_allocs s1) t1;
              Some (Some t2, s1\<lparr>ks_allocs := k2\<rparr>)
            })
     }"

section \<open>Closing, flags and duplication\<close>

definition close_handle :: "kcontext \<Rightarrow> nat \<Rightarrow> u32 \<Rightarrow> kstate \<Rightarrow> (u32 \<times> kstate) option" where
  "close_handle cx q handle s =
     (let index = handle_to_index handle
      in case get_handle q handle s of
           None \<Rightarrow> Some (STATUS_INVALID_HANDLE, s)
         | Some loc \<Rightarrow>
             do {
               e \<leftarrow> entry_at q loc s;
               if he_access e AND RESERVED_CLOSE_PROTECT \<noteq> 0 then Some (STATUS_HANDLE_NOT_CLOSABLE, s)
               else do {
                 p \<leftarrow> he_ptr e;
                 (b, s1) \<leftarrow> call_close_handle cx p q handle s;
                 if \<not> b then Some (STATUS_HANDLE_NOT_CLOSABLE, s1)
                 else do {
                   t \<leftarrow> get_table q (handle_is_global handle) s1;
                   (t', k) \<leftarrow> free_slot (cx_ok cx) (ks_allocs s1) t index;
                   s2 \<leftarrow> release_object_from_handle cx p
                     (set_table q (handle_is_global handle) (Some t') (s1\<lparr>ks_allocs := k\<rparr>));
                   Some (STATUS_SUCCESS, s2)
                 }
               }
             })"

text \<open>The result \<^verbatim>\<open>-1\<close> of \<^verbatim>\<open>set_handle_flags\<close> is the word with all bits set.\<close>

definition set_handle_flags :: "kcontext \<Rightarrow> nat \<Rightarrow> u32 \<Rightarrow> u32 \<Rightarrow> u32 \<Rightarrow> kstate \<Rightarrow> (u32 \<times> kstate) option" where
  "set_handle_flags cx q handle msk flags s =
     (if get_magic_handle cx handle \<noteq> None
      then Some (0, if msk \<noteq> 0 then set_error STATUS_ACCESS_DENIED s else s)
      else case get_handle q handle s of
             None \<Rightarrow> Some (- 1, set_error STATUS_INVALID_HANDLE s)
           | Some loc \<Rightarrow>
               do {
                 e \<leftarrow> entry_at q loc s;
                 let msk' = push_bit RESERVED_SHIFT msk AND RESERVED_ALL;
                 let flags' = push_bit RESERVED_SHIFT flags AND msk';
                 s1 \<leftarrow> set_access q loc ((he_access e AND NOT msk') OR flags') s;
                 Some (drop_bit RESERVED_SHIFT (he_access e AND RESERVED_ALL), s1)
               })"

text \<open>The access checks of \<open>duplicate_handle\<close> for rights the source does not have.\<close>

definition check_more_access :: "kcontext \<Rightarrow> nat \<Rightarrow> nat \<Rightarrow> u32 \<Rightarrow> u32 option" where
  "check_more_access cx dst p access =
     do {
       access1 \<leftarrow> (case cx_token cx of None \<Rightarrow> Some access | Some token \<Rightarrow> cx_check cx (Some token) p access);
       cx_check cx (Some (cx_ptoken cx dst)) p access1
     }"

text \<open>The part that makes the new handle; \<open>entry\<close> is the entry of the source, if it has one.\<close>

definition dup_alloc ::
  "kcontext \<Rightarrow> nat \<Rightarrow> u32 \<Rightarrow> nat option \<Rightarrow> nat \<Rightarrow> (bool \<times> nat) option \<Rightarrow> u32 \<Rightarrow> u32 \<Rightarrow> u32 \<Rightarrow> u32 \<Rightarrow> kstate \<Rightarrow>
   (u32 \<times> kstate) option" where
  "dup_alloc cx src src_handle dst p entry src_access0 access1 attr options s1 =
     (if access1 AND NOT (src_access0 AND NOT RESERVED_ALL) \<noteq> 0
      then (case dst of
              None \<Rightarrow>
                (case cx_token cx of
                   None \<Rightarrow> None
                 | Some token \<Rightarrow>
                     (case cx_check cx (Some token) p access1 of
                        None \<Rightarrow> Some (0, set_error STATUS_ACCESS_DENIED s1)
                      | Some _ \<Rightarrow> None))
            | Some d \<Rightarrow>
                (case check_more_access cx d p access1 of
                   None \<Rightarrow> Some (0, set_error STATUS_ACCESS_DENIED s1)
                 | Some access2 \<Rightarrow>
                     if options AND DUPLICATE_MAKE_GLOBAL \<noteq> 0
                     then alloc_global_handle cx p access2 s1
                     else alloc_handle_no_access_check cx d p access2 attr s1))
      else if options AND DUPLICATE_MAKE_GLOBAL \<noteq> 0
      then alloc_global_handle_no_access_check cx p access1 s1
      else case dst of
             None \<Rightarrow> None
           | Some d \<Rightarrow>
               if options AND DUPLICATE_CLOSE_SOURCE \<noteq> 0 \<and> src = d \<and> entry \<noteq> None \<and>
                  src_access0 AND RESERVED_CLOSE_PROTECT = 0
               then do {
                 loc \<leftarrow> entry;
                 s' \<leftarrow> set_access src loc (if attr AND OBJ_INHERIT \<noteq> 0 then access1 OR RESERVED_INHERIT else access1) s1;
                 Some (src_handle, s')
               }
               else alloc_handle_entry cx d p access1 attr s1)"

text \<open>The flags are copied in the destination process, which is a null pointer for a global duplicate.\<close>

definition dup_attributes ::
  "kcontext \<Rightarrow> nat option \<Rightarrow> u32 \<Rightarrow> u32 \<Rightarrow> u32 \<Rightarrow> kstate \<Rightarrow> kstate option" where
  "dup_attributes cx dst res src_flags options s2 =
     (if res \<noteq> 0 \<and> options AND DUPLICATE_SAME_ATTRIBUTES \<noteq> 0
      then (case dst of
              None \<Rightarrow> if get_magic_handle cx res \<noteq> None then Some (set_error STATUS_ACCESS_DENIED s2) else None
            | Some d \<Rightarrow> map_option snd (set_handle_flags cx d res (- 1) src_flags s2))
      else Some s2)"

definition duplicate_handle ::
  "kcontext \<Rightarrow> nat \<Rightarrow> u32 \<Rightarrow> nat option \<Rightarrow> u32 \<Rightarrow> u32 \<Rightarrow> u32 \<Rightarrow> kstate \<Rightarrow> (u32 \<times> kstate) option" where
  "duplicate_handle cx src src_handle dst access attr options s =
     do {
       (obj, s1) \<leftarrow> get_handle_obj cx src src_handle 0 None s;
       (case obj of
          None \<Rightarrow> Some (0, s1)
        | Some p \<Rightarrow>
            do {
              let entry = get_handle src src_handle s1;
              src_access0 \<leftarrow> (case entry of
                  Some loc \<Rightarrow> map_option he_access (entry_at src loc s1)
                | None \<Rightarrow> map_obj_access cx p GENERIC_ALL s1);
              access1 \<leftarrow> (if options AND DUPLICATE_SAME_ACCESS \<noteq> 0 then Some (src_access0 AND NOT RESERVED_ALL)
                          else map_option (\<lambda>a. a AND NOT RESERVED_ALL) (map_obj_access cx p access s1));
              (res, s2) \<leftarrow> dup_alloc cx src src_handle dst p entry src_access0 access1 attr options s1;
              s3 \<leftarrow> dup_attributes cx dst res (drop_bit RESERVED_SHIFT (src_access0 AND RESERVED_ALL)) options s2;
              s4 \<leftarrow> release_object cx p s3;
              Some (res, s4)
            })
     }"

section \<open>Requests\<close>

definition req_close_handle :: "kcontext \<Rightarrow> u32 \<Rightarrow> kstate \<Rightarrow> kstate option" where
  "req_close_handle cx handle s =
     do { (err, s1) \<leftarrow> close_handle cx (cx_process cx) handle s; Some (set_error err s1) }"

definition req_set_handle_info :: "kcontext \<Rightarrow> u32 \<Rightarrow> u32 \<Rightarrow> u32 \<Rightarrow> kstate \<Rightarrow> (u32 \<times> kstate) option" where
  "req_set_handle_info cx handle flags msk s = set_handle_flags cx (cx_process cx) handle msk flags s"

definition get_process_from_handle :: "kcontext \<Rightarrow> u32 \<Rightarrow> u32 \<Rightarrow> kstate \<Rightarrow> (nat option \<times> kstate) option" where
  "get_process_from_handle cx handle access s =
     get_handle_obj cx (cx_process cx) handle access (Some (cx_process_ops cx)) s"

definition req_dup_handle ::
  "kcontext \<Rightarrow> u32 \<Rightarrow> u32 \<Rightarrow> u32 \<Rightarrow> u32 \<Rightarrow> u32 \<Rightarrow> u32 \<Rightarrow> kstate \<Rightarrow> (u32 \<times> kstate) option" where
  "req_dup_handle cx src_process src_handle dst_process access attributes options s =
     do {
       (src, s1) \<leftarrow> get_process_from_handle cx src_process PROCESS_DUP_HANDLE s;
       (case src of
          None \<Rightarrow> Some (0, s1)
        | Some sp \<Rightarrow>
            do {
              (dst, handle, s2) \<leftarrow>
                (if options AND DUPLICATE_MAKE_GLOBAL \<noteq> 0
                 then do {
                   (h, s') \<leftarrow> duplicate_handle cx sp src_handle None access attributes options s1;
                   Some (None, h, s')
                 }
                 else do {
                   (dst, s') \<leftarrow> get_process_from_handle cx dst_process PROCESS_DUP_HANDLE s1;
                   (case dst of
                      None \<Rightarrow> Some (None, 0, s')
                    | Some dp \<Rightarrow>
                        do {
                          (h, s'') \<leftarrow> duplicate_handle cx sp src_handle (Some dp) access attributes options s';
                          s3 \<leftarrow> release_object cx dp s'';
                          Some (Some dp, h, s3)
                        })
                 });
              s3 \<leftarrow> (if options AND DUPLICATE_CLOSE_SOURCE \<noteq> 0 \<and> (Some sp \<noteq> dst \<or> src_handle \<noteq> handle)
                     then map_option snd (close_handle cx sp src_handle s2) else Some s2);
              s4 \<leftarrow> release_object cx sp s3;
              Some (handle, s4)
            })
     }"

text \<open>The reply of \<open>get_object_info\<close>: access rights, reference count and handle count.\<close>

definition req_get_object_info :: "kcontext \<Rightarrow> u32 \<Rightarrow> kstate \<Rightarrow> ((u32 \<times> nat \<times> nat) option \<times> kstate) option" where
  "req_get_object_info cx handle s =
     do {
       (obj, s1) \<leftarrow> get_handle_obj cx (cx_process cx) handle 0 None s;
       (case obj of
          None \<Rightarrow> Some (None, s1)
        | Some p \<Rightarrow>
            do {
              ob \<leftarrow> ks_objs s1 p;
              let access = get_handle_access cx (cx_process cx) handle s1;
              s2 \<leftarrow> release_object cx p s1;
              Some (Some (access, ko_refcount ob, ko_handle_count ob), s2)
            })
     }"

definition req_set_object_permanence :: "kcontext \<Rightarrow> u32 \<Rightarrow> bool \<Rightarrow> kstate \<Rightarrow> kstate option" where
  "req_set_object_permanence cx handle permanent s =
     do {
       (obj, s1) \<leftarrow> get_handle_obj cx (cx_process cx) handle (if permanent then 0 else DELETE) None s;
       (case obj of
          None \<Rightarrow> Some s1
        | Some p \<Rightarrow>
            do {
              ob \<leftarrow> ks_objs s1 p;
              s2 \<leftarrow> (if permanent \<and> \<not> ko_permanent ob
                     then do { s' \<leftarrow> grab_object p s1; make_object_permanent p s' }
                     else if \<not> permanent \<and> ko_permanent ob
                     then do { s' \<leftarrow> make_object_temporary p s1; release_object cx p s' }
                     else Some s1);
              release_object cx p s2
            })
     }"

definition req_compare_objects :: "kcontext \<Rightarrow> u32 \<Rightarrow> u32 \<Rightarrow> kstate \<Rightarrow> kstate option" where
  "req_compare_objects cx first second s =
     do {
       (obj1, s1) \<leftarrow> get_handle_obj cx (cx_process cx) first 0 None s;
       (case obj1 of
          None \<Rightarrow> Some s1
        | Some p1 \<Rightarrow>
            do {
              (obj2, s2) \<leftarrow> get_handle_obj cx (cx_process cx) second 0 None s1;
              (case obj2 of
                 None \<Rightarrow> release_object cx p1 s2
               | Some p2 \<Rightarrow>
                   do {
                     let s3 = (if p1 \<noteq> p2 then set_error STATUS_NOT_SAME_OBJECT s2 else s2);
                     s4 \<leftarrow> release_object cx p2 s3;
                     release_object cx p1 s4
                   })
            })
     }"

section \<open>Listing handles\<close>

record handle_info =
  hi_owner :: u32
  hi_handle :: u32
  hi_access :: u32
  hi_attributes :: u32
  hi_type :: u32

definition handle_info_of :: "kcontext \<Rightarrow> nat \<Rightarrow> nat \<Rightarrow> handle_entry \<Rightarrow> kobject \<Rightarrow> handle_info" where
  "handle_info_of cx q i e ob =
     \<lparr>hi_owner = cx_pid cx q, hi_handle = index_to_handle i, hi_access = he_access e AND NOT RESERVED_ALL,
      hi_attributes = (if he_access e AND RESERVED_INHERIT \<noteq> 0 then OBJ_INHERIT else 0) OR
                      (if he_access e AND RESERVED_CLOSE_PROTECT \<noteq> 0 then OBJ_PROTECT_CLOSE else 0),
      hi_type = op_index (cx_ops cx (ko_ops ob))\<rparr>"

text \<open>
  \<^verbatim>\<open>struct enum_handle_info\<close> is a pair: the count, and the records written so far, where \<^const>\<open>None\<close>
  is the null buffer of the counting pass.
\<close>

fun enum_handle_entries ::
  "kcontext \<Rightarrow> nat \<Rightarrow> nat \<Rightarrow> handle_entry list \<Rightarrow> kstate \<Rightarrow> u32 \<times> handle_info list option \<Rightarrow>
   (u32 \<times> handle_info list option) option" where
  "enum_handle_entries cx q i [] s info = Some info"
| "enum_handle_entries cx q i (e # es) s info =
     (case he_ptr e of
        None \<Rightarrow> enum_handle_entries cx q (Suc i) es s info
      | Some p \<Rightarrow>
          (case info of
             (count, None) \<Rightarrow> enum_handle_entries cx q (Suc i) es s (count + 1, None)
           | (count, Some hs) \<Rightarrow>
               if count = 0 then None
               else do {
                 ob \<leftarrow> ks_objs s p;
                 enum_handle_entries cx q (Suc i) es s (count - 1, Some (hs @ [handle_info_of cx q i e ob]))
               }))"

definition enum_handles ::
  "kcontext \<Rightarrow> nat \<Rightarrow> kstate \<Rightarrow> u32 \<times> handle_info list option \<Rightarrow> (u32 \<times> handle_info list option) option" where
  "enum_handles cx q s info =
     (case ks_handles s q of None \<Rightarrow> Some info | Some t \<Rightarrow> enum_handle_entries cx q 0 (ht_entries t) s info)"

fun enum_processes ::
  "kcontext \<Rightarrow> nat list \<Rightarrow> kstate \<Rightarrow> u32 \<times> handle_info list option \<Rightarrow> (u32 \<times> handle_info list option) option" where
  "enum_processes cx [] s info = Some info"
| "enum_processes cx (q # qs) s info =
     do { info' \<leftarrow> enum_handles cx q s info; enum_processes cx qs s info' }"

text \<open>A record takes 20 bytes; an empty reply buffer is a null pointer, so nothing is written then.\<close>

definition req_get_system_handles ::
  "kcontext \<Rightarrow> u32 \<Rightarrow> kstate \<Rightarrow> (u32 \<times> handle_info list \<times> kstate) option" where
  "req_get_system_handles cx max_size s =
     do {
       let max_handles = max_size div 20;
       info \<leftarrow> enum_processes cx (ks_process_list s) s (0, None);
       let count = fst info;
       if max_handles < count then Some (count, [], set_error STATUS_BUFFER_TOO_SMALL s)
       else if count * 20 = 0 then Some (count, [], s)
       else if \<not> cx_ok cx (ks_allocs s)
       then Some (count, [], set_error STATUS_NO_MEMORY (s\<lparr>ks_allocs := ks_allocs s + 1\<rparr>))
       else do {
         info' \<leftarrow> enum_processes cx (ks_process_list s) s (count, Some []);
         Some (count, case snd info' of None \<Rightarrow> [] | Some hs \<Rightarrow> hs, s\<lparr>ks_allocs := ks_allocs s + 1\<rparr>)
       }
     }"

end
