(* ===== verification/Handle_Laws.thy ===== *)
theory Handle_Laws
  imports Handles
begin

unbundle bit_operations_syntax

text \<open>
  Properties of kernel handles: every operation keeps the counting invariant of the object system, and
  refines a finite map from handles to objects and access rights.
\<close>

section \<open>Tables and reference counts\<close>

lemma set_table_simps [simp]:
  "ks_objs (set_table q g t s) = ks_objs s" "ks_next (set_table q g t s) = ks_next s"
  "ks_procs (set_table q g t s) = ks_procs s" "ks_process_list (set_table q g t s) = ks_process_list s"
  "ks_error (set_table q g t s) = ks_error s" "ks_types (set_table q g t s) = ks_types s"
  "ks_allocs (set_table q g t s) = ks_allocs s"
  by (simp_all add: set_table_def)

lemma get_set_table:
  "get_table q g (set_table q' g' t s) =
   (if g = g' \<and> (g \<or> q = q') then t else get_table q g s)"
  by (auto simp: get_table_def set_table_def)

lemma refs_card: "refs_in (Some t) p = card {i. \<exists>a. table_map t i = Some (p, a)}"
proof -
  have "{i. \<exists>a. table_map t i = Some (p, a)} = {i. i < length (ht_entries t) \<and> he_ptr (ht_entries t ! i) = Some p}"
    by (auto simp: table_map_Some)
  then show ?thesis by (simp add: length_filter_conv_card)
qed

lemma finite_refs: "finite {i. \<exists>a. table_map t i = Some (p, a)}"
proof (rule finite_subset)
  show "{i. \<exists>a. table_map t i = Some (p, a)} \<subseteq> {..<length (ht_entries t)}" by (auto simp: table_map_Some)
qed simp

text \<open>The effect on the counts of changing one entry of a table.\<close>

definition points_to :: "(nat \<times> u32) option \<Rightarrow> nat \<Rightarrow> nat" where
  "points_to v p = (if map_option fst v = Some p then 1 else 0)"

lemma refs_in_update:
  assumes "table_map t' = (table_map t)(i := v)"
  shows "refs_in (Some t') p + points_to (table_map t i) p = refs_in (Some t) p + points_to v p"
proof -
  let ?A = "\<lambda>t. {i. \<exists>a. table_map t i = Some (p, a)}"
  have c: "card (?A u) = card (?A u - {i}) + points_to (table_map u i) p" for u
  proof (cases "i \<in> ?A u")
    case True
    then have "points_to (table_map u i) p = 1" by (auto simp: points_to_def)
    then show ?thesis using card_Suc_Diff1 [OF finite_refs True] by (simp only:)
  next
    case False
    then have "points_to (table_map u i) p = 0" by (cases "table_map u i") (auto simp: points_to_def)
    then show ?thesis using False by simp
  qed
  have "?A t' - {i} = ?A t - {i}" "table_map t' i = v" using assms by auto
  then show ?thesis using c [of t] c [of t'] unfolding refs_card by simp
qed

lemma handle_refs_set_table:
  assumes "distinct (ks_procs s)" "g \<or> q \<in> set (ks_procs s)"
  shows "handle_refs (set_table q g t s) p + refs_in (get_table q g s) p = handle_refs s p + refs_in t p"
proof (cases g)
  case True
  then show ?thesis by (simp add: handle_refs_def set_table_def get_table_def)
next
  case False
  let ?f = "\<lambda>u q. refs_in (ks_handles u q) p"
  have s: "sum_list (map (?f u) (ks_procs s)) = ?f u q + sum (?f u) (set (ks_procs s) - {q})" for u
    using assms False by (simp add: sum_list_distinct_conv_sum_set sum.remove)
  have "sum (?f (set_table q g t s)) (set (ks_procs s) - {q}) = sum (?f s) (set (ks_procs s) - {q})"
    by (rule sum.cong) (auto simp: set_table_def False)
  then show ?thesis using s [of s] s [of "set_table q g t s"] False
    by (simp add: handle_refs_def set_table_def get_table_def)
qed

lemma tables_wf_get:
  assumes "tables_wf s" "get_table q g s = Some t"
  shows "table_wf t" "g \<or> q \<in> set (ks_procs s)" "distinct (ks_procs s)"
  using assms by (auto simp: tables_wf_def get_table_def split: if_splits)

lemma tables_wf_set_table:
  assumes "tables_wf s" "g \<or> q \<in> set (ks_procs s)" "\<And>u. t = Some u \<Longrightarrow> table_wf u"
  shows "tables_wf (set_table q g t s)"
  using assms by (auto simp: tables_wf_def set_table_def)

text \<open>
  Replacing a table by one with one entry changed moves the counts of the old and the new object into
  the pending ones.
\<close>

lemma kinv_set_table:
  assumes k: "kinv D x s" and t: "get_table q g s = Some t" and w: "table_wf t'"
    and m: "table_map t' = (table_map t)(i := v)"
    and y: "\<And>p. y p + points_to v p = x p + points_to (table_map t i) p"
  shows "kinv D y (set_table q g (Some t') s)"
proof -
  have tw: "tables_wf s" using k by (simp add: kinv_def)
  note T = tables_wf_get [OF tw t]
  have "handle_refs (set_table q g (Some t') s) p + y p = handle_refs s p + x p" for p
    using handle_refs_set_table [OF T(3,2), of "Some t'" p] refs_in_update [OF m, of p] y [of p] t by simp
  moreover have "tables_wf (set_table q g (Some t') s)"
    by (rule tables_wf_set_table [OF tw T(2)]) (use w in simp)
  ultimately show ?thesis using k by (simp add: kinv_def)
qed

section \<open>Grabbing and releasing for a handle\<close>

lemma kinv_grab_for_handle:
  assumes k: "kinv {} x s" and ob: "ks_objs s p = Some ob" and r: "ko_refcount ob < INT_MAX"
  shows "\<exists>s'. grab_object_for_handle cx p s = Some s' \<and> kinv {} (x(p := x p + 1)) s' \<and>
    ks_handles s' = ks_handles s \<and> ks_global s' = ks_global s \<and> ks_procs s' = ks_procs s \<and>
    ks_process_list s' = ks_process_list s \<and> ks_allocs s' = ks_allocs s \<and> ks_error s' = ks_error s \<and>
    ks_objs s' = (ks_objs s)(p := Some (ob\<lparr>ko_handle_count := ko_handle_count ob + 1, ko_refcount := ko_refcount ob + 1\<rparr>))"
proof -
  note L = kinv_live [OF k _ ob, simplified]
  obtain y c where e: "grab_object_for_handle cx p s =
      grab_object p (set_type y c (set_obj p (Some (ob\<lparr>ko_handle_count := ko_handle_count ob + 1\<rparr>)) s))"
    using ob by (simp add: grab_object_for_handle_def Let_def)
  let ?s' = "set_obj p (Some (ob\<lparr>ko_handle_count := ko_handle_count ob + 1, ko_refcount := ko_refcount ob + 1\<rparr>))
    (set_type y c s)"
  have e2: "grab_object_for_handle cx p s = Some (set_obj p (Some (ob\<lparr>ko_handle_count := ko_handle_count ob + 1, ko_refcount := ko_refcount ob + 1\<rparr>))
    (set_type y c (set_obj p (Some (ob\<lparr>ko_handle_count := ko_handle_count ob + 1\<rparr>)) s)))"
    unfolding e using r by (simp add: grab_object_def)
  also have "\<dots> = Some ?s'" by (simp add: set_obj_def set_type_def)
  finally have e3: "grab_object_for_handle cx p s = Some ?s'" .
  have hr: "handle_refs (set_type y c s) = handle_refs s" by (rule handle_refs_cong) simp_all
  have "kinv ({} - {p}) (x(p := x p + 1)) ?s'"
    by (rule kinv_set_obj [of _ x]) (use k L hr in auto)
  then show ?thesis using e3 by simp
qed

lemma kinv_release_from_handle:
  assumes cx: "callbacks_ok cx" and k: "kinv {} x s" and xp: "0 < x p"
  shows "\<exists>s' ob. ks_objs s p = Some ob \<and> release_object_from_handle cx p s = Some s' \<and>
    kinv {} (x(p := x p - 1)) s' \<and> ks_handles s' = ks_handles s \<and> ks_global s' = ks_global s \<and> ks_procs s' = ks_procs s \<and>
    ks_objs s' p = (if ko_refcount ob = 1 then None
      else Some (ob\<lparr>ko_handle_count := ko_handle_count ob - 1, ko_refcount := ko_refcount ob - 1\<rparr>)) \<and>
    (\<forall>q. q \<noteq> p \<longrightarrow> obj_kept (ks_objs s q) (ks_objs s' q))"
proof -
  have "obj_ok (handle_refs s p + x p) (ks_objs s p)" using k by (simp add: kinv_def)
  then obtain ob where ob: "ks_objs s p = Some ob" using xp by (cases "ks_objs s p") auto
  note L = kinv_live [OF k _ ob, simplified]
  let ?ob = "ob\<lparr>ko_handle_count := ko_handle_count ob - 1\<rparr>"
  obtain y c where e: "release_object_from_handle cx p s = release_object cx p (set_obj p (Some ?ob) (set_type y c s))"
    using ob L xp by (auto simp: release_object_from_handle_def Let_def)
  have hr: "handle_refs (set_type y c s) = handle_refs s" by (rule handle_refs_cong) simp_all
  have "kinv ({} - {p}) (x(p := x p - 1)) (set_obj p (Some ?ob) (set_type y c s))"
    by (rule kinv_set_obj [of _ x]) (use k L hr xp in auto)
  then have k1: "kinv {} (x(p := x p - 1)) (set_obj p (Some ?ob) (set_type y c s))" by simp
  have o1: "ks_objs (set_obj p (Some ?ob) (set_type y c s)) p = Some ?ob" by simp
  have o2: "ko_handle_count ?ob < ko_refcount ?ob" using L xp by auto
  obtain s' where s': "release_object cx p (set_obj p (Some ?ob) (set_type y c s)) = Some s'"
      "kinv {} (x(p := x p - 1)) s'"
      "ks_handles s' = ks_handles (set_obj p (Some ?ob) (set_type y c s))"
      "ks_global s' = ks_global (set_obj p (Some ?ob) (set_type y c s))"
      "ks_procs s' = ks_procs (set_obj p (Some ?ob) (set_type y c s))"
      "ks_objs s' p = (if ko_refcount ?ob = 1 then None else Some (?ob\<lparr>ko_refcount := ko_refcount ?ob - 1\<rparr>))"
      "\<forall>q. q \<noteq> p \<longrightarrow> obj_kept (ks_objs (set_obj p (Some ?ob) (set_type y c s)) q) (ks_objs s' q)"
    using release_object_spec [OF cx k1 o1 o2] by blast
  show ?thesis
    by (rule exI [of _ s'], rule exI [of _ ob]) (use s' e ob in simp)
qed

section \<open>The abstract view: a map from handles to objects and rights\<close>

definition local_part :: "u32 \<Rightarrow> u32" where
  "local_part h = (if handle_is_global h then handle_global_to_local h else h)"

definition lookup_table :: "handle_table option \<Rightarrow> u32 \<Rightarrow> (nat \<times> u32) option" where
  "lookup_table t h =
     (case t of None \<Rightarrow> None | Some u \<Rightarrow> if handle_to_index h < 0 then None else table_map u (nat (handle_to_index h)))"

definition handle_lookup :: "nat \<Rightarrow> u32 \<Rightarrow> kstate \<Rightarrow> (nat \<times> u32) option" where
  "handle_lookup q h s = lookup_table (get_table q (handle_is_global h) s) (local_part h)"

lemma get_table_global: "get_table q True s = ks_global s"
  by (simp add: get_table_def)

lemma get_slot_None: "get_slot t h = None \<longleftrightarrow> lookup_table (Some t) h = None"
  by (auto simp: lookup_table_def get_slot_def table_map_def Let_def)

lemma get_handle_None: "get_handle q h s = None \<longleftrightarrow> handle_lookup q h s = None"
proof (cases "get_table q (handle_is_global h) s")
  case None
  then show ?thesis by (simp add: get_handle_def handle_lookup_def lookup_table_def Let_def)
next
  case (Some t)
  then have "get_handle q h s = map_option (Pair (handle_is_global h)) (get_slot t (local_part h))"
    by (cases "get_slot t (local_part h)") (simp_all add: get_handle_def local_part_def Let_def)
  then show ?thesis using get_slot_None [of t "local_part h"] Some by (simp add: handle_lookup_def)
qed

lemma handle_lookup_Some:
  assumes "handle_lookup q h s = Some (p, a)"
  obtains t i where "get_table q (handle_is_global h) s = Some t" "handle_to_index (local_part h) = int i"
    "table_map t i = Some (p, a)" "get_handle q h s = Some (handle_is_global h, i)"
    "entry_at q (handle_is_global h, i) s = Some \<lparr>he_ptr = Some p, he_access = a\<rparr>"
proof -
  obtain t where t: "get_table q (handle_is_global h) s = Some t" and i0: "0 \<le> handle_to_index (local_part h)"
    and m: "table_map t (nat (handle_to_index (local_part h))) = Some (p, a)"
    using assms by (auto simp: handle_lookup_def lookup_table_def split: option.splits if_splits)
  define i where "i = nat (handle_to_index (local_part h))"
  have i: "handle_to_index (local_part h) = int i" using i0 by (simp add: i_def)
  have m': "table_map t i = Some (p, a)" using m by (simp add: i_def)
  have "get_slot t (local_part h) = Some i" using i m' by (simp add: get_slot_iff)
  then have g: "get_handle q h s = Some (handle_is_global h, i)"
    using t by (simp add: get_handle_def local_part_def Let_def)
  have "ht_entries t ! i = \<lparr>he_ptr = Some p, he_access = a\<rparr>" "i < length (ht_entries t)"
    using m' by (auto simp: table_map_Some)
  then have "entry_at q (handle_is_global h, i) s = Some \<lparr>he_ptr = Some p, he_access = a\<rparr>"
    using t by (simp add: entry_at_def)
  then show thesis using that t i m' g by blast
qed

text \<open>The handles that name entry \<open>i\<close> of a given table: the two low bits of a handle are ignored.\<close>

definition names_entry :: "u32 \<Rightarrow> bool \<Rightarrow> nat \<Rightarrow> bool" where
  "names_entry h g i \<longleftrightarrow> handle_is_global h = g \<and> handle_to_index (local_part h) = int i"

lemma handle_lookup_set_table:
  assumes "get_table q g s = Some t" "table_map t' = (table_map t)(i := v)"
  shows "handle_lookup q' h (set_table q g (Some t') s) =
    (if names_entry h g i \<and> (g \<or> q' = q) then v else handle_lookup q' h s)"
  using assms by (auto simp: get_table_global handle_lookup_def get_set_table lookup_table_def names_entry_def)

lemma handle_lookup_cong:
  "ks_handles s' = ks_handles s \<Longrightarrow> ks_global s' = ks_global s \<Longrightarrow> handle_lookup q h s' = handle_lookup q h s"
  by (simp add: handle_lookup_def get_table_def)

lemma get_table_cong:
  "ks_handles s' = ks_handles s \<Longrightarrow> ks_global s' = ks_global s \<Longrightarrow> get_table q g s' = get_table q g s"
  by (simp add: get_table_def)

text \<open>In a well-formed state every handle names a live object.\<close>

lemma sum_list_ge_member: "x \<in> set xs \<Longrightarrow> (f x :: nat) \<le> sum_list (map f xs)"
  by (induction xs) auto

lemma handle_refs_lookup:
  assumes "tables_wf s" "handle_lookup q h s = Some (p, a)"
  shows "0 < handle_refs s p"
proof -
  obtain t i where t: "get_table q (handle_is_global h) s = Some t" "table_map t i = Some (p, a)"
    using assms(2) by (rule handle_lookup_Some)
  have "i \<in> {i. \<exists>a. table_map t i = Some (p, a)}" using t(2) by blast
  then have "0 < refs_in (Some t) p" unfolding refs_card card_gt_0_iff using finite_refs [of t p] by blast
  moreover have "refs_in (Some t) p \<le> handle_refs s p" unfolding t(1) [symmetric]
    using tables_wf_get(2) [OF assms(1) t(1)] sum_list_ge_member [of q "ks_procs s" "\<lambda>q. refs_in (ks_handles s q) p"]
    by (auto simp: handle_refs_def get_table_def)
  ultimately show ?thesis by (rule less_le_trans)
qed

lemma handle_lookup_live:
  assumes k: "kinv {} x s" and l: "handle_lookup q h s = Some (p, a)"
  obtains ob where "ks_objs s p = Some ob" "0 < ko_handle_count ob" "0 < ko_refcount ob"
proof -
  have "obj_ok (handle_refs s p + x p) (ks_objs s p)" "0 < handle_refs s p"
    using k handle_refs_lookup [OF _ l] by (auto simp: kinv_def)
  then show thesis using that by (cases "ks_objs s p") auto
qed

section \<open>Local and global handles are disjoint\<close>

lemma bit_le_unat: "bit (w :: 'a::len word) n \<Longrightarrow> 2 ^ n \<le> unat w"
proof -
  assume "bit w n"
  then have "bit (unat w) n" by (simp add: bit_unsigned_iff)
  then have "odd (unat w div 2 ^ n)" by (simp add: bit_iff_odd)
  then have "unat w div 2 ^ n \<noteq> 0" by (metis even_zero)
  then show ?thesis by (metis div_less not_less)
qed

lemma obfuscator_bit: "bit HANDLE_OBFUSCATOR 30"
  by (simp add: HANDLE_OBFUSCATOR_def bit_numeral_rec)

lemma max_local_handle: "unat (push_bit 2 (of_nat MAX_HANDLE_ENTRIES) :: u32) = 0x3fffffc"
  by (simp add: MAX_HANDLE_ENTRIES_def push_bit_eq_mult)

lemma small_not_global:
  assumes "unat h < 2 ^ 30"
  shows "\<not> handle_is_global h"
proof -
  have "\<not> bit h 30" using bit_le_unat [of h 30] assms by auto
  then have "bit (h XOR HANDLE_OBFUSCATOR) 30" using obfuscator_bit by (simp add: bit_xor_iff)
  then have "2 ^ 30 \<le> unat (h XOR HANDLE_OBFUSCATOR)" by (rule bit_le_unat)
  then show ?thesis by (simp add: handle_is_global_def word_le_nat_alt max_local_handle)
qed

lemma local_handle_not_global:
  assumes "i < MAX_HANDLE_ENTRIES"
  shows "\<not> handle_is_global (index_to_handle i)" "local_part (index_to_handle i) = index_to_handle i"
    "handle_to_index (index_to_handle i) = int i" "index_to_handle i \<noteq> 0"
proof -
  have i: "i < 2 ^ 29" using assms by (simp add: MAX_HANDLE_ENTRIES_def)
  show g: "\<not> handle_is_global (index_to_handle i)"
    by (rule small_not_global) (use assms in \<open>simp add: unat_index_to_handle [OF i] MAX_HANDLE_ENTRIES_def\<close>)
  show "local_part (index_to_handle i) = index_to_handle i" using g by (simp add: local_part_def)
  show "handle_to_index (index_to_handle i) = int i" by (rule handle_to_index_index [OF i])
  show "index_to_handle i \<noteq> 0" by (rule index_to_handle_nonzero [OF i])
qed

lemma xor_cancel: "((h :: u32) XOR w) XOR w = h"
  by (simp add: xor.assoc)

lemma global_handle_global:
  assumes "i < MAX_HANDLE_ENTRIES"
  shows "handle_is_global (handle_local_to_global (index_to_handle i))"
    "local_part (handle_local_to_global (index_to_handle i)) = index_to_handle i"
proof -
  have i: "i < 2 ^ 29" using assms by (simp add: MAX_HANDLE_ENTRIES_def)
  have e: "handle_local_to_global (index_to_handle i) = index_to_handle i XOR HANDLE_OBFUSCATOR"
    using index_to_handle_nonzero [OF i] by (simp add: handle_local_to_global_def)
  show g: "handle_is_global (handle_local_to_global (index_to_handle i))"
    unfolding e handle_is_global_def xor_cancel
    by (simp add: word_le_nat_alt max_local_handle unat_index_to_handle [OF i])
       (use assms in \<open>simp add: MAX_HANDLE_ENTRIES_def\<close>)
  show "local_part (handle_local_to_global (index_to_handle i)) = index_to_handle i"
    using g by (simp add: local_part_def e handle_global_to_local_def xor_cancel)
qed

text \<open>The index computed from a global handle lies beyond every table.\<close>

lemma handle_to_index_large:
  assumes "2 ^ 30 \<le> unat h"
  shows "handle_to_index h > int MAX_HANDLE_ENTRIES"
proof -
  define w where "w = drop_bit 2 h"
  have u: "unat w = unat h div 4" by (simp add: w_def unat_drop_bit)
  have b: "2 ^ 28 \<le> unat w" "unat w < 2 ^ 30"
    using assms unat_less_2p [of h] by (auto simp: u)
  have "w - 1 = of_nat (unat w - 1)"
    using b(1) by (simp add: of_nat_diff)
  moreover have "sint (of_nat (unat w - 1) :: u32) = int (unat w - 1)"
    by (rule sint_of_nat_less) (use b in simp)
  ultimately have e: "handle_to_index h = int (unat w - 1)" by (simp add: handle_to_index_def w_def)
  have "MAX_HANDLE_ENTRIES < unat w - 1" using b(1) by (simp add: MAX_HANDLE_ENTRIES_def)
  then show ?thesis unfolding e of_nat_less_iff .
qed

lemma global_handle_index:
  assumes "handle_is_global h"
  shows "handle_to_index h > int MAX_HANDLE_ENTRIES"
  using small_not_global [of h] handle_to_index_large [of h] assms by force

section \<open>Allocation\<close>

lemma kinv_allocs [simp]: "kinv D x (s\<lparr>ks_allocs := k\<rparr>) \<longleftrightarrow> kinv D x s"
  by (rule kinv_cong) simp_all

lemma handle_lookup_allocs [simp]: "handle_lookup q h (s\<lparr>ks_allocs := k\<rparr>) = handle_lookup q h s"
  by (rule handle_lookup_cong) simp_all

lemma handle_lookup_set_error [simp]: "handle_lookup q h (set_error e s) = handle_lookup q h s"
  by (rule handle_lookup_cong) simp_all

text \<open>An allocation that fails changes nothing but the error and the count of memory requests.\<close>

definition only_error :: "kstate \<Rightarrow> kstate \<Rightarrow> bool" where
  "only_error s s' \<longleftrightarrow> s' = s\<lparr>ks_error := ks_error s', ks_allocs := ks_allocs s'\<rparr>"

definition new_handle :: "nat \<Rightarrow> bool \<Rightarrow> nat \<Rightarrow> nat \<Rightarrow> u32 \<Rightarrow> kobject \<Rightarrow> kstate \<Rightarrow> kstate \<Rightarrow> bool" where
  "new_handle q g i p access ob s s' \<longleftrightarrow>
     ks_objs s' = (ks_objs s)(p := Some (ob\<lparr>ko_handle_count := ko_handle_count ob + 1, ko_refcount := ko_refcount ob + 1\<rparr>)) \<and>
     (\<forall>q' h'. handle_lookup q' h' s' =
        (if names_entry h' g i \<and> (g \<or> q' = q) then Some (p, access) else handle_lookup q' h' s))"

lemma alloc_entry_spec:
  assumes k: "kernel_wf s" and t: "get_table q g s = Some t"
    and ob: "ks_objs s p = Some ob" and r: "ko_refcount ob < INT_MAX"
  shows "\<exists>h s'. alloc_entry cx q g p access s = Some (h, s') \<and> kernel_wf s' \<and>
    (h = 0 \<and> ks_error s' = STATUS_INSUFFICIENT_RESOURCES \<and> only_error s s' \<and>
       ((\<forall>i < MAX_HANDLE_ENTRIES. table_map t i \<noteq> None) \<or> \<not> cx_ok cx (ks_allocs s)) \<or>
     (\<exists>i. i < MAX_HANDLE_ENTRIES \<and> h = index_to_handle i \<and> table_map t i = None \<and>
       (\<forall>j < i. table_map t j \<noteq> None) \<and> ks_error s' = ks_error s \<and> new_handle q g i p access ob s s'))"
proof -
  have w: "table_wf t" using k tables_wf_get(1) [OF _ t] by (simp add: kinv_def)
  let ?e = "\<lparr>he_ptr = Some p, he_access = access\<rparr>"
  obtain r' k' where a: "alloc_slot (cx_ok cx) (ks_allocs s) t ?e = (r', k')" by (metis surj_pair)
  show ?thesis
  proof (cases r')
    case None
    then have e: "alloc_entry cx q g p access s =
        Some (0, set_error STATUS_INSUFFICIENT_RESOURCES (s\<lparr>ks_allocs := k'\<rparr>))"
      using a t by (simp add: alloc_entry_def)
    have o: "only_error s (set_error STATUS_INSUFFICIENT_RESOURCES (s\<lparr>ks_allocs := k'\<rparr>))"
      by (simp add: only_error_def set_error_def)
    show ?thesis unfolding e using alloc_slot_None [OF w a [unfolded None]] o k by auto
  next
    case (Some it)
    obtain i t' where it: "it = (i, t')" by (metis surj_pair)
    have a': "alloc_slot (cx_ok cx) (ks_allocs s) t ?e = (Some (i, t'), k')" using a Some it by simp
    have e0: "he_ptr ?e = Some p" by simp
    note A = alloc_slot_spec [OF w e0 a', simplified]
    have k0: "kinv {} (\<lambda>_. 0) (s\<lparr>ks_allocs := k'\<rparr>)" using k by simp
    have ob0: "ks_objs (s\<lparr>ks_allocs := k'\<rparr>) p = Some ob" using ob by simp
    obtain s1 where s1: "grab_object_for_handle cx p (s\<lparr>ks_allocs := k'\<rparr>) = Some s1"
      "kinv {} ((\<lambda>_. 0)(p := 0 + 1)) s1" "ks_handles s1 = ks_handles (s\<lparr>ks_allocs := k'\<rparr>)"
      "ks_global s1 = ks_global (s\<lparr>ks_allocs := k'\<rparr>)" "ks_error s1 = ks_error (s\<lparr>ks_allocs := k'\<rparr>)"
      "ks_objs s1 = (ks_objs (s\<lparr>ks_allocs := k'\<rparr>))(p := Some (ob\<lparr>ko_handle_count := ko_handle_count ob + 1, ko_refcount := ko_refcount ob + 1\<rparr>))"
      using kinv_grab_for_handle [OF k0 ob0 r, of cx] by blast
    have e: "alloc_entry cx q g p access s = Some (index_to_handle i, set_table q g (Some t') s1)"
      using a' t s1(1) by (simp add: alloc_entry_def)
    have t1: "get_table q g s1 = Some t" using t s1(3,4) get_table_cong [of s1 s] by simp
    have "kernel_wf (set_table q g (Some t') s1)"
      by (rule kinv_set_table [OF s1(2) t1, where i = i and v = "Some (p, access)"]) (use A in \<open>auto simp: points_to_def\<close>)
    moreover have "i < MAX_HANDLE_ENTRIES" using A table_wf_bound [of t'] by auto
    moreover have "new_handle q g i p access ob s (set_table q g (Some t') s1)"
    proof -
      have m: "table_map t' = (table_map t)(i := Some (p, access))" using A by auto
      have l: "handle_lookup q' h' s1 = handle_lookup q' h' s" for q' h'
        by (rule handle_lookup_cong) (use s1(3,4) in simp_all)
      show ?thesis unfolding new_handle_def handle_lookup_set_table [OF t1 m] l using s1(6) by simp
    qed
    moreover have "table_map t i = None" "\<forall>j < i. table_map t j \<noteq> None" using A by auto
    ultimately show ?thesis unfolding e using s1(5) by auto
  qed
qed

lemma alloc_handle_entry_spec:
  assumes "kernel_wf s" "ks_objs s p = Some ob" "ko_refcount ob < INT_MAX" "access AND RESERVED_ALL = 0"
  shows "\<exists>h s'. alloc_handle_entry cx q p access attr s = Some (h, s') \<and> kernel_wf s' \<and>
    (if h = 0 then only_error s s' \<and>
       (ks_handles s q = None \<and> ks_error s' = STATUS_PROCESS_IS_TERMINATING \<or>
        ks_error s' = STATUS_INSUFFICIENT_RESOURCES \<and>
          (\<not> cx_ok cx (ks_allocs s) \<or> (\<forall>i < MAX_HANDLE_ENTRIES. handle_lookup q (index_to_handle i) s \<noteq> None)))
     else \<exists>i < MAX_HANDLE_ENTRIES. h = index_to_handle i \<and> handle_lookup q h s = None \<and>
       (\<forall>j < i. handle_lookup q (index_to_handle j) s \<noteq> None) \<and>
       new_handle q False i p (if attr AND OBJ_INHERIT \<noteq> 0 then access OR RESERVED_INHERIT else access) ob s s')"
proof (cases "ks_handles s q")
  case None
  then have e: "alloc_handle_entry cx q p access attr s = Some (0, set_error STATUS_PROCESS_IS_TERMINATING s)"
    using assms(4) by (simp add: alloc_handle_entry_def)
  have o: "only_error s (set_error STATUS_PROCESS_IS_TERMINATING s)" by (simp add: only_error_def set_error_def)
  show ?thesis unfolding e using assms(1) None o by simp
next
  case (Some t)
  let ?a = "if attr AND OBJ_INHERIT \<noteq> 0 then access OR RESERVED_INHERIT else access"
  have t: "get_table q False s = Some t" using Some by (simp add: get_table_def)
  have e: "alloc_handle_entry cx q p access attr s = alloc_entry cx q False p ?a s"
    using assms(4) Some by (simp add: alloc_handle_entry_def Let_def)
  have l: "handle_lookup q (index_to_handle i) s = table_map t i" if "i < MAX_HANDLE_ENTRIES" for i
    using local_handle_not_global [OF that] t by (simp add: handle_lookup_def lookup_table_def)
  obtain h s' where A: "alloc_entry cx q False p ?a s = Some (h, s')" "kernel_wf s'"
    "h = 0 \<and> ks_error s' = STATUS_INSUFFICIENT_RESOURCES \<and> only_error s s' \<and>
       ((\<forall>i < MAX_HANDLE_ENTRIES. table_map t i \<noteq> None) \<or> \<not> cx_ok cx (ks_allocs s)) \<or>
     (\<exists>i. i < MAX_HANDLE_ENTRIES \<and> h = index_to_handle i \<and> table_map t i = None \<and>
       (\<forall>j < i. table_map t j \<noteq> None) \<and> ks_error s' = ks_error s \<and> new_handle q False i p ?a ob s s')"
    using alloc_entry_spec [OF assms(1) t assms(2,3), of cx ?a] by blast
  show ?thesis unfolding e A(1) using A(2)
  proof (intro exI [of _ h] exI [of _ s'] conjI)
    show "if h = 0 then only_error s s' \<and>
       (ks_handles s q = None \<and> ks_error s' = STATUS_PROCESS_IS_TERMINATING \<or>
        ks_error s' = STATUS_INSUFFICIENT_RESOURCES \<and>
          (\<not> cx_ok cx (ks_allocs s) \<or> (\<forall>i < MAX_HANDLE_ENTRIES. handle_lookup q (index_to_handle i) s \<noteq> None)))
     else \<exists>i < MAX_HANDLE_ENTRIES. h = index_to_handle i \<and> handle_lookup q h s = None \<and>
       (\<forall>j < i. handle_lookup q (index_to_handle j) s \<noteq> None) \<and> new_handle q False i p ?a ob s s'"
      using A(3)
    proof
      assume f: "\<exists>i. i < MAX_HANDLE_ENTRIES \<and> h = index_to_handle i \<and> table_map t i = None \<and>
       (\<forall>j < i. table_map t j \<noteq> None) \<and> ks_error s' = ks_error s \<and> new_handle q False i p ?a ob s s'"
      then obtain i where i: "i < MAX_HANDLE_ENTRIES" "h = index_to_handle i" "table_map t i = None"
        "\<forall>j < i. table_map t j \<noteq> None" "new_handle q False i p ?a ob s s'" by blast
      have "\<forall>j < i. handle_lookup q (index_to_handle j) s \<noteq> None" using i(1,4) l by simp
      then show ?thesis using i l [OF i(1)] local_handle_not_global(4) [OF i(1)] by auto
    qed (use l in auto)
  qed simp_all
qed

text \<open>
  C14: allocating a handle in a well-formed state never stops the server and keeps the state well formed.
  On success the handle is new, it is the lowest free one of its process, it names the object with exactly the
  rights asked for (plus the inherit flag), no other handle of any process changes, and the object gains one
  reference and one handle.  On failure nothing changes but the error: the process has no table any more,
  or the table is full, or memory ran out.
\<close>

theorem alloc_handle_entry_correct:
  assumes "kernel_wf s" "ks_objs s p = Some ob" "ko_refcount ob < INT_MAX" "access AND RESERVED_ALL = 0"
  shows "\<exists>h s'. alloc_handle_entry cx q p access attr s = Some (h, s') \<and> kernel_wf s' \<and>
    (if h = 0 then only_error s s' \<and>
       (ks_handles s q = None \<and> ks_error s' = STATUS_PROCESS_IS_TERMINATING \<or>
        ks_error s' = STATUS_INSUFFICIENT_RESOURCES \<and>
          (\<not> cx_ok cx (ks_allocs s) \<or> (\<forall>i < MAX_HANDLE_ENTRIES. handle_lookup q (index_to_handle i) s \<noteq> None)))
     else \<exists>i < MAX_HANDLE_ENTRIES. h = index_to_handle i \<and> handle_lookup q h s = None \<and>
       (\<forall>j < i. handle_lookup q (index_to_handle j) s \<noteq> None) \<and>
       new_handle q False i p (if attr AND OBJ_INHERIT \<noteq> 0 then access OR RESERVED_INHERIT else access) ob s s')"
  using assms by (rule alloc_handle_entry_spec)

section \<open>Closing\<close>

lemma call_close_handle_frame:
  assumes cx: "callbacks_ok cx" and k: "kinv {} x s" and ob: "ks_objs s p = Some ob"
  shows "\<exists>b s'. call_close_handle cx p q h s = Some (b, s') \<and> frame {} s s' \<and> kinv {} x s'"
proof (cases "op_close_handle (cx_ops cx (ko_ops ob))")
  case None
  have "obj_kept (ks_objs s q') (ks_objs s q')" for q'
    using kinv_live [OF k, of q'] by (cases "ks_objs s q'") auto
  then have "frame {} s s" using k by (auto simp: frame_def kinv_def)
  then show ?thesis using None ob k by (auto simp: call_close_handle_def)
next
  case (Some f)
  then obtain b s' where "f p q h s = Some (b, s')" "frame {} s s'"
    using cx k unfolding callbacks_ok_def by blast
  then show ?thesis using Some ob kinv_frame [OF k] by (auto simp: call_close_handle_def)
qed

lemma close_protected:
  assumes l: "handle_lookup q h s = Some (p, a)" and a: "a AND RESERVED_CLOSE_PROTECT \<noteq> 0"
  shows "close_handle cx q h s = Some (STATUS_HANDLE_NOT_CLOSABLE, s)"
proof -
  obtain i where "get_handle q h s = Some (handle_is_global h, i)"
    "entry_at q (handle_is_global h, i) s = Some \<lparr>he_ptr = Some p, he_access = a\<rparr>"
    using handle_lookup_Some [OF l] by metis
  then show ?thesis using a by (simp add: close_handle_def Let_def)
qed

text \<open>Removing the entry of a handle and dropping its reference.\<close>

lemma remove_entry_spec:
  assumes cx: "callbacks_ok cx" and k: "kernel_wf s" and t: "get_table q g s = Some t"
    and m: "table_map t i = Some (p, a)" and ob: "ks_objs s p = Some ob"
  shows "\<exists>t' k' s'. free_slot (cx_ok cx) (ks_allocs s) t (int i) = Some (t', k') \<and>
    release_object_from_handle cx p (set_table q g (Some t') (s\<lparr>ks_allocs := k'\<rparr>)) = Some s' \<and> kernel_wf s' \<and>
    (\<forall>q' h'. handle_lookup q' h' s' = (if names_entry h' g i \<and> (g \<or> q' = q) then None else handle_lookup q' h' s)) \<and>
    ks_objs s' p = (if ko_refcount ob = 1 then None
      else Some (ob\<lparr>ko_handle_count := ko_handle_count ob - 1, ko_refcount := ko_refcount ob - 1\<rparr>)) \<and>
    (\<forall>o'. o' \<noteq> p \<longrightarrow> obj_kept (ks_objs s o') (ks_objs s' o'))"
proof -
  have w: "table_wf t" using k tables_wf_get(1) [OF _ t] by (simp add: kinv_def)
  obtain t' k' where f: "free_slot (cx_ok cx) (ks_allocs s) t (int i) = Some (t', k')" "table_wf t'"
    "table_map t' = (table_map t)(i := None)"
    using free_slot_spec [OF w, of i] m by blast
  let ?s0 = "s\<lparr>ks_allocs := k'\<rparr>" and ?s1 = "set_table q g (Some t') (s\<lparr>ks_allocs := k'\<rparr>)"
  let ?x = "(\<lambda>_. 0)(p := 1) :: nat \<Rightarrow> nat"
  have k0: "kinv {} (\<lambda>_. 0) ?s0" using k by simp
  have t0: "get_table q g ?s0 = Some t" using t get_table_cong [of ?s0 s] by simp
  have k1: "kinv {} ?x ?s1"
    by (rule kinv_set_table [OF k0 t0 f(2,3)]) (use m in \<open>auto simp: points_to_def\<close>)
  have xp: "0 < ?x p" by simp
  obtain s' ob' where s': "ks_objs ?s1 p = Some ob'" "release_object_from_handle cx p ?s1 = Some s'"
    "kinv {} (?x(p := ?x p - 1)) s'" "ks_handles s' = ks_handles ?s1" "ks_global s' = ks_global ?s1"
    "ks_objs s' p = (if ko_refcount ob' = 1 then None
      else Some (ob'\<lparr>ko_handle_count := ko_handle_count ob' - 1, ko_refcount := ko_refcount ob' - 1\<rparr>))"
    "\<forall>o'. o' \<noteq> p \<longrightarrow> obj_kept (ks_objs ?s1 o') (ks_objs s' o')"
    using kinv_release_from_handle [OF cx k1 xp] by blast
  have "ob' = ob" using s'(1) ob by simp
  moreover have "kernel_wf s'" using s'(3) by (simp add: fun_upd_idem)
  moreover have "handle_lookup q' h' s' = (if names_entry h' g i \<and> (g \<or> q' = q) then None else handle_lookup q' h' s)" for q' h'
  proof -
    have "handle_lookup q' h' s' = handle_lookup q' h' ?s1" by (rule handle_lookup_cong [OF s'(4,5)])
    also have "\<dots> = (if names_entry h' g i \<and> (g \<or> q' = q) then None else handle_lookup q' h' ?s0)"
      by (rule handle_lookup_set_table [OF t0 f(3)])
    finally show ?thesis unfolding handle_lookup_allocs .
  qed
  ultimately show ?thesis using f(1) s'(2,6,7) by auto
qed

lemma close_handle_spec:
  assumes "callbacks_ok cx" "kernel_wf s" "\<not> handle_is_global h"
  shows "case handle_lookup q h s of
      None \<Rightarrow> close_handle cx q h s = Some (STATUS_INVALID_HANDLE, s)
    | Some (p, a) \<Rightarrow>
        if a AND RESERVED_CLOSE_PROTECT \<noteq> 0 then close_handle cx q h s = Some (STATUS_HANDLE_NOT_CLOSABLE, s)
        else \<exists>b s1 st s'. call_close_handle cx p q h s = Some (b, s1) \<and> close_handle cx q h s = Some (st, s') \<and>
          kernel_wf s' \<and>
          (if b then st = STATUS_SUCCESS \<and>
             (\<forall>q' h'. handle_lookup q' h' s' =
                (if q' = q \<and> \<not> handle_is_global h' \<and> handle_to_index h' = handle_to_index h then None
                 else handle_lookup q' h' s)) \<and>
             (\<exists>ob. ks_objs s1 p = Some ob \<and> ks_objs s' p = (if ko_refcount ob = 1 then None
                else Some (ob\<lparr>ko_handle_count := ko_handle_count ob - 1, ko_refcount := ko_refcount ob - 1\<rparr>)))
           else st = STATUS_HANDLE_NOT_CLOSABLE \<and> s' = s1 \<and> (\<forall>q' h'. handle_lookup q' h' s' = handle_lookup q' h' s))"
proof (cases "handle_lookup q h s")
  case None
  then show ?thesis using get_handle_None [of q h s] by (simp add: close_handle_def Let_def)
next
  case (Some pa)
  obtain p a where pa: "pa = (p, a)" by (metis surj_pair)
  have l: "handle_lookup q h s = Some (p, a)" using Some pa by simp
  obtain t i where t: "get_table q False s = Some t" "handle_to_index h = int i" "table_map t i = Some (p, a)"
    "get_handle q h s = Some (False, i)" "entry_at q (False, i) s = Some \<lparr>he_ptr = Some p, he_access = a\<rparr>"
    using handle_lookup_Some [OF l] assms(3) by (auto simp: local_part_def)
  show ?thesis
  proof (cases "a AND RESERVED_CLOSE_PROTECT = 0")
    case False
    then show ?thesis using t(4,5) l by (simp add: close_handle_def Let_def)
  next
    case True
    obtain ob where ob: "ks_objs s p = Some ob" "0 < ko_handle_count ob" using handle_lookup_live [OF assms(2) l] .
    obtain b s1 where c: "call_close_handle cx p q h s = Some (b, s1)" "frame {} s s1" "kernel_wf s1"
      using call_close_handle_frame [OF assms(1,2) ob(1)] by blast
    have h1: "ks_handles s1 = ks_handles s" "ks_global s1 = ks_global s" using c(2) by (auto simp: frame_def)
    have l1: "handle_lookup q' h' s1 = handle_lookup q' h' s" for q' h' by (rule handle_lookup_cong [OF h1])
    show ?thesis
    proof (cases b)
      case False
      then have "close_handle cx q h s = Some (STATUS_HANDLE_NOT_CLOSABLE, s1)"
        using t(4,5) True c(1) by (simp add: close_handle_def Let_def)
      then show ?thesis using l True c False l1 by auto
    next
      case b: True
      have t1: "get_table q False s1 = Some t" using t(1) get_table_cong [OF h1] by simp
      obtain ob1 where ob1: "ks_objs s1 p = Some ob1"
      proof -
        have "obj_kept (ks_objs s p) (ks_objs s1 p)" using c(2) by (simp add: frame_def)
        then show thesis using ob that by (cases "ks_objs s1 p") auto
      qed
      obtain t' k' s' where r: "free_slot (cx_ok cx) (ks_allocs s1) t (int i) = Some (t', k')"
        "release_object_from_handle cx p (set_table q False (Some t') (s1\<lparr>ks_allocs := k'\<rparr>)) = Some s'" "kernel_wf s'"
        "\<forall>q' h'. handle_lookup q' h' s' = (if names_entry h' False i \<and> (False \<or> q' = q) then None else handle_lookup q' h' s1)"
        "ks_objs s' p = (if ko_refcount ob1 = 1 then None
          else Some (ob1\<lparr>ko_handle_count := ko_handle_count ob1 - 1, ko_refcount := ko_refcount ob1 - 1\<rparr>))"
        using remove_entry_spec [OF assms(1) c(3) t1 t(3) ob1] by blast
      have e: "close_handle cx q h s = Some (STATUS_SUCCESS, s')"
        using t(2,4,5) True c(1) b r(1,2) t1 assms(3) by (simp add: close_handle_def Let_def)
      have n: "names_entry h' False i \<longleftrightarrow> \<not> handle_is_global h' \<and> handle_to_index h' = handle_to_index h" for h'
        using t(2) by (auto simp: names_entry_def local_part_def)
      have "\<forall>q' h'. handle_lookup q' h' s' =
          (if q' = q \<and> \<not> handle_is_global h' \<and> handle_to_index h' = handle_to_index h then None else handle_lookup q' h' s)"
        using r(4) by (simp add: n l1)
      then show ?thesis unfolding l option.case prod.case using True c(1) e b r(3,5) ob1 by auto
    qed
  qed
qed


text \<open>
  C36: closing a global handle.  The index of the entry is computed from the handle before it is
  converted to its local form, so for every global handle that is valid and may be closed the store that clears
  the entry falls outside the table.
\<close>

theorem close_global_handle_out_of_bounds:
  assumes "callbacks_ok cx" "kernel_wf s" "handle_is_global h" "handle_lookup q h s = Some (p, a)"
    "a AND RESERVED_CLOSE_PROTECT = 0" "map_option fst (call_close_handle cx p q h s) = Some True"
  shows "close_handle cx q h s = None"
proof -
  obtain t i where t: "get_table q True s = Some t" "get_handle q h s = Some (True, i)"
    "entry_at q (True, i) s = Some \<lparr>he_ptr = Some p, he_access = a\<rparr>"
    using handle_lookup_Some [OF assms(4), simplified assms(3)] by blast
  obtain ob where ob: "ks_objs s p = Some ob" using handle_lookup_live [OF assms(2,4)] .
  obtain b s1 where c: "call_close_handle cx p q h s = Some (b, s1)" "frame {} s s1" "kernel_wf s1"
    using call_close_handle_frame [OF assms(1,2) ob] by blast
  have b: b using c(1) assms(6) by simp
  have t1: "get_table q True s1 = Some t" using t(1) c(2) by (simp add: get_table_def frame_def)
  have "table_wf t" using c(3) tables_wf_get(1) [OF _ t1] by (simp add: kinv_def)
  then have "handle_to_index h > ht_last t" using global_handle_index [OF assms(3)] table_wf_bound [of t] by linarith
  then have "free_slot (cx_ok cx) (ks_allocs s1) t (handle_to_index h) = None" by (simp add: free_slot_def)
  then show ?thesis using t(2,3) assms(3,5) c(1) b t1 by (simp add: close_handle_def Let_def)
qed

section \<open>Taking down a process\<close>

definition entry_refs :: "handle_entry list \<Rightarrow> nat \<Rightarrow> nat" where
  "entry_refs es p = length (filter (\<lambda>e. he_ptr e = Some p) es)"

lemma entry_refs_simps [simp]:
  "entry_refs [] p = 0"
  "entry_refs (e # es) p = (if he_ptr e = Some p then 1 else 0) + entry_refs es p"
  by (simp_all add: entry_refs_def)

lemma refs_in_entry_refs: "refs_in (Some t) p = entry_refs (ht_entries t) p"
  by (simp add: entry_refs_def)

lemma handle_table_destroy_spec:
  assumes "callbacks_ok cx" "kinv {} (\<lambda>p. y p + entry_refs es p) s"
  shows "\<exists>s'. handle_table_destroy cx process i es s = Some s' \<and> kinv {} y s' \<and>
    ks_handles s' = ks_handles s \<and> ks_global s' = ks_global s \<and> ks_procs s' = ks_procs s"
  using assms(2)
proof (induction es arbitrary: i s)
  case (Cons e es)
  show ?case
  proof (cases "he_ptr e")
    case None
    then have "kinv {} (\<lambda>p. y p + entry_refs es p) s" using Cons.prems by simp
    then show ?thesis using Cons.IH [of s "Suc i"] None by simp
  next
    case (Some p)
    let ?x = "\<lambda>r. y r + entry_refs (e # es) r"
    have "obj_ok (handle_refs s p + ?x p) (ks_objs s p)" using Cons.prems by (simp add: kinv_def)
    then obtain ob where ob: "ks_objs s p = Some ob" using Some by (cases "ks_objs s p") auto
    obtain s1 where s1: "(case process of None \<Rightarrow> Some s
        | Some q \<Rightarrow> map_option snd (call_close_handle cx p q (index_to_handle i) s)) = Some s1"
      "kinv {} ?x s1" "ks_handles s1 = ks_handles s" "ks_global s1 = ks_global s" "ks_procs s1 = ks_procs s"
    proof (cases process)
      case (Some q)
      then show ?thesis using call_close_handle_frame [OF assms(1) Cons.prems ob, of q "index_to_handle i"] that
        by (auto simp: frame_def)
    qed (use Cons.prems that in auto)
    have xp: "0 < ?x p" using Some by simp
    obtain s2 where s2: "release_object_from_handle cx p s1 = Some s2" "kinv {} (?x(p := ?x p - 1)) s2"
      "ks_handles s2 = ks_handles s1" "ks_global s2 = ks_global s1" "ks_procs s2 = ks_procs s1"
      using kinv_release_from_handle [OF assms(1) s1(2) xp] by blast
    have "?x(p := ?x p - 1) = (\<lambda>r. y r + entry_refs es r)" using Some by (auto simp: fun_eq_iff)
    then have k2: "kinv {} (\<lambda>r. y r + entry_refs es r) s2" using s2(2) by (simp only:)
    obtain s' where s': "handle_table_destroy cx process (Suc i) es s2 = Some s'" "kinv {} y s'"
      "ks_handles s' = ks_handles s2" "ks_global s' = ks_global s2" "ks_procs s' = ks_procs s2"
      using Cons.IH [OF k2, of "Suc i"] by blast
    have "handle_table_destroy cx process i (e # es) s = Some s'" using Some s1(1) s2(1) s'(1) by simp
    then show ?thesis using s' s2(3-5) s1(3-5) by simp
  qed
qed simp

lemma kinv_drop_table:
  assumes k: "kinv D x s" and t: "get_table q g s = Some t"
  shows "kinv D (\<lambda>p. x p + entry_refs (ht_entries t) p) (set_table q g None s)"
proof -
  have tw: "tables_wf s" using k by (simp add: kinv_def)
  note T = tables_wf_get [OF tw t]
  have "handle_refs (set_table q g None s) p + (x p + entry_refs (ht_entries t) p) = handle_refs s p + x p" for p
    using handle_refs_set_table [OF T(3,2), of None p] t refs_in_entry_refs [of t p] by simp
  moreover have "tables_wf (set_table q g None s)" by (rule tables_wf_set_table [OF tw T(2)]) simp
  ultimately show ?thesis using k by (simp only: kinv_def set_table_simps) simp
qed

lemma close_process_handles_spec:
  assumes "callbacks_ok cx" "kernel_wf s"
  shows "\<exists>s'. close_process_handles cx q s = Some s' \<and> kernel_wf s' \<and> ks_handles s' q = None \<and>
    (\<forall>q' h. handle_lookup q' h s' = (if q' = q \<and> \<not> handle_is_global h then None else handle_lookup q' h s))"
proof (cases "ks_handles s q")
  case None
  then have s: "set_table q False None s = s" by (simp add: set_table_def fun_upd_idem)
  then have "close_process_handles cx q s = Some s" using None by (simp add: close_process_handles_def)
  moreover have "handle_lookup q h s = None" if "\<not> handle_is_global h" for h
    using None that by (simp add: handle_lookup_def get_table_def lookup_table_def)
  ultimately show ?thesis using assms None by auto
next
  case (Some t)
  let ?s1 = "set_table q False None s"
  have "kinv {} (\<lambda>p. 0 + entry_refs (ht_entries t) p) ?s1"
    by (rule kinv_drop_table [OF assms(2)]) (use Some in \<open>simp add: get_table_def\<close>)
  then obtain s' where s': "handle_table_destroy cx (Some q) 0 (ht_entries t) ?s1 = Some s'" "kernel_wf s'"
    "ks_handles s' = ks_handles ?s1" "ks_global s' = ks_global ?s1"
    using handle_table_destroy_spec [OF assms(1), of "\<lambda>_. 0" "ht_entries t" ?s1 "Some q" 0] by blast
  have "handle_lookup q' h s' = (if q' = q \<and> \<not> handle_is_global h then None else handle_lookup q' h s)" for q' h
    unfolding handle_lookup_cong [OF s'(3,4)]
    by (auto simp: handle_lookup_def get_set_table lookup_table_def)
  then show ?thesis using s' Some by (auto simp: close_process_handles_def set_table_def)
qed


section \<open>Looking up an object\<close>

lemma get_handle_obj_spec:
  assumes "kernel_wf s" "get_magic_handle cx h = None"
    "\<forall>p a ob. handle_lookup q h s = Some (p, a) \<and> ks_objs s p = Some ob \<longrightarrow> ko_refcount ob < INT_MAX"
  shows "\<exists>r s'. get_handle_obj cx q h access ops s = Some (r, s') \<and> kernel_wf s' \<and>
    (case handle_lookup q h s of
       None \<Rightarrow> r = None \<and> s' = set_error STATUS_INVALID_HANDLE s
     | Some (p, a) \<Rightarrow> \<exists>ob. ks_objs s p = Some ob \<and>
         (if ops \<noteq> None \<and> ops \<noteq> Some (ko_ops ob) then r = None \<and> s' = set_error STATUS_OBJECT_TYPE_MISMATCH s
          else if a AND access \<noteq> access then r = None \<and> s' = set_error STATUS_ACCESS_DENIED s
          else r = Some p \<and> s' = set_obj p (Some (ob\<lparr>ko_refcount := ko_refcount ob + 1\<rparr>)) s))"
proof (cases "handle_lookup q h s")
  case None
  then show ?thesis using assms(1,2) get_handle_None [of q h s] by (auto simp: get_handle_obj_def)
next
  case (Some pa)
  obtain p a where pa: "pa = (p, a)" by (metis surj_pair)
  have l: "handle_lookup q h s = Some (p, a)" using Some pa by simp
  obtain i where i: "get_handle q h s = Some (handle_is_global h, i)"
    "entry_at q (handle_is_global h, i) s = Some \<lparr>he_ptr = Some p, he_access = a\<rparr>"
    using handle_lookup_Some [OF l] by metis
  obtain ob where ob: "ks_objs s p = Some ob" using handle_lookup_live [OF assms(1) l] .
  have g: "grab_object p s = Some (set_obj p (Some (ob\<lparr>ko_refcount := ko_refcount ob + 1\<rparr>)) s)"
    by (rule grab_object_Some [OF ob]) (use assms(3) l ob in blast)
  have k: "kernel_wf (set_obj p (Some (ob\<lparr>ko_refcount := ko_refcount ob + 1\<rparr>)) s)"
    by (rule kinv_grab_object [OF assms(1) _ g]) simp
  show ?thesis unfolding l option.case prod.case using assms(1,2) i ob g k
    by (auto simp: get_handle_obj_def)
qed

text \<open>
  C25: looking up the object of a handle that is not a pseudo-handle.  The checks come in the order handle, type,
  access; the object is returned exactly when the handle is valid, the object has the type asked for
  and every right asked for was granted to the handle; a returned object has one more reference and its handle
  count and all handles are unchanged; on an error only the error code changes.
\<close>

theorem get_handle_obj_correct:
  assumes "kernel_wf s" "get_magic_handle cx h = None"
    "\<forall>p a ob. handle_lookup q h s = Some (p, a) \<and> ks_objs s p = Some ob \<longrightarrow> ko_refcount ob < INT_MAX"
  shows "\<exists>r s'. get_handle_obj cx q h access ops s = Some (r, s') \<and> kernel_wf s' \<and>
    (case handle_lookup q h s of
       None \<Rightarrow> r = None \<and> s' = set_error STATUS_INVALID_HANDLE s
     | Some (p, a) \<Rightarrow> \<exists>ob. ks_objs s p = Some ob \<and>
         (if ops \<noteq> None \<and> ops \<noteq> Some (ko_ops ob) then r = None \<and> s' = set_error STATUS_OBJECT_TYPE_MISMATCH s
          else if a AND access \<noteq> access then r = None \<and> s' = set_error STATUS_ACCESS_DENIED s
          else r = Some p \<and> s' = set_obj p (Some (ob\<lparr>ko_refcount := ko_refcount ob + 1\<rparr>)) s))"
  using assms by (rule get_handle_obj_spec)

section \<open>Flags\<close>

lemma set_access_spec:
  assumes k: "kinv D x s" and t: "get_table q g s = Some t" and m: "table_map t i = Some (p, a)"
  shows "\<exists>s'. set_access q (g, i) b s = Some s' \<and> kinv D x s' \<and> ks_objs s' = ks_objs s \<and> ks_error s' = ks_error s \<and>
    (\<forall>q' h'. handle_lookup q' h' s' = (if names_entry h' g i \<and> (g \<or> q' = q) then Some (p, b) else handle_lookup q' h' s))"
proof -
  let ?t = "t\<lparr>ht_entries := (ht_entries t)[i := (ht_entries t ! i)\<lparr>he_access := b\<rparr>]\<rparr>"
  have i: "i < length (ht_entries t)" "he_ptr (ht_entries t ! i) = Some p" using m by (auto simp: table_map_Some)
  have e: "set_access q (g, i) b s = Some (set_table q g (Some ?t) s)" using t i by (simp add: set_access_def)
  have w: "table_wf t" using k tables_wf_get(1) [OF _ t] by (simp add: kinv_def)
  have w': "table_wf ?t" using w i by (auto simp: table_wf_def nth_list_update last_list_update)
  have m': "table_map ?t = (table_map t)(i := Some (p, b))"
    using i by (auto simp: table_map_def fun_eq_iff nth_list_update)
  have "kinv D x (set_table q g (Some ?t) s)"
    by (rule kinv_set_table [OF k t w' m']) (use m in \<open>simp add: points_to_def\<close>)
  then show ?thesis unfolding e using handle_lookup_set_table [OF t m'] by simp
qed

lemma flags_keep_rights:
  "(((a :: u32) AND NOT (x AND RESERVED_ALL)) OR (y AND (x AND RESERVED_ALL))) AND NOT RESERVED_ALL = a AND NOT RESERVED_ALL"
  by (rule bit_word_eqI) (auto simp: bit_simps)

lemma set_handle_flags_spec:
  fixes msk flags :: u32
  assumes k: "kinv {} x s" and mg: "get_magic_handle cx h = None" and l: "handle_lookup q h s = Some (p, a)"
  defines "m \<equiv> push_bit RESERVED_SHIFT msk AND RESERVED_ALL"
  defines "a' \<equiv> (a AND NOT m) OR (push_bit RESERVED_SHIFT flags AND m)"
  shows "\<exists>s'. set_handle_flags cx q h msk flags s = Some (drop_bit RESERVED_SHIFT (a AND RESERVED_ALL), s') \<and> kinv {} x s' \<and>
    ks_objs s' = ks_objs s \<and> a' AND NOT RESERVED_ALL = a AND NOT RESERVED_ALL \<and>
    (\<forall>q' h'. handle_lookup q' h' s' =
       (if handle_is_global h' = handle_is_global h \<and> handle_to_index (local_part h') = handle_to_index (local_part h) \<and>
           (handle_is_global h \<or> q' = q)
        then Some (p, a') else handle_lookup q' h' s))"
proof -
  obtain t i where t: "get_table q (handle_is_global h) s = Some t" "handle_to_index (local_part h) = int i"
    "table_map t i = Some (p, a)" "get_handle q h s = Some (handle_is_global h, i)"
    "entry_at q (handle_is_global h, i) s = Some \<lparr>he_ptr = Some p, he_access = a\<rparr>"
    using handle_lookup_Some [OF l] .
  obtain s' where s': "set_access q (handle_is_global h, i) a' s = Some s'" "kinv {} x s'" "ks_objs s' = ks_objs s"
    "\<forall>q' h'. handle_lookup q' h' s' = (if names_entry h' (handle_is_global h) i \<and> (handle_is_global h \<or> q' = q)
       then Some (p, a') else handle_lookup q' h' s)"
    using set_access_spec [OF k t(1,3)] by blast
  have e: "set_handle_flags cx q h msk flags s = Some (drop_bit RESERVED_SHIFT (a AND RESERVED_ALL), s')"
    using mg t(4,5) s'(1) by (simp add: set_handle_flags_def Let_def a'_def m_def)
  have r: "a' AND NOT RESERVED_ALL = a AND NOT RESERVED_ALL" unfolding a'_def m_def by (rule flags_keep_rights)
  show ?thesis by (rule exI [of _ s']) (use e s'(2-4) r t(2) in \<open>simp add: names_entry_def conj_ac\<close>)
qed

text \<open>
  C26: changing the flags of a handle that is not a pseudo-handle.  The old flags are returned; exactly the
  flags in the mask change, to the values asked for; the access rights, the object and all other handles
  stay as they are; and a handle that was given the protect-from-close flag cannot be closed.
\<close>

theorem set_handle_flags_correct:
  assumes "kernel_wf s" "get_magic_handle cx h = None" "handle_lookup q h s = Some (p, a)"
  shows "\<exists>s' a'. set_handle_flags cx q h msk flags s = Some (drop_bit RESERVED_SHIFT (a AND RESERVED_ALL), s') \<and>
    kernel_wf s' \<and> ks_objs s' = ks_objs s \<and> handle_lookup q h s' = Some (p, a') \<and>
    a' AND NOT RESERVED_ALL = a AND NOT RESERVED_ALL \<and>
    (\<forall>f \<in> {26, 27}. bit a' f = (if bit msk (f - 26) then bit flags (f - 26) else bit a f)) \<and>
    (\<forall>q' h'. handle_to_index (local_part h') \<noteq> handle_to_index (local_part h) \<longrightarrow>
       handle_lookup q' h' s' = handle_lookup q' h' s) \<and>
    (bit msk 1 \<and> bit flags 1 \<longrightarrow> close_handle cx q h s' = Some (STATUS_HANDLE_NOT_CLOSABLE, s'))"
proof -
  let ?m = "push_bit RESERVED_SHIFT msk AND RESERVED_ALL"
  let ?a = "(a AND NOT ?m) OR (push_bit RESERVED_SHIFT flags AND ?m)"
  obtain s' where s': "set_handle_flags cx q h msk flags s = Some (drop_bit RESERVED_SHIFT (a AND RESERVED_ALL), s')"
    "kernel_wf s'" "ks_objs s' = ks_objs s" "?a AND NOT RESERVED_ALL = a AND NOT RESERVED_ALL"
    "\<forall>q' h'. handle_lookup q' h' s' =
       (if handle_is_global h' = handle_is_global h \<and> handle_to_index (local_part h') = handle_to_index (local_part h) \<and>
           (handle_is_global h \<or> q' = q)
        then Some (p, ?a) else handle_lookup q' h' s)"
    using set_handle_flags_spec [OF assms, where msk = msk and flags = flags] by blast
  have l: "handle_lookup q h s' = Some (p, ?a)" using s'(5) by simp
  have R: "bit RESERVED_ALL 26" "bit RESERVED_ALL 27" "bit RESERVED_CLOSE_PROTECT 27"
    by (simp_all add: RESERVED_ALL_def RESERVED_INHERIT_def RESERVED_CLOSE_PROTECT_def RESERVED_SHIFT_def
        push_bit_eq_mult bit_numeral_rec)
  have b: "\<forall>f \<in> {26, 27}. bit ?a f = (if bit msk (f - 26) then bit flags (f - 26) else bit a f)"
    using R by (auto simp: bit_simps RESERVED_SHIFT_def)
  have c: "close_handle cx q h s' = Some (STATUS_HANDLE_NOT_CLOSABLE, s')" if "bit msk 1 \<and> bit flags 1"
  proof -
    have "bit (?a AND RESERVED_CLOSE_PROTECT) 27" using b that R by (simp add: bit_and_iff)
    then have "?a AND RESERVED_CLOSE_PROTECT \<noteq> 0" by (metis bit_0_eq bot_apply bot_bool_def)
    then show ?thesis by (rule close_protected [OF l])
  qed
  show ?thesis by (intro exI [of _ s'] exI [of _ ?a] conjI) (use s' l b c in auto)
qed

end
