(* ===== verification/Handle_Sharing.thy ===== *)
theory Handle_Sharing
  imports Handle_Laws
begin

unbundle bit_operations_syntax

text \<open>
  How handles spread: duplication between processes, inheritance by a new process and the listing of all
  handles of the system.
\<close>

section \<open>Duplication\<close>

lemma small_not_magic: "unat h < 2 ^ 30 \<Longrightarrow> get_magic_handle cx h = None"
  by (auto simp: get_magic_handle_def)

lemma index_not_magic: "i < MAX_HANDLE_ENTRIES \<Longrightarrow> get_magic_handle cx (index_to_handle i) = None"
  by (rule small_not_magic, subst unat_index_to_handle) (simp_all add: MAX_HANDLE_ENTRIES_def)

lemma clear_reserved: "((a :: u32) AND NOT RESERVED_ALL) AND RESERVED_ALL = 0"
  by (rule bit_word_eqI) (auto simp: bit_simps)

lemma clear_reserved_idem: "((a :: u32) AND NOT RESERVED_ALL) AND NOT RESERVED_ALL = a AND NOT RESERVED_ALL"
  by (rule bit_word_eqI) (auto simp: bit_simps)

lemma inherit_is_reserved: "((a :: u32) OR RESERVED_INHERIT) AND NOT RESERVED_ALL = a AND NOT RESERVED_ALL"
  by (rule bit_word_eqI) (auto simp: bit_simps RESERVED_ALL_def)

text \<open>The end of a duplication: copying the flags and dropping the temporary reference.\<close>

lemma dup_finish:
  assumes cx: "callbacks_ok cx" and k: "kernel_wf s" and l: "handle_lookup d res s = Some (p, a)"
    and mg: "get_magic_handle cx res = None"
    and ob: "ks_objs s p = Some ob" "ko_handle_count ob < ko_refcount ob"
  shows "\<exists>s3 s4 a'. dup_attributes cx (Some d) res f options s = Some s3 \<and>
    release_object cx p s3 = Some s4 \<and> kernel_wf s4 \<and> handle_lookup d res s4 = Some (p, a') \<and>
    a' AND NOT RESERVED_ALL = a AND NOT RESERVED_ALL"
proof -
  obtain s3 a' where s3: "dup_attributes cx (Some d) res f options s = Some s3"
    "kernel_wf s3" "ks_objs s3 = ks_objs s" "handle_lookup d res s3 = Some (p, a')"
    "a' AND NOT RESERVED_ALL = a AND NOT RESERVED_ALL"
  proof (cases "res \<noteq> 0 \<and> options AND DUPLICATE_SAME_ATTRIBUTES \<noteq> 0")
    case True
    let ?m = "push_bit RESERVED_SHIFT (- 1 :: u32) AND RESERVED_ALL"
    obtain s3 where s3: "set_handle_flags cx d res (- 1) f s = Some (drop_bit RESERVED_SHIFT (a AND RESERVED_ALL), s3)"
      "kernel_wf s3" "ks_objs s3 = ks_objs s"
      "((a AND NOT ?m) OR
        (push_bit RESERVED_SHIFT f AND ?m)) AND NOT RESERVED_ALL = a AND NOT RESERVED_ALL"
      "handle_lookup d res s3 = Some (p, (a AND NOT ?m) OR
        (push_bit RESERVED_SHIFT f AND ?m))"
      using set_handle_flags_spec [OF k mg l, where msk = "- 1" and flags = f] by auto
    show thesis by (rule that [OF _ s3(2,3,5,4)]) (use True s3(1) in \<open>simp add: dup_attributes_def\<close>)
  next
    case False
    show thesis by (rule that [OF _ k refl l refl]) (use False in \<open>auto simp: dup_attributes_def\<close>)
  qed
  have ob3: "ks_objs s3 p = Some ob" using s3(3) ob by simp
  obtain s4 where s4: "release_object cx p s3 = Some s4" "kernel_wf s4" "ks_handles s4 = ks_handles s3" "ks_global s4 = ks_global s3"
    using release_object_spec [OF cx s3(2) ob3 ob(2)] by blast
  have "handle_lookup d res s4 = Some (p, a')" using handle_lookup_cong [OF s4(3,4)] s3(4) by simp
  then show ?thesis using s3(1,5) s4(1,2) by blast
qed

text \<open>A duplication that fails after the object was found drops the temporary reference only.\<close>

lemma dup_fail:
  assumes cx: "callbacks_ok cx" and k: "kernel_wf s" and ob: "ks_objs s p = Some ob" "ko_handle_count ob < ko_refcount ob"
  shows "\<exists>s4. release_object cx p s = Some s4 \<and> kernel_wf s4"
  using release_object_spec [OF cx k ob] by blast

lemma only_error_objs: "only_error s s' \<Longrightarrow> ks_objs s' = ks_objs s"
  unfolding only_error_def by (erule ssubst) simp

lemma alloc_rights:
  assumes k: "kernel_wf s" and ob: "ks_objs s p = Some ob" "ko_refcount ob < INT_MAX" and a: "access AND RESERVED_ALL = 0"
  shows "\<exists>h s'. alloc_handle_entry cx q p access attr s = Some (h, s') \<and> kernel_wf s' \<and>
    (\<exists>ob'. ks_objs s' p = Some ob' \<and> int (ko_refcount ob') - int (ko_handle_count ob') = int (ko_refcount ob) - int (ko_handle_count ob)) \<and>
    (h \<noteq> 0 \<longrightarrow> get_magic_handle cx h = None \<and>
      (\<exists>a'. handle_lookup q h s' = Some (p, a') \<and> a' AND NOT RESERVED_ALL = access AND NOT RESERVED_ALL))"
proof -
  let ?a = "if attr AND OBJ_INHERIT \<noteq> 0 then access OR RESERVED_INHERIT else access"
  have i: "?a AND NOT RESERVED_ALL = access AND NOT RESERVED_ALL" using inherit_is_reserved by simp
  obtain h s' where A: "alloc_handle_entry cx q p access attr s = Some (h, s')" "kernel_wf s'"
    "h = 0 \<Longrightarrow> only_error s s'"
    "h \<noteq> 0 \<Longrightarrow> \<exists>i < MAX_HANDLE_ENTRIES. h = index_to_handle i \<and> new_handle q False i p ?a ob s s'"
    using alloc_handle_entry_spec [OF k ob a, of cx q attr] by (auto split: if_splits)
  show ?thesis
  proof (cases "h = 0")
    case True
    then have "ks_objs s' p = Some ob" using only_error_objs [OF A(3)] ob(1) by simp
    then show ?thesis using A(1,2) True by auto
  next
    case False
    then obtain i where i: "i < MAX_HANDLE_ENTRIES" "h = index_to_handle i" "new_handle q False i p ?a ob s s'"
      using A(4) by blast
    have "handle_lookup q h s' = Some (p, ?a)"
      using i local_handle_not_global [OF i(1)] by (simp add: new_handle_def names_entry_def)
    moreover have "ks_objs s' p = Some (ob\<lparr>ko_handle_count := ko_handle_count ob + 1, ko_refcount := ko_refcount ob + 1\<rparr>)"
      using i(3) by (simp add: new_handle_def)
    ultimately show ?thesis using A(1,2) index_not_magic [OF i(1)] i(2) \<open>?a AND NOT RESERVED_ALL = access AND NOT RESERVED_ALL\<close>
      by auto
  qed
qed

text \<open>
  Making the new handle, when the destination is a process: the state stays well formed, the temporary
  reference is kept, and the rights of a handle that is made are those of the source or were checked.
\<close>

lemma dup_alloc_spec:
  assumes k: "kernel_wf s1" and l: "handle_lookup src h s1 = Some (p, a)" and mg: "get_magic_handle cx h = None"
    and loc: "get_handle src h s1 = Some loc"
    and ob: "ks_objs s1 p = Some ob" "ko_refcount ob < INT_MAX" "ko_handle_count ob < ko_refcount ob"
    and g: "options AND DUPLICATE_MAKE_GLOBAL = 0" and a1: "access1 AND RESERVED_ALL = 0"
  shows "\<exists>res s2 ob2. dup_alloc cx src h (Some d) p (Some loc) a access1 attr options s1 = Some (res, s2) \<and> kernel_wf s2 \<and>
    ks_objs s2 p = Some ob2 \<and> ko_handle_count ob2 < ko_refcount ob2 \<and>
    (res \<noteq> 0 \<longrightarrow> get_magic_handle cx res = None \<and>
      (\<exists>a'. handle_lookup d res s2 = Some (p, a') \<and>
        (if access1 AND NOT (a AND NOT RESERVED_ALL) \<noteq> 0 then check_more_access cx d p access1 \<noteq> None
         else a' AND NOT RESERVED_ALL = access1 AND NOT RESERVED_ALL)))"
proof -
  have alloc: "\<exists>res s2 ob2. alloc_handle_entry cx d p acc attr s1 = Some (res, s2) \<and> kernel_wf s2 \<and>
      ks_objs s2 p = Some ob2 \<and> ko_handle_count ob2 < ko_refcount ob2 \<and>
      (res \<noteq> 0 \<longrightarrow> get_magic_handle cx res = None \<and>
        (\<exists>a'. handle_lookup d res s2 = Some (p, a') \<and> a' AND NOT RESERVED_ALL = acc AND NOT RESERVED_ALL))"
    if "acc AND RESERVED_ALL = 0" for acc
    using alloc_rights [OF k ob(1,2) that, of cx d attr] ob(3) by force
  show ?thesis
  proof (cases "access1 AND NOT (a AND NOT RESERVED_ALL) = 0")
    case more: False
    show ?thesis
    proof (cases "check_more_access cx d p access1")
      case None
      then have e: "dup_alloc cx src h (Some d) p (Some loc) a access1 attr options s1 = Some (0, set_error STATUS_ACCESS_DENIED s1)"
        using more by (simp only: dup_alloc_def option.case if_True not_False_eq_True)
      show ?thesis unfolding e using k ob by simp
    next
      case (Some access2)
      obtain acc where acc: "map_obj_access cx p (if access2 AND MAXIMUM_ALLOWED \<noteq> 0 then GENERIC_ALL else access2) s1 = Some acc"
        using ob(1) by (simp add: map_obj_access_def)
      have e: "dup_alloc cx src h (Some d) p (Some loc) a access1 attr options s1 =
          alloc_handle_entry cx d p (acc AND NOT RESERVED_ALL) attr s1"
        using more Some g acc
        by (simp only: dup_alloc_def alloc_handle_no_access_check_def option.case if_True if_False not_False_eq_True
            Let_def simp_thms bind.bind_lunit)
      show ?thesis unfolding e using alloc [OF clear_reserved [of acc]] more Some by auto
    qed
  next
    case le: True
    show ?thesis
    proof (cases "options AND DUPLICATE_CLOSE_SOURCE \<noteq> 0 \<and> src = d \<and> a AND RESERVED_CLOSE_PROTECT = 0")
      case True
      let ?b = "if attr AND OBJ_INHERIT \<noteq> 0 then access1 OR RESERVED_INHERIT else access1"
      obtain t i where t: "get_table src (handle_is_global h) s1 = Some t" "handle_to_index (local_part h) = int i"
        "table_map t i = Some (p, a)" "get_handle src h s1 = Some (handle_is_global h, i)"
        using handle_lookup_Some [OF l] by metis
      obtain s2 where s2: "set_access src (handle_is_global h, i) ?b s1 = Some s2" "kernel_wf s2" "ks_objs s2 = ks_objs s1"
        "\<forall>q' h'. handle_lookup q' h' s2 = (if names_entry h' (handle_is_global h) i \<and> (handle_is_global h \<or> q' = src)
           then Some (p, ?b) else handle_lookup q' h' s1)"
        using set_access_spec [OF k t(1,3), of ?b] by blast
      have lo: "loc = (handle_is_global h, i)" using loc t(4) by simp
      have e: "dup_alloc cx src h (Some d) p (Some loc) a access1 attr options s1 = Some (h, s2)"
        unfolding dup_alloc_def using le True g s2(1) by (simp add: lo)
      have "handle_lookup d h s2 = Some (p, ?b)" using s2(4) True t(2) by (simp add: names_entry_def)
      moreover have "?b AND NOT RESERVED_ALL = access1 AND NOT RESERVED_ALL" using inherit_is_reserved by simp
      ultimately show ?thesis unfolding e using s2(2,3) ob mg le by auto
    next
      case False
      have e: "dup_alloc cx src h (Some d) p (Some loc) a access1 attr options s1 = alloc_handle_entry cx d p access1 attr s1"
        using le False g by (auto simp: dup_alloc_def)
      show ?thesis unfolding e using alloc [OF a1] le by auto
    qed
  qed
qed


section \<open>Inheritance\<close>

definition inheritable :: "(nat \<times> u32) option \<Rightarrow> (nat \<times> u32) option" where
  "inheritable v = (case v of None \<Rightarrow> None | Some (p, a) \<Rightarrow> if a AND RESERVED_INHERIT \<noteq> 0 then Some (p, a) else None)"

definition keep_entry :: "handle_entry \<Rightarrow> handle_entry" where
  "keep_entry e = (if he_ptr e \<noteq> None \<and> he_access e AND RESERVED_INHERIT = 0 then e\<lparr>he_ptr := None\<rparr> else e)"

text \<open>All objects can take \<open>n\<close> more references.\<close>

definition refs_room :: "nat \<Rightarrow> kstate \<Rightarrow> bool" where
  "refs_room n s \<longleftrightarrow> (\<forall>p ob. ks_objs s p = Some ob \<longrightarrow> ko_refcount ob + n < INT_MAX)"

lemma refs_roomD: "refs_room n s \<Longrightarrow> ks_objs s p = Some ob \<Longrightarrow> ko_refcount ob + n < INT_MAX"
  by (simp add: refs_room_def)

lemma refs_room_mono: "refs_room n s \<Longrightarrow> m \<le> n \<Longrightarrow> refs_room m s"
  unfolding refs_room_def by (meson add_left_mono le_less_trans)

lemma grab_for_handle_room:
  assumes k: "kinv {} x s" and ob: "ks_objs s p \<noteq> None" and r: "refs_room (Suc n) s"
  shows "\<exists>s'. grab_object_for_handle cx p s = Some s' \<and> kinv {} (x(p := x p + 1)) s' \<and> refs_room n s' \<and>
    ks_handles s' = ks_handles s \<and> ks_global s' = ks_global s \<and> ks_procs s' = ks_procs s \<and> ks_allocs s' = ks_allocs s \<and>
    dom (ks_objs s') = dom (ks_objs s)"
proof -
  obtain ob where o: "ks_objs s p = Some ob" using ob by auto
  have "ko_refcount ob < INT_MAX" using refs_roomD [OF r o] by linarith
  from kinv_grab_for_handle [OF k o this, of cx] obtain s' where
    s': "grab_object_for_handle cx p s = Some s'" "kinv {} (x(p := x p + 1)) s'"
    "ks_handles s' = ks_handles s" "ks_global s' = ks_global s" "ks_procs s' = ks_procs s" "ks_allocs s' = ks_allocs s"
    "ks_objs s' = (ks_objs s)(p := Some (ob\<lparr>ko_handle_count := ko_handle_count ob + 1, ko_refcount := ko_refcount ob + 1\<rparr>))"
    by blast
  have "refs_room n s'" unfolding refs_room_def
  proof (intro allI impI)
    fix q oq assume q: "ks_objs s' q = Some oq"
    show "ko_refcount oq + n < INT_MAX"
    proof (cases "q = p")
      case True
      then show ?thesis using q refs_roomD [OF r o] s'(7) by auto
    next
      case False
      then show ?thesis using q refs_roomD [OF r, of q oq] s'(7) by simp
    qed
  qed
  then show ?thesis using s' o by auto
qed

lemma inherit_all_spec:
  assumes "kinv {} x s" "refs_room (length es) s" "\<forall>e \<in> set es. \<forall>p. he_ptr e = Some p \<longrightarrow> ks_objs s p \<noteq> None"
  shows "\<exists>s'. inherit_all cx es s = Some (map keep_entry es, s') \<and>
    kinv {} (\<lambda>p. x p + entry_refs (map keep_entry es) p) s' \<and>
    ks_handles s' = ks_handles s \<and> ks_global s' = ks_global s \<and> ks_procs s' = ks_procs s \<and> ks_allocs s' = ks_allocs s"
  using assms
proof (induction es arbitrary: x s)
  case (Cons e es)
  have room: "refs_room (length es) s" using refs_room_mono [OF Cons.prems(2)] by simp
  show ?case
  proof (cases "he_ptr e \<noteq> None \<and> he_access e AND RESERVED_INHERIT \<noteq> 0")
    case False
    then have n: "he_ptr (keep_entry e) = None" by (auto simp: keep_entry_def)
    obtain s' where s': "inherit_all cx es s = Some (map keep_entry es, s')"
      "kinv {} (\<lambda>p. x p + entry_refs (map keep_entry es) p) s'"
      "ks_handles s' = ks_handles s" "ks_global s' = ks_global s" "ks_procs s' = ks_procs s" "ks_allocs s' = ks_allocs s"
      using Cons.IH [OF Cons.prems(1) room] Cons.prems(3) by auto
    have "inherit_all cx (e # es) s = Some (map keep_entry (e # es), s')"
      using False s'(1) by (cases "he_ptr e") (auto simp: keep_entry_def [of e])
    then show ?thesis using s'(2-6) n by auto
  next
    case True
    then obtain p where p: "he_ptr e = Some p" by auto
    have "refs_room (Suc (length es)) s" using Cons.prems(2) by simp
    then obtain s1 where s1: "grab_object_for_handle cx p s = Some s1" "kinv {} (x(p := x p + 1)) s1" "refs_room (length es) s1"
      "ks_handles s1 = ks_handles s" "ks_global s1 = ks_global s" "ks_procs s1 = ks_procs s" "ks_allocs s1 = ks_allocs s"
      "dom (ks_objs s1) = dom (ks_objs s)"
      using grab_for_handle_room [OF Cons.prems(1), of p "length es" cx] Cons.prems(3) p by auto
    have "\<forall>e \<in> set es. \<forall>p. he_ptr e = Some p \<longrightarrow> ks_objs s1 p \<noteq> None"
      using Cons.prems(3) s1(8) by (metis domIff list.set_intros(2))
    from Cons.IH [OF s1(2,3) this] obtain s' where s': "inherit_all cx es s1 = Some (map keep_entry es, s')"
      "kinv {} (\<lambda>q. (x(p := x p + 1)) q + entry_refs (map keep_entry es) q) s'"
      "ks_handles s' = ks_handles s1" "ks_global s' = ks_global s1" "ks_procs s' = ks_procs s1" "ks_allocs s' = ks_allocs s1"
      by blast
    have k: "keep_entry e = e" using True by (simp add: keep_entry_def)
    have "(\<lambda>q. (x(p := x p + 1)) q + entry_refs (map keep_entry es) q) =
        (\<lambda>q. x q + entry_refs (map keep_entry (e # es)) q)"
      using k p by (auto simp: fun_eq_iff)
    then show ?thesis using s' s1 True p k by simp
  qed
qed simp

lemma keep_entry_map:
  "table_map (t\<lparr>ht_entries := map keep_entry es\<rparr>) i = inheritable (table_map (t\<lparr>ht_entries := es\<rparr>) i)"
  by (cases "i < length es"; cases "he_ptr (es ! i)") (auto simp: table_map_def inheritable_def keep_entry_def)

lemma store_entry_map:
  assumes "he_ptr e = Some p" "he_access e = a"
  shows "table_map (t\<lparr>ht_entries := store_entry i e (ht_entries t)\<rparr>) = (table_map t)(i := Some (p, a))"
    "length (store_entry i e es) = max (Suc i) (length es)"
  using assms by (auto simp: table_map_def store_entry_def fun_eq_iff nth_list_update nth_append null_entry_def)

text \<open>
  \<open>copied pt sel t\<close>: the table being filled holds exactly the inheritable entries of the parent's table at
  the selected indices.
\<close>

definition copied :: "handle_table \<Rightarrow> (nat \<Rightarrow> bool) \<Rightarrow> handle_table \<Rightarrow> bool" where
  "copied pt sel t \<longleftrightarrow> table_pre t \<and> ht_free t = 0 \<and> length (ht_entries pt) \<le> ht_count t \<and>
     (\<forall>i. table_map t i = (if sel i then inheritable (table_map pt i) else None))"

lemma inherit_handle_spec:
  assumes k: "kinv {} (\<lambda>p. x p + entry_refs (ht_entries t) p) s" and pt: "ks_handles s parent = Some pt"
    and c: "copied pt sel t" and h: "\<not> handle_is_global h" and r: "refs_room (Suc n) s"
  shows "\<exists>t' s'. inherit_handle cx parent h t s = Some (t', s') \<and>
    kinv {} (\<lambda>p. x p + entry_refs (ht_entries t') p) s' \<and>
    copied pt (\<lambda>i. sel i \<or> handle_to_index h = int i) t' \<and> refs_room n s' \<and>
    ks_handles s' = ks_handles s \<and> ks_global s' = ks_global s \<and> ks_procs s' = ks_procs s \<and> ks_allocs s' = ks_allocs s"
proof -
  have r': "refs_room n s" using refs_room_mono [OF r] by simp
  have lk: "handle_lookup parent h s = (if handle_to_index h < 0 then None else table_map pt (nat (handle_to_index h)))"
    using h pt by (simp add: handle_lookup_def local_part_def get_table_def lookup_table_def)
  have keep: ?thesis if "inherit_handle cx parent h t s = Some (t, s)"
    "\<And>i. handle_to_index h = int i \<Longrightarrow> table_map t i = inheritable (table_map pt i)"
  proof -
    have "copied pt (\<lambda>i. sel i \<or> handle_to_index h = int i) t" using c that(2) unfolding copied_def by auto
    then show ?thesis using that(1) k r' by blast
  qed
  show ?thesis
  proof (cases "handle_lookup parent h s")
    case None
    then have "inherit_handle cx parent h t s = Some (t, s)"
      using get_handle_None [of parent h s] by (simp add: inherit_handle_def)
    moreover have "table_map t i = inheritable (table_map pt i)" if "handle_to_index h = int i" for i
      using None lk that c by (simp add: copied_def inheritable_def)
    ultimately show ?thesis by (rule keep)
  next
    case (Some pa)
    obtain p a where pa: "pa = (p, a)" by (metis surj_pair)
    have l: "handle_lookup parent h s = Some (p, a)" using Some pa by simp
    obtain i where i: "handle_to_index h = int i" "table_map pt i = Some (p, a)" "get_handle parent h s = Some (False, i)"
      "entry_at parent (False, i) s = Some \<lparr>he_ptr = Some p, he_access = a\<rparr>"
      using handle_lookup_Some [OF l, simplified h local_part_def if_False] pt by (metis get_table_def option.inject)
    have ic: "i < ht_count t" using i(2) c by (auto simp: copied_def table_map_Some)
    show ?thesis
    proof (cases "a AND RESERVED_INHERIT = 0 \<or> table_map t i \<noteq> None")
      case True
      show ?thesis
      proof (rule keep)
        show "inherit_handle cx parent h t s = Some (t, s)"
          using True i ic by (auto simp: inherit_handle_def Let_def table_map_def split: if_splits)
        fix j assume "handle_to_index h = int j"
        then have "j = i" using i(1) by simp
        moreover have "a AND RESERVED_INHERIT = 0 \<Longrightarrow> inheritable (table_map pt i) = None" using i(2) by (simp add: inheritable_def)
        ultimately show "table_map t j = inheritable (table_map pt j)" using True c by (auto simp: copied_def)
      qed
    next
      case False
      let ?e = "\<lparr>he_ptr = Some p, he_access = a\<rparr>"
      let ?t = "t\<lparr>ht_entries := store_entry i ?e (ht_entries t)\<rparr>"
      have live: "ks_objs s p \<noteq> None" using handle_lookup_live [OF k l] by (metis option.distinct(1))
      obtain s' where s': "grab_object_for_handle cx p s = Some s'"
        "kinv {} ((\<lambda>p. x p + entry_refs (ht_entries t) p)(p := x p + entry_refs (ht_entries t) p + 1)) s'" "refs_room n s'"
        "ks_handles s' = ks_handles s" "ks_global s' = ks_global s" "ks_procs s' = ks_procs s" "ks_allocs s' = ks_allocs s"
        using grab_for_handle_room [OF k live r, of cx] by blast
      have e: "inherit_handle cx parent h t s = Some (?t, s')"
        using False i ic s'(1) by (auto simp: inherit_handle_def Let_def table_map_def)
      have m: "table_map ?t = (table_map t)(i := Some (p, a))" by (rule store_entry_map) simp_all
      have "refs_in (Some ?t) q = refs_in (Some t) q + (if q = p then 1 else 0)" for q
        using refs_in_update [OF m, of q] False by (simp add: points_to_def)
      then have "(\<lambda>p. x p + entry_refs (ht_entries t) p)(p := x p + entry_refs (ht_entries t) p + 1) =
          (\<lambda>p. x p + entry_refs (ht_entries ?t) p)"
        unfolding refs_in_entry_refs by (auto simp: fun_eq_iff)
      moreover have "copied pt (\<lambda>j. sel j \<or> handle_to_index h = int j) ?t"
      proof -
        have "table_pre ?t" "ht_free ?t = 0"
          using c ic store_entry_map(2) [of ?e p a i "ht_entries t"] by (auto simp: copied_def table_pre_def)
        moreover have "table_map ?t j = (if sel j \<or> handle_to_index h = int j then inheritable (table_map pt j) else None)" for j
          using c i(1,2) False unfolding m by (auto simp: copied_def inheritable_def)
        ultimately show ?thesis using c by (simp add: copied_def)
      qed
      ultimately show ?thesis using e s'(2-7) by auto
    qed
  qed
qed

lemma live_entries:
  assumes "kernel_wf s" "ks_handles s q = Some t"
  shows "\<forall>e \<in> set (ht_entries t). \<forall>p. he_ptr e = Some p \<longrightarrow> ks_objs s p \<noteq> None"
proof (intro ballI allI impI)
  fix e p assume e: "e \<in> set (ht_entries t)" "he_ptr e = Some p"
  then have "filter (\<lambda>e. he_ptr e = Some p) (ht_entries t) \<noteq> []" by (auto simp: filter_empty_conv)
  then have pos: "0 < refs_in (ks_handles s q) p" using assms(2) by simp
  have tw: "tables_wf s" using assms(1) by (simp add: kinv_def)
  have "q \<in> set (ks_procs s)" using tw assms(2) by (auto simp: tables_wf_def)
  then have "refs_in (ks_handles s q) p \<le> handle_refs s p"
    using sum_list_ge_member [of q "ks_procs s" "\<lambda>q. refs_in (ks_handles s q) p"] by (simp add: handle_refs_def)
  then have "handle_refs s p \<noteq> 0" using pos by linarith
  moreover have "obj_ok (handle_refs s p + 0) (ks_objs s p)" using assms(1) by (simp add: kinv_def)
  ultimately show "ks_objs s p \<noteq> None" by (cases "ks_objs s p") auto
qed

lemma inherit_handles_spec:
  assumes "kinv {} (\<lambda>p. x p + entry_refs (ht_entries t) p) s" "ks_handles s parent = Some pt" "copied pt sel t"
    "\<forall>h \<in> set hs. \<not> handle_is_global h" "refs_room (length hs + n) s"
  shows "\<exists>t' s'. inherit_handles cx parent hs t s = Some (t', s') \<and>
    kinv {} (\<lambda>p. x p + entry_refs (ht_entries t') p) s' \<and>
    copied pt (\<lambda>i. sel i \<or> (\<exists>h \<in> set hs. handle_to_index h = int i)) t' \<and> refs_room n s' \<and>
    ks_handles s' = ks_handles s \<and> ks_global s' = ks_global s \<and> ks_procs s' = ks_procs s \<and> ks_allocs s' = ks_allocs s"
  using assms
proof (induction hs arbitrary: t s sel)
  case (Cons h hs)
  have "\<not> handle_is_global h" "refs_room (Suc (length hs + n)) s" using Cons.prems(4,5) by simp_all
  then obtain t1 s1 where s1: "inherit_handle cx parent h t s = Some (t1, s1)"
    "kinv {} (\<lambda>p. x p + entry_refs (ht_entries t1) p) s1"
    "copied pt (\<lambda>i. sel i \<or> handle_to_index h = int i) t1" "refs_room (length hs + n) s1"
    "ks_handles s1 = ks_handles s" "ks_global s1 = ks_global s" "ks_procs s1 = ks_procs s" "ks_allocs s1 = ks_allocs s"
    using inherit_handle_spec [OF Cons.prems(1-3)] by blast
  have "ks_handles s1 parent = Some pt" "\<forall>h \<in> set hs. \<not> handle_is_global h" using s1(5) Cons.prems(2,4) by auto
  then obtain t' s' where s': "inherit_handles cx parent hs t1 s1 = Some (t', s')"
    "kinv {} (\<lambda>p. x p + entry_refs (ht_entries t') p) s'"
    "copied pt (\<lambda>i. (sel i \<or> handle_to_index h = int i) \<or> (\<exists>h \<in> set hs. handle_to_index h = int i)) t'" "refs_room n s'"
    "ks_handles s' = ks_handles s1" "ks_global s' = ks_global s1" "ks_procs s' = ks_procs s1" "ks_allocs s' = ks_allocs s1"
    using Cons.IH [OF s1(2) _ s1(3) _ s1(4)] by blast
  have "(\<lambda>i. (sel i \<or> handle_to_index h = int i) \<or> (\<exists>h \<in> set hs. handle_to_index h = int i)) =
      (\<lambda>i. sel i \<or> (\<exists>h \<in> set (h # hs). handle_to_index h = int i))" by auto
  then have c: "copied pt (\<lambda>i. sel i \<or> (\<exists>h \<in> set (h # hs). handle_to_index h = int i)) t'" using s'(3) by simp
  show ?case by (intro exI [of _ t'] exI [of _ s'] conjI) (use s1(1,5-8) s'(1,2,4-8) c in simp_all)
qed simp

text \<open>The handles that the new process gets: all of them, or those listed and the standard ones.\<close>

definition selected :: "u32 list option \<Rightarrow> u32 list \<Rightarrow> nat \<Rightarrow> bool" where
  "selected handles std_handles i \<longleftrightarrow>
     (case handles of None \<Rightarrow> True
      | Some hs \<Rightarrow> (\<exists>h \<in> set hs \<union> set (take 3 std_handles). handle_to_index h = int i))"

lemma selected_None [simp]: "selected None std i" by (simp add: selected_def)

lemma copy_fill:
  assumes k: "kernel_wf s" and pt: "ks_handles s parent = Some pt" and t: "copied pt (\<lambda>_. False) t" "ht_entries t = []"
    and r: "refs_room (length (ht_entries pt)) s" "\<forall>hs. handles = Some hs \<longrightarrow> refs_room (length hs + 3) s"
    and g: "\<forall>hs. handles = Some hs \<longrightarrow> (\<forall>h \<in> set hs \<union> set (take 3 std). \<not> handle_is_global h)"
  shows "\<exists>t1 s1. (case handles of
      Some hs \<Rightarrow> do { (t', s') \<leftarrow> inherit_handles cx parent hs t s; inherit_handles cx parent (take 3 std) t' s' }
    | None \<Rightarrow> do { (es, s') \<leftarrow> inherit_all cx (ht_entries pt) s; Some (t\<lparr>ht_entries := es\<rparr>, s') }) = Some (t1, s1) \<and>
    kinv {} (entry_refs (ht_entries t1)) s1 \<and> copied pt (selected handles std) t1 \<and>
    ks_handles s1 = ks_handles s \<and> ks_global s1 = ks_global s \<and> ks_procs s1 = ks_procs s \<and> ks_allocs s1 = ks_allocs s"
proof (cases handles)
  case None
  have "\<forall>e \<in> set (ht_entries pt). \<forall>p. he_ptr e = Some p \<longrightarrow> ks_objs s p \<noteq> None" by (rule live_entries [OF k pt])
  then obtain s1 where s1: "inherit_all cx (ht_entries pt) s = Some (map keep_entry (ht_entries pt), s1)"
    "kinv {} (\<lambda>p. 0 + entry_refs (map keep_entry (ht_entries pt)) p) s1"
    "ks_handles s1 = ks_handles s" "ks_global s1 = ks_global s" "ks_procs s1 = ks_procs s" "ks_allocs s1 = ks_allocs s"
    using inherit_all_spec [OF k r(1)] by blast
  let ?t = "t\<lparr>ht_entries := map keep_entry (ht_entries pt)\<rparr>"
  have "table_map (t\<lparr>ht_entries := ht_entries pt\<rparr>) = table_map pt" by (simp add: table_map_def fun_eq_iff)
  then have "copied pt (selected handles std) ?t"
    using t None by (auto simp: copied_def table_pre_def keep_entry_map)
  then show ?thesis using s1 None by auto
next
  case (Some hs)
  have k0: "kinv {} (\<lambda>p. 0 + entry_refs (ht_entries t) p) s" using k t(2) by simp
  have gh: "\<forall>h \<in> set hs. \<not> handle_is_global h" using g Some by simp
  obtain t' s' where s': "inherit_handles cx parent hs t s = Some (t', s')"
    "kinv {} (\<lambda>p. 0 + entry_refs (ht_entries t') p) s'"
    "copied pt (\<lambda>i. False \<or> (\<exists>h \<in> set hs. handle_to_index h = int i)) t'" "refs_room 3 s'"
    "ks_handles s' = ks_handles s" "ks_global s' = ks_global s" "ks_procs s' = ks_procs s" "ks_allocs s' = ks_allocs s"
    using inherit_handles_spec [OF k0 pt t(1) gh r(2) [rule_format, OF Some], of cx] by blast
  have pt': "ks_handles s' parent = Some pt" using pt s'(5) by simp
  have r': "refs_room (length (take 3 std) + 0) s'" using refs_room_mono [OF s'(4)] by simp
  have g': "\<forall>h \<in> set (take 3 std). \<not> handle_is_global h" using g Some by simp
  obtain t1 s1 where s1: "inherit_handles cx parent (take 3 std) t' s' = Some (t1, s1)"
    "kinv {} (\<lambda>p. 0 + entry_refs (ht_entries t1) p) s1"
    "copied pt (\<lambda>i. (False \<or> (\<exists>h \<in> set hs. handle_to_index h = int i)) \<or> (\<exists>h \<in> set (take 3 std). handle_to_index h = int i)) t1"
    "ks_handles s1 = ks_handles s'" "ks_global s1 = ks_global s'" "ks_procs s1 = ks_procs s'" "ks_allocs s1 = ks_allocs s'"
    using inherit_handles_spec [OF s'(2) pt' s'(3) g' r'] by blast
  have "(\<lambda>i. (False \<or> (\<exists>h \<in> set hs. handle_to_index h = int i)) \<or> (\<exists>h \<in> set (take 3 std). handle_to_index h = int i)) =
      selected handles std" using Some by (auto simp: selected_def fun_eq_iff)
  then have "copied pt (selected handles std) t1" using s1(3) by simp
  then show ?thesis using Some s'(1,5-8) s1(1,2,4-7) by simp
qed

text \<open>
  C16: the handle table of a new process.  Building it never stops the server (provided the handles
  listed are not global ones); it fails only for lack of memory.  The new table holds exactly those handles of the parent
  that are inheritable and selected, under the same numbers and with the same rights, each of them
  holding a reference, so that installing the table in the new process leaves the state well formed.
\<close>

theorem copy_handle_table_correct:
  assumes "kernel_wf s" "ks_handles s parent = Some pt" "refs_room (max (length (ht_entries pt)) (length hs + 3)) s"
    "handles = None \<or> handles = Some hs" "\<forall>h \<in> set hs \<union> set std_handles. \<not> handle_is_global h"
    "q \<in> set (ks_procs s)" "ks_handles s q = None"
  shows "\<exists>r s'. copy_handle_table cx parent handles std_handles s = Some (r, s') \<and>
    (case r of
       None \<Rightarrow> kernel_wf s' \<and> ks_error s' = STATUS_NO_MEMORY \<and>
         \<not> (cx_ok cx (ks_allocs s) \<and> cx_ok cx (ks_allocs s + 1))
     | Some t \<Rightarrow> kernel_wf (set_table q False (Some t) s') \<and>
         (\<forall>i < MAX_HANDLE_ENTRIES. handle_lookup q (index_to_handle i) (set_table q False (Some t) s') =
            (if selected handles std_handles i
             then inheritable (handle_lookup parent (index_to_handle i) s) else None)))"
proof -
  obtain r k where a: "alloc_handle_table (cx_ok cx) (ks_allocs s) (ht_count pt) = (r, k)" by (metis surj_pair)
  have w: "table_wf pt" using assms(1,2) by (auto simp: kinv_def tables_wf_def)
  show ?thesis
  proof (cases r)
    case None
    then have e: "copy_handle_table cx parent handles std_handles s = Some (None, set_error STATUS_NO_MEMORY (s\<lparr>ks_allocs := k\<rparr>))"
      using assms(2) a by (simp add: copy_handle_table_def)
    have "\<not> (cx_ok cx (ks_allocs s) \<and> cx_ok cx (ks_allocs s + 1))"
      using a None by (auto simp: alloc_handle_table_def Let_def split: if_splits)
    then show ?thesis unfolding e using assms(1) by simp
  next
    case (Some t)
    let ?s0 = "s\<lparr>ks_allocs := k\<rparr>"
    have t: "t = \<lparr>ht_entries = [], ht_count = ht_count pt, ht_free = 0\<rparr>"
      using a Some w by (auto simp: alloc_handle_table_def table_wf_def Let_def split: if_splits)
    have c: "copied pt (\<lambda>_. False) t" "ht_entries t = []"
      using w t by (auto simp: copied_def table_pre_def table_wf_def table_map_def)
    have k0: "kernel_wf ?s0" and pt0: "ks_handles ?s0 parent = Some pt" using assms(1,2) by simp_all
    have r0: "refs_room (length (ht_entries pt)) ?s0" "\<forall>hs'. handles = Some hs' \<longrightarrow> refs_room (length hs' + 3) ?s0"
      using refs_room_mono [OF assms(3)] assms(4) by (auto simp: refs_room_def)
    have g0: "\<forall>hs'. handles = Some hs' \<longrightarrow> (\<forall>h \<in> set hs' \<union> set (take 3 std_handles). \<not> handle_is_global h)"
      using assms(4,5) by (auto dest: in_set_takeD)
    obtain t1 s1 where f: "(case handles of
        Some hs \<Rightarrow> do { (t', s') \<leftarrow> inherit_handles cx parent hs t ?s0; inherit_handles cx parent (take 3 std_handles) t' s' }
      | None \<Rightarrow> do { (es, s') \<leftarrow> inherit_all cx (ht_entries pt) ?s0; Some (t\<lparr>ht_entries := es\<rparr>, s') }) = Some (t1, s1)"
      "kinv {} (entry_refs (ht_entries t1)) s1" "copied pt (selected handles std_handles) t1"
      "ks_handles s1 = ks_handles s" "ks_global s1 = ks_global s" "ks_procs s1 = ks_procs s"
      using copy_fill [OF k0 pt0 c r0 g0, where cx = cx] by auto
    obtain t2 k2 where sh: "shrink_handle_table (cx_ok cx) (ks_allocs s1) t1 = (t2, k2)" by (metis surj_pair)
    have t1p: "table_pre t1" using f(3) by (simp add: copied_def)
    note S = shrink_handle_table_spec [OF t1p sh]
    let ?s2 = "s1\<lparr>ks_allocs := k2\<rparr>"
    have e: "copy_handle_table cx parent handles std_handles s = Some (Some t2, ?s2)"
      using assms(2) a Some f(1) sh by (simp add: copy_handle_table_def Let_def)
    have refs: "entry_refs (ht_entries t1) p = refs_in (Some t2) p" for p
      using refs_card [of t1 p] refs_card [of t2 p] S(2) refs_in_entry_refs by simp
    have tw: "tables_wf ?s2" using f(2) by (simp add: kinv_def tables_wf_def)
    have "handle_refs (set_table q False (Some t2) ?s2) p = handle_refs ?s2 p + refs_in (Some t2) p" for p
      using handle_refs_set_table [of ?s2 False q "Some t2" p] assms(6,7) f(4-6) tw
      by (simp add: tables_wf_def get_table_def)
    moreover have "tables_wf (set_table q False (Some t2) ?s2)"
      by (rule tables_wf_set_table [OF tw]) (use S(1) assms(6) f(6) in auto)
    moreover have "kinv {} (entry_refs (ht_entries t1)) ?s2" using f(2) by simp
    ultimately have "kernel_wf (set_table q False (Some t2) ?s2)" by (simp add: kinv_def refs)
    moreover have "handle_lookup q (index_to_handle i) (set_table q False (Some t2) ?s2) =
        (if selected handles std_handles i then inheritable (handle_lookup parent (index_to_handle i) s) else None)"
      if "i < MAX_HANDLE_ENTRIES" for i
      using local_handle_not_global [OF that] f(3) S(2) assms(2)
      by (simp add: handle_lookup_def lookup_table_def get_table_def set_table_def copied_def)
    ultimately show ?thesis unfolding e by simp
  qed
qed

section \<open>Listing all handles\<close>

fun entry_infos :: "kcontext \<Rightarrow> nat \<Rightarrow> nat \<Rightarrow> handle_entry list \<Rightarrow> kstate \<Rightarrow> handle_info list" where
  "entry_infos cx q i [] s = []"
| "entry_infos cx q i (e # es) s =
     (case he_ptr e of
        None \<Rightarrow> entry_infos cx q (Suc i) es s
      | Some p \<Rightarrow> handle_info_of cx q i e (the (ks_objs s p)) # entry_infos cx q (Suc i) es s)"

definition process_infos :: "kcontext \<Rightarrow> kstate \<Rightarrow> nat \<Rightarrow> handle_info list" where
  "process_infos cx s q = (case ks_handles s q of None \<Rightarrow> [] | Some t \<Rightarrow> entry_infos cx q 0 (ht_entries t) s)"

definition all_infos :: "kcontext \<Rightarrow> nat list \<Rightarrow> kstate \<Rightarrow> handle_info list" where
  "all_infos cx qs s = concat (map (process_infos cx s) qs)"

lemma enum_entries_count:
  "enum_handle_entries cx q i es s (c, None) = Some (c + of_nat (length (entry_infos cx q i es s)), None)"
  by (induction es arbitrary: i c) (auto split: option.splits simp: algebra_simps)

lemma enum_entries_fill:
  assumes "\<forall>e \<in> set es. \<forall>p. he_ptr e = Some p \<longrightarrow> ks_objs s p \<noteq> None" "length (entry_infos cx q i es s) \<le> unat c"
  shows "enum_handle_entries cx q i es s (c, Some hs) =
    Some (c - of_nat (length (entry_infos cx q i es s)), Some (hs @ entry_infos cx q i es s))"
  using assms
proof (induction es arbitrary: i c hs)
  case (Cons e es)
  show ?case
  proof (cases "he_ptr e")
    case None
    then show ?thesis using Cons by simp
  next
    case (Some p)
    then obtain ob where ob: "ks_objs s p = Some ob" using Cons.prems(1) by auto
    have c: "Suc (length (entry_infos cx q (Suc i) es s)) \<le> unat c" using Cons.prems(2) Some by simp
    then have c0: "c \<noteq> 0" by auto
    then have "unat (c - 1) = unat c - 1" by (metis unat_minus_one)
    then have "length (entry_infos cx q (Suc i) es s) \<le> unat (c - 1)" using c by simp
    then show ?thesis using Cons.IH [of "Suc i" "c - 1"] Cons.prems(1) Some ob c0 by (simp add: algebra_simps)
  qed
qed simp

lemma enum_processes_count:
  "enum_processes cx qs s (c, None) = Some (c + of_nat (length (all_infos cx qs s)), None)"
proof (induction qs arbitrary: c)
  case (Cons q qs)
  have "enum_handles cx q s (c, None) = Some (c + of_nat (length (process_infos cx s q)), None)"
    by (auto simp: enum_handles_def process_infos_def enum_entries_count split: option.splits)
  then show ?case using Cons by (simp add: all_infos_def algebra_simps)
qed (simp add: all_infos_def)

lemma enum_processes_fill:
  assumes "kernel_wf s" "length (all_infos cx qs s) \<le> unat c"
  shows "enum_processes cx qs s (c, Some hs) =
    Some (c - of_nat (length (all_infos cx qs s)), Some (hs @ all_infos cx qs s))"
  using assms(2)
proof (induction qs arbitrary: c hs)
  case (Cons q qs)
  let ?n = "length (process_infos cx s q)"
  have n: "?n + length (all_infos cx qs s) \<le> unat c" using Cons.prems by (simp add: all_infos_def)
  have "enum_handles cx q s (c, Some hs) = Some (c - of_nat ?n, Some (hs @ process_infos cx s q))"
  proof (cases "ks_handles s q")
    case None
    then show ?thesis by (simp add: enum_handles_def process_infos_def)
  next
    case (Some t)
    then show ?thesis
      using enum_entries_fill [OF live_entries [OF assms(1) Some], of cx q 0 c hs] n
      by (simp add: enum_handles_def process_infos_def)
  qed
  moreover have "length (all_infos cx qs s) \<le> unat (c - of_nat ?n)"
  proof -
    have small: "?n < 2 ^ LENGTH(32)" using n unat_less_2p [of c] by simp
    have "of_nat ?n \<le> c" unfolding word_le_nat_alt using n unat_of_nat_less [OF small] by simp
    then have "unat (c - of_nat ?n) = unat c - ?n" using unat_of_nat_less [OF small] by (simp add: unat_sub)
    then show ?thesis using n by linarith
  qed
  ultimately show ?case using Cons.IH [of "c - of_nat ?n" "hs @ process_infos cx s q"] by (simp add: all_infos_def algebra_simps)
qed (simp add: all_infos_def)

text \<open>
  C35: listing the handles of the system.  The two passes agree: the request never stops the server, the
  count in the reply is the number of handles of all running processes, and when the caller's buffer is
  large enough (and memory is available) the reply holds one record for each of them, in order; when it is too
  small the error is \<^verbatim>\<open>STATUS_BUFFER_TOO_SMALL\<close> and nothing is returned but the count.
\<close>

theorem get_system_handles_correct:
  assumes "kernel_wf s" "length (all_infos cx (ks_process_list s) s) < 2 ^ 32"
  shows "\<exists>count hs s'. req_get_system_handles cx max_size s = Some (count, hs, s') \<and>
    unat count = length (all_infos cx (ks_process_list s) s) \<and>
    (if unat max_size div 20 < unat count then hs = [] \<and> ks_error s' = STATUS_BUFFER_TOO_SMALL
     else if count \<noteq> 0 \<and> \<not> cx_ok cx (ks_allocs s) then hs = [] \<and> ks_error s' = STATUS_NO_MEMORY
     else hs = all_infos cx (ks_process_list s) s \<and> ks_error s' = ks_error s)"
proof -
  let ?L = "all_infos cx (ks_process_list s) s"
  define c :: u32 where "c = of_nat (length ?L)"
  have c: "unat c = length ?L" unfolding c_def by (rule unat_of_nat_less) (use assms(2) in simp)
  have p1: "enum_processes cx (ks_process_list s) s (0, None) = Some (c, None)"
    by (simp add: enum_processes_count c_def)
  have p2: "enum_processes cx (ks_process_list s) s (c, Some []) = Some (0, Some ?L)"
    using enum_processes_fill [OF assms(1), of cx "ks_process_list s" c "[]"] c by (simp add: c_def)
  have lt: "max_size div 20 < c \<longleftrightarrow> unat max_size div 20 < unat c"
    by (simp add: word_less_nat_alt unat_div)
  have z: "c * 20 = 0 \<longleftrightarrow> c = 0" if "\<not> unat max_size div 20 < unat c"
  proof
    assume "c * 20 = 0"
    have "unat c * 20 < 2 ^ 32" using that unat_less_2p [of max_size] by (simp add: not_less)
    then have "unat (c * 20) = unat c * 20" by (simp add: unat_mult_lem [symmetric] del: unat_mult_lem) (simp add: unat_word_ariths)
    then show "c = 0" using \<open>c * 20 = 0\<close> by (simp add: unat_eq_zero)
  qed simp
  show ?thesis
  proof (cases "unat max_size div 20 < unat c")
    case True
    then have "req_get_system_handles cx max_size s = Some (c, [], set_error STATUS_BUFFER_TOO_SMALL s)"
      using p1 lt by (simp add: req_get_system_handles_def Let_def)
    then show ?thesis using c True by simp
  next
    case False
    show ?thesis
    proof (cases "c = 0")
      case True
      then have e: "req_get_system_handles cx max_size s = Some (0, [], s)"
        using p1 by (simp add: req_get_system_handles_def Let_def)
      have "?L = []" using c True by simp
      then show ?thesis unfolding e by simp
    next
      case c0: False
      then have "c * 20 \<noteq> 0" using z [OF False] by simp
      then show ?thesis using p1 p2 lt False c c0 by (simp add: req_get_system_handles_def Let_def)
    qed
  qed
qed

end
