(* ===== verification/Handle_Runs.thy ===== *)
theory Handle_Runs
  imports Handle_Sharing
begin

unbundle bit_operations_syntax

text \<open>
  Runs of the handle system: all states reachable by sequences of operations are well formed.  The
  end of the theory applies the handle theorems to a concrete state.
\<close>

section \<open>Reachable states\<close>

definition boot_state :: "nat list \<Rightarrow> kstate" where
  "boot_state qs = \<lparr>ks_objs = \<lambda>_. None, ks_types = \<lambda>_. \<lparr>tc_obj_count = 0, tc_obj_max = 0, tc_handle_count = 0, tc_handle_max = 0\<rparr>,
     ks_handles = \<lambda>_. None, ks_global = None, ks_procs = remdups qs, ks_process_list = qs, ks_next = 0, ks_allocs = 0, ks_error = 0\<rparr>"

text \<open>
  One operation: creating an object, giving a process its table, opening, closing, duplicating and
  flagging handles, taking and dropping references, and the death of a process.  A reference is
  dropped by someone who holds one, so not all references belong to handles then.
\<close>

inductive kstep :: "kcontext \<Rightarrow> kstate \<Rightarrow> kstate \<Rightarrow> bool" for cx where
  create: "alloc_object cx ops s = (r, s') \<Longrightarrow> kstep cx s s'"
| table: "ks_handles s q = None \<Longrightarrow> q \<in> set (ks_procs s) \<Longrightarrow>
    alloc_handle_table (cx_ok cx) (ks_allocs s) 0 = (t, k) \<Longrightarrow> kstep cx s (set_table q False t (s\<lparr>ks_allocs := k\<rparr>))"
| open_handle: "ks_objs s p = Some ob \<Longrightarrow> ko_refcount ob < INT_MAX \<Longrightarrow> access AND RESERVED_ALL = 0 \<Longrightarrow>
    alloc_handle_entry cx q p access attr s = Some (h, s') \<Longrightarrow> kstep cx s s'"
| close: "\<not> handle_is_global h \<Longrightarrow> close_handle cx q h s = Some (st, s') \<Longrightarrow> kstep cx s s'"
| flags: "get_magic_handle cx h = None \<Longrightarrow> set_handle_flags cx q h m f s = Some (r, s') \<Longrightarrow> kstep cx s s'"
| grab: "grab_object p s = Some s' \<Longrightarrow> kstep cx s s'"
| release: "ks_objs s p = Some ob \<Longrightarrow> ko_handle_count ob < ko_refcount ob \<Longrightarrow> release_object cx p s = Some s' \<Longrightarrow>
    kstep cx s s'"
| exit: "close_process_handles cx q s = Some s' \<Longrightarrow> kstep cx s s'"

inductive kreach :: "kcontext \<Rightarrow> kstate \<Rightarrow> bool" for cx where
  boot: "kreach cx (boot_state qs)"
| step: "kreach cx s \<Longrightarrow> kstep cx s s' \<Longrightarrow> kreach cx s'"

lemma boot_wf: "kernel_wf (boot_state qs)"
  by (auto simp: boot_state_def kinv_def tables_wf_def handle_refs_def)

lemma alloc_object_wf:
  assumes k: "kernel_wf s" and a: "alloc_object cx ops s = (r, s')"
  shows "kernel_wf s'"
proof (cases "cx_ok cx (ks_allocs s)")
  case False
  then have "s' = set_error STATUS_NO_MEMORY (s\<lparr>ks_allocs := ks_allocs s + 1\<rparr>)"
    using a by (simp add: alloc_object_def Let_def)
  then show ?thesis using k by simp
next
  case True
  let ?p = "ks_next s" and ?ob = "\<lparr>ko_refcount = 1, ko_handle_count = 0, ko_ops = ops, ko_permanent = False\<rparr>"
  have n: "ks_objs s ?p = None" using k unfolding kinv_def by blast
  have t: "ks_handles s' = ks_handles s" "ks_global s' = ks_global s" "ks_procs s' = ks_procs s"
    and o: "ks_objs s' = (ks_objs s)(?p := Some ?ob)" "ks_next s' = ?p + 1"
    using a True by (auto simp: alloc_object_def Let_def)
  have ok: "\<forall>q. obj_ok (handle_refs s q + 0) (ks_objs s q)" using k by (simp add: kinv_def)
  then have "handle_refs s ?p = 0" using n by (metis add_is_0 obj_ok.simps(1))
  then have "\<forall>q. obj_ok (handle_refs s' q + 0) (ks_objs s' q)"
    using ok unfolding handle_refs_cong [OF t] o by auto
  moreover have "\<forall>q. ks_objs s' q \<noteq> None \<longrightarrow> q < ks_next s'"
    using k unfolding kinv_def o by (metis fun_upd_apply less_Suc_eq Suc_eq_plus1)
  ultimately show ?thesis using k tables_wf_cong [OF t] by (simp add: kinv_def)
qed

lemma new_table_wf:
  assumes k: "kernel_wf s" and h: "ks_handles s q = None" "q \<in> set (ks_procs s)"
    and a: "alloc_handle_table ok n 0 = (t, k')"
  shows "kernel_wf (set_table q False t (s\<lparr>ks_allocs := k'\<rparr>))"
proof -
  let ?s = "s\<lparr>ks_allocs := k'\<rparr>"
  have k0: "kernel_wf ?s" using k by simp
  have tw: "tables_wf ?s" using k0 by (simp add: kinv_def)
  have t: "table_wf u \<and> ht_entries u = []" if "t = Some u" for u
    using a that alloc_handle_table_spec [of ok n 0 u k']
    by (auto simp: alloc_handle_table_def Let_def split: if_splits)
  have r: "refs_in t p = 0" for p using t by (cases t) auto
  have "handle_refs (set_table q False t ?s) p = handle_refs ?s p" for p
    using handle_refs_set_table [of ?s False q t p] tw h r [of p] by (simp add: tables_wf_def get_table_def)
  moreover have "tables_wf (set_table q False t ?s)" by (rule tables_wf_set_table [OF tw]) (use h t in auto)
  ultimately show ?thesis using k0 by (simp add: kinv_def)
qed

lemma set_handle_flags_wf:
  assumes k: "kernel_wf s" and m: "get_magic_handle cx h = None" and e: "set_handle_flags cx q h msk f s = Some (r, s')"
  shows "kernel_wf s'"
proof (cases "handle_lookup q h s")
  case None
  then show ?thesis using get_handle_None [of q h s] k m e by (auto simp: set_handle_flags_def)
next
  case (Some pa)
  then show ?thesis using set_handle_flags_spec [OF k m, of q "fst pa" "snd pa", where msk = msk and flags = f] e by auto
qed

lemma kstep_wf:
  assumes cx: "callbacks_ok cx" and k: "kernel_wf s" and st: "kstep cx s s'"
  shows "kernel_wf s'"
  using st
proof cases
  case (create ops r)
  then show ?thesis using alloc_object_wf [OF k] by blast
next
  case (table q t k')
  then show ?thesis using new_table_wf [OF k] by blast
next
  case (open_handle p ob access q attr h)
  then show ?thesis using alloc_handle_entry_spec [OF k open_handle(1,2,3), of cx q attr] by auto
next
  case (close h q st)
  then show ?thesis using close_handle_spec [OF cx k close(1), of q] k by (auto split: option.splits if_splits)
next
  case (flags h q m f r)
  then show ?thesis using set_handle_flags_wf [OF k] by blast
next
  case (grab p)
  then show ?thesis using kinv_grab_object [OF k] by blast
next
  case (release p ob)
  then show ?thesis using release_object_spec [OF cx k release(1,2)] by auto
next
  case (exit q)
  then show ?thesis using close_process_handles_spec [OF cx k, of q] by auto
qed


section \<open>A concrete system\<close>

definition demo_ops :: object_ops where
  "demo_ops = \<lparr>op_type = 0, op_index = 3,
     op_mapping = \<lparr>gm_read = 0x20001, gm_write = 0x20002, gm_exec = 0x120000, gm_all = 0x1f0003\<rparr>,
     op_map_access = None, op_close_handle = None, op_destroy = (\<lambda>p s. Some s)\<rparr>"

definition demo_cx :: kcontext where
  "demo_cx = \<lparr>cx_ok = \<lambda>_. True, cx_ops = \<lambda>_. demo_ops, cx_check = \<lambda>_ _ a. Some a, cx_process = 11, cx_thread = 2,
     cx_token = None, cx_ptoken = \<lambda>_. 3, cx_pid = \<lambda>q. of_nat (32 + 4 * q), cx_process_ops = 1\<rparr>"

text \<open>Object 5 is named by the first handle of process 11 and by the first global handle.\<close>

definition demo_table :: handle_table where
  "demo_table = \<lparr>ht_entries = [\<lparr>he_ptr = Some 5, he_access = 0x041f0003\<rparr>], ht_count = 32, ht_free = 1\<rparr>"

definition demo_state :: kstate where
  "demo_state = (boot_state [11, 12])\<lparr>
     ks_objs := [5 \<mapsto> \<lparr>ko_refcount = 3, ko_handle_count = 2, ko_ops = 0, ko_permanent = False\<rparr>],
     ks_handles := [11 \<mapsto> demo_table], ks_global := Some demo_table, ks_next := 6\<rparr>"

lemma demo_callbacks: "callbacks_ok demo_cx"
proof -
  have "frame {p} s s" if k: "kinv {p} x s" for p x s
  proof -
    have "obj_kept (ks_objs s q) (ks_objs s q)" if "q \<noteq> p" for q
      using kinv_live [OF k, of q] that by (cases "ks_objs s q") auto
    then show ?thesis using k by (auto simp: frame_def kinv_def)
  qed
  then show ?thesis by (auto simp: callbacks_ok_def demo_cx_def demo_ops_def)
qed

lemma demo_wf: "kernel_wf demo_state"
  by (auto simp: demo_state_def boot_state_def demo_table_def kinv_def tables_wf_def handle_refs_def table_wf_def
      MIN_HANDLE_ENTRIES_def MAX_HANDLE_ENTRIES_def)

lemmas demo_eval = demo_state_def boot_state_def demo_table_def demo_cx_def demo_ops_def handle_lookup_def lookup_table_def
  get_table_def local_part_def handle_is_global_def HANDLE_OBFUSCATOR_def MAX_HANDLE_ENTRIES_def handle_to_index_def
  table_map_def handle_global_to_local_def get_magic_handle_def INT_MAX_def RESERVED_ALL_def RESERVED_INHERIT_def
  RESERVED_CLOSE_PROTECT_def RESERVED_SHIFT_def call_close_handle_def DUPLICATE_MAKE_GLOBAL_def

lemma demo_lookup: "handle_lookup 11 4 demo_state = Some (5, 0x041f0003)"
  by (simp add: demo_eval push_bit_eq_mult)

lemma demo_lookup_global: "handle_lookup 11 0x544a4deb demo_state = Some (5, 0x041f0003)" "handle_is_global 0x544a4deb"
  by (simp_all add: demo_eval push_bit_eq_mult)

lemma demo_object: "ks_objs demo_state 5 = Some \<lparr>ko_refcount = 3, ko_handle_count = 2, ko_ops = 0, ko_permanent = False\<rparr>"
  by (simp add: demo_state_def)

lemma demo_not_magic: "get_magic_handle demo_cx 4 = None"
  by (simp add: get_magic_handle_def)

lemma demo_local: "\<not> handle_is_global 4"
  by (simp add: demo_eval push_bit_eq_mult)

lemma demo_not_protected: "0x041f0003 AND RESERVED_CLOSE_PROTECT = (0 :: u32)"
  by (simp add: RESERVED_CLOSE_PROTECT_def RESERVED_SHIFT_def push_bit_eq_mult)

lemma demo_call_close: "call_close_handle demo_cx 5 11 h demo_state = Some (True, demo_state)"
  by (simp add: demo_eval)

theorem alloc_handle_entry_witness:
  "\<exists>h s'. alloc_handle_entry demo_cx 11 5 3 0 demo_state = Some (h, s') \<and> kernel_wf s'"
  using alloc_handle_entry_correct [OF demo_wf demo_object, of 3 demo_cx 11 0] by (auto simp: demo_eval push_bit_eq_mult)


theorem close_global_handle_witness: "close_handle demo_cx 11 0x544a4deb demo_state = None"
  by (rule close_global_handle_out_of_bounds [OF demo_callbacks demo_wf demo_lookup_global(2,1)])
     (simp_all add: demo_call_close, simp add: demo_eval push_bit_eq_mult)


theorem get_handle_obj_witness:
  "\<exists>s'. get_handle_obj demo_cx 11 4 3 (Some 0) demo_state = Some (Some 5, s') \<and> kernel_wf s'"
  using get_handle_obj_correct [OF demo_wf demo_not_magic, of 11 3 "Some 0"]
  by (auto simp: demo_lookup demo_object INT_MAX_def)

theorem set_handle_flags_witness:
  "\<exists>s'. set_handle_flags demo_cx 11 4 2 2 demo_state = Some (1, s') \<and>
    close_handle demo_cx 11 4 s' = Some (STATUS_HANDLE_NOT_CLOSABLE, s')"
  using set_handle_flags_correct [OF demo_wf demo_not_magic demo_lookup, of 2 2]
  by (auto simp: bit_numeral_rec) (auto simp: demo_eval push_bit_eq_mult)


theorem copy_handle_table_witness:
  "\<exists>t s'. copy_handle_table demo_cx 11 (Some [4]) [] demo_state = Some (Some t, s') \<and>
    handle_lookup 12 4 (set_table 12 False (Some t) s') = Some (5, 0x041f0003)"
proof -
  have i: "index_to_handle 0 = 4" by (simp add: index_to_handle_def push_bit_eq_mult)
  have h: "ks_handles demo_state 11 = Some demo_table" "12 \<in> set (ks_procs demo_state)" "ks_handles demo_state 12 = None"
    "refs_room (max (length (ht_entries demo_table)) (length [4 :: u32] + 3)) demo_state"
    by (auto simp: demo_state_def boot_state_def demo_table_def refs_room_def INT_MAX_def split: if_splits)
  have g: "\<forall>h \<in> set [4] \<union> set []. \<not> handle_is_global h" using demo_local by simp
  have s: "selected (Some [4]) [] 0" by (simp add: selected_def handle_to_index_def)
  have v: "inheritable (Some (5, 0x041f0003)) = Some (5, 0x041f0003)"
    by (simp add: inheritable_def RESERVED_INHERIT_def RESERVED_SHIFT_def push_bit_eq_mult)
  have ok: "cx_ok demo_cx n" for n by (simp add: demo_cx_def)
  obtain r s' where "copy_handle_table demo_cx 11 (Some [4]) [] demo_state = Some (r, s')"
    and c: "case r of
       None \<Rightarrow> kernel_wf s' \<and> ks_error s' = STATUS_NO_MEMORY \<and>
         \<not> (cx_ok demo_cx (ks_allocs demo_state) \<and> cx_ok demo_cx (ks_allocs demo_state + 1))
     | Some t \<Rightarrow> kernel_wf (set_table 12 False (Some t) s') \<and>
         (\<forall>i < MAX_HANDLE_ENTRIES. handle_lookup 12 (index_to_handle i) (set_table 12 False (Some t) s') =
            (if selected (Some [4]) [] i then inheritable (handle_lookup 11 (index_to_handle i) demo_state) else None))"
    using copy_handle_table_correct [OF demo_wf h(1,4) _ g h(2,3), of "Some [4]" demo_cx] by blast
  moreover obtain t where t: "r = Some t" using c ok by (cases r) auto
  moreover have "handle_lookup 12 (index_to_handle 0) (set_table 12 False (Some t) s') = Some (5, 0x041f0003)"
    using c [unfolded t option.case, THEN conjunct2, rule_format, of 0] s v demo_lookup i by (simp add: MAX_HANDLE_ENTRIES_def)
  ultimately show ?thesis using i by auto
qed

theorem get_system_handles_witness:
  "\<exists>hs s'. req_get_system_handles demo_cx 20 demo_state = Some (1, hs, s') \<and> length hs = 1"
proof -
  have L: "length (all_infos demo_cx (ks_process_list demo_state) demo_state) = 1" "ks_allocs demo_state = 0"
    by (simp_all add: all_infos_def process_infos_def demo_state_def boot_state_def demo_table_def)
  obtain count hs s' where r: "req_get_system_handles demo_cx 20 demo_state = Some (count, hs, s')"
    "unat count = 1" "if unat (20 :: u32) div 20 < unat count then hs = [] \<and> ks_error s' = STATUS_BUFFER_TOO_SMALL
     else if count \<noteq> 0 \<and> \<not> cx_ok demo_cx (ks_allocs demo_state) then hs = [] \<and> ks_error s' = STATUS_NO_MEMORY
     else hs = all_infos demo_cx (ks_process_list demo_state) demo_state \<and> ks_error s' = ks_error demo_state"
    using get_system_handles_correct [OF demo_wf, of demo_cx 20] L by auto
  have "count = 1" using r(2) by (simp add: word_unat_eq_iff)
  then show ?thesis using r L by (auto simp: demo_cx_def)
qed


end
