(* ===== verification/Sync.thy ===== *)
theory Sync
  imports Server_Prelude
begin

unbundle bit_operations_syntax

text \<open>
  Synchronization: the sync objects behind events, mutexes and semaphores (\<^verbatim>\<open>server/event.c\<close>,
  \<^verbatim>\<open>server/mutex.c\<close>, \<^verbatim>\<open>server/semaphore.c\<close>) and the waits of threads on them (\<^verbatim>\<open>server/thread.c\<close>):
  wait queues, the check of a wait, its end, waking threads, timeouts, suspension and thread death.

  Objects, threads and wait structures are named by numbers.  A failed \<^verbatim>\<open>assert\<close> clears the field \<open>ws_ok\<close>.
  The wakeup messages written to the clients are collected in \<open>ws_log\<close>; the pipes are taken to be open, so
  that a write does not fail.  The references that waits hold on objects are those of the theory
  \<open>Objects\<close> and are not repeated here.
\<close>

section \<open>Data\<close>

datatype select_opcode =
    SELECT_NONE
  | SELECT_WAIT
  | SELECT_WAIT_ALL
  | SELECT_SIGNAL_AND_WAIT
  | SELECT_KEYED_EVENT_WAIT
  | SELECT_KEYED_EVENT_RELEASE

record event_sync =
  es_manual :: bool
  es_signaled :: bool

record mutex_sync =
  ms_owner :: "nat option"
  ms_count :: u32
  ms_abandoned :: bool

record semaphore_sync =
  sem_count :: u32
  sem_max :: u32

datatype sync_data = Event_Sync event_sync | Mutex_Sync mutex_sync | Semaphore_Sync semaphore_sync

text \<open>An entry of a wait queue: the thread and the identifier of its wait, and the index in the wait.\<close>

record wait_queue_entry =
  we_thread :: nat
  we_wait :: nat
  we_index :: nat

record sync_obj =
  so_data :: sync_data
  so_queue :: "wait_queue_entry list"

record thread_wait =
  wt_thread :: nat
  wt_flags :: u32
  wt_abandoned :: bool
  wt_select :: select_opcode
  wt_cookie :: u64
  wt_when :: int
  wt_user :: bool
  wt_objs :: "nat list"

text \<open>The suspend context of a thread: whether it suspended itself, and whether registers are pending.\<close>

record thread_context =
  tx_cooperative :: bool
  tx_pending :: bool

record thread =
  th_waits :: "nat list"
  th_process :: nat
  th_suspend :: nat
  th_bypass :: bool
  th_context :: "thread_context option"
  th_suspend_cookie :: u64
  th_system_apc :: "nat list"
  th_user_apc :: "nat list"
  th_mutexes :: "nat list"
  th_terminated :: bool

record wakeup =
  wk_thread :: nat
  wk_cookie :: u64
  wk_signaled :: u32

record wstate =
  ws_objs :: "nat \<Rightarrow> sync_obj option"
  ws_threads :: "nat \<Rightarrow> thread"
  ws_waits :: "nat \<Rightarrow> thread_wait option"
  ws_psuspend :: "nat \<Rightarrow> nat"
  ws_now :: int
  ws_mono :: int
  ws_next :: nat
  ws_log :: "wakeup list"
  ws_error :: u32
  ws_allocs :: nat
  ws_ok :: bool

definition SELECT_ALERTABLE :: u32 where "SELECT_ALERTABLE = 1"
definition SELECT_INTERRUPTIBLE :: u32 where "SELECT_INTERRUPTIBLE = 2"
definition SELECT_COOPERATIVE_SUSPEND :: u32 where "SELECT_COOPERATIVE_SUSPEND = 4"
definition MAXIMUM_WAIT_OBJECTS :: nat where "MAXIMUM_WAIT_OBJECTS = 64"
definition MAXIMUM_SUSPEND_COUNT :: nat where "MAXIMUM_SUSPEND_COUNT = 127"
definition TIMEOUT_INFINITE :: int where "TIMEOUT_INFINITE = 0x7fffffffffffffff"
definition EVENT_MODIFY_STATE :: u32 where "EVENT_MODIFY_STATE = 2"
definition SEMAPHORE_MODIFY_STATE :: u32 where "SEMAPHORE_MODIFY_STATE = 2"
definition EVENT_QUERY_STATE :: u32 where "EVENT_QUERY_STATE = 1"
definition MUTANT_QUERY_STATE :: u32 where "MUTANT_QUERY_STATE = 1"
definition SEMAPHORE_QUERY_STATE :: u32 where "SEMAPHORE_QUERY_STATE = 1"
definition SYNCHRONIZE :: u32 where "SYNCHRONIZE = 0x100000"

abbreviation (input) STATUS_THREAD_WAS_SUSPENDED :: u32 where "STATUS_THREAD_WAS_SUSPENDED \<equiv> 0x40000001"
abbreviation (input) STATUS_THREAD_IS_TERMINATING :: u32 where "STATUS_THREAD_IS_TERMINATING \<equiv> 0xC000004B"

section \<open>State access\<close>

definition fail :: "wstate \<Rightarrow> wstate" where "fail s = s\<lparr>ws_ok := False\<rparr>"

definition set_werror :: "u32 \<Rightarrow> wstate \<Rightarrow> wstate" where "set_werror e s = s\<lparr>ws_error := e\<rparr>"

definition upd_thread :: "nat \<Rightarrow> (thread \<Rightarrow> thread) \<Rightarrow> wstate \<Rightarrow> wstate" where
  "upd_thread t f s = s\<lparr>ws_threads := (ws_threads s)(t := f (ws_threads s t))\<rparr>"

definition upd_wait :: "nat \<Rightarrow> (thread_wait \<Rightarrow> thread_wait) \<Rightarrow> wstate \<Rightarrow> wstate" where
  "upd_wait w f s = s\<lparr>ws_waits := (ws_waits s)(w := map_option f (ws_waits s w))\<rparr>"

definition upd_obj :: "nat \<Rightarrow> (sync_obj \<Rightarrow> sync_obj) \<Rightarrow> wstate \<Rightarrow> wstate" where
  "upd_obj p f s = s\<lparr>ws_objs := (ws_objs s)(p := map_option f (ws_objs s p))\<rparr>"

definition set_data :: "nat \<Rightarrow> sync_data \<Rightarrow> wstate \<Rightarrow> wstate" where
  "set_data p d s = upd_obj p (so_data_update (\<lambda>_. d)) s"

section \<open>Wait queues\<close>

definition add_queue :: "nat \<Rightarrow> wait_queue_entry \<Rightarrow> wstate \<Rightarrow> wstate" where
  "add_queue p entry s = upd_obj p (so_queue_update (\<lambda>q. q @ [entry])) s"

definition remove_queue :: "nat \<Rightarrow> wait_queue_entry \<Rightarrow> wstate \<Rightarrow> wstate" where
  "remove_queue p entry s = upd_obj p (so_queue_update (filter (\<lambda>e. e \<noteq> entry))) s"

section \<open>Signaled and satisfied\<close>

definition event_sync_signaled :: "event_sync \<Rightarrow> bool" where
  "event_sync_signaled event \<longleftrightarrow> es_signaled event"

definition event_sync_satisfied :: "event_sync \<Rightarrow> event_sync" where
  "event_sync_satisfied event = (if \<not> es_manual event then event\<lparr>es_signaled := False\<rparr> else event)"

definition mutex_sync_signaled :: "mutex_sync \<Rightarrow> nat \<Rightarrow> bool" where
  "mutex_sync_signaled mutex t \<longleftrightarrow> ms_count mutex = 0 \<or> ms_owner mutex = Some t"

definition do_grab :: "nat \<Rightarrow> mutex_sync \<Rightarrow> nat \<Rightarrow> wstate \<Rightarrow> wstate" where
  "do_grab p mutex t s =
     (let s0 = (if ms_count mutex = 0 \<or> ms_owner mutex = Some t then s else fail s)
      in if ms_count mutex = 0
         then let s1 = (if ms_owner mutex = None then s0 else fail s0);
                  s2 = set_data p (Mutex_Sync (mutex\<lparr>ms_count := 1, ms_owner := Some t\<rparr>)) s1
              in upd_thread t (th_mutexes_update (\<lambda>l. p # l)) s2
         else set_data p (Mutex_Sync (mutex\<lparr>ms_count := ms_count mutex + 1\<rparr>)) s0)"

definition mutex_sync_satisfied :: "nat \<Rightarrow> mutex_sync \<Rightarrow> nat \<Rightarrow> nat \<Rightarrow> wstate \<Rightarrow> wstate" where
  "mutex_sync_satisfied p mutex t w s =
     (let s1 = do_grab p (mutex\<lparr>ms_abandoned := False\<rparr>) t s
      in if ms_abandoned mutex then upd_wait w (wt_abandoned_update (\<lambda>_. True)) s1 else s1)"

definition semaphore_sync_signaled :: "semaphore_sync \<Rightarrow> bool" where
  "semaphore_sync_signaled sem \<longleftrightarrow> sem_count sem > 0"

definition semaphore_sync_satisfied :: "nat \<Rightarrow> semaphore_sync \<Rightarrow> wstate \<Rightarrow> wstate" where
  "semaphore_sync_satisfied p sem s =
     (let s0 = (if sem_count sem = 0 then fail s else s)
      in set_data p (Semaphore_Sync (sem\<lparr>sem_count := sem_count sem - 1\<rparr>)) s0)"

definition data_signaled :: "sync_data \<Rightarrow> nat \<Rightarrow> bool" where
  "data_signaled d t =
     (case d of
        Event_Sync event \<Rightarrow> event_sync_signaled event
      | Mutex_Sync mutex \<Rightarrow> mutex_sync_signaled mutex t
      | Semaphore_Sync sem \<Rightarrow> semaphore_sync_signaled sem)"

definition object_sync_signaled :: "nat \<Rightarrow> nat \<Rightarrow> wstate \<Rightarrow> bool" where
  "object_sync_signaled p t s = (case ws_objs s p of None \<Rightarrow> False | Some ob \<Rightarrow> data_signaled (so_data ob) t)"

definition object_sync_satisfied :: "nat \<Rightarrow> nat \<Rightarrow> nat \<Rightarrow> wstate \<Rightarrow> wstate" where
  "object_sync_satisfied p t w s =
     (case ws_objs s p of
        None \<Rightarrow> fail s
      | Some ob \<Rightarrow>
          (case so_data ob of
             Event_Sync event \<Rightarrow> set_data p (Event_Sync (event_sync_satisfied event)) s
           | Mutex_Sync mutex \<Rightarrow> mutex_sync_satisfied p mutex t w s
           | Semaphore_Sync sem \<Rightarrow> semaphore_sync_satisfied p sem s))"

section \<open>The end of a wait\<close>

text \<open>\<open>satisfy_all\<close> is the loop over all objects of a \<^verbatim>\<open>SELECT_WAIT_ALL\<close>.\<close>

fun satisfy_all :: "nat list \<Rightarrow> nat \<Rightarrow> nat \<Rightarrow> wstate \<Rightarrow> wstate" where
  "satisfy_all [] t w s = s"
| "satisfy_all (p # ps) t w s = satisfy_all ps t w (object_sync_satisfied p t w s)"

fun remove_queues :: "nat list \<Rightarrow> nat \<Rightarrow> nat \<Rightarrow> nat \<Rightarrow> wstate \<Rightarrow> wstate" where
  "remove_queues [] t w i s = s"
| "remove_queues (p # ps) t w i s =
     remove_queues ps t w (Suc i) (remove_queue p \<lparr>we_thread = t, we_wait = w, we_index = i\<rparr> s)"

definition satisfy_wait :: "thread_wait \<Rightarrow> nat \<Rightarrow> nat \<Rightarrow> u32 \<Rightarrow> wstate \<Rightarrow> wstate" where
  "satisfy_wait wait t w status s =
     (if unat status < length (wt_objs wait)
      then if wt_select wait = SELECT_WAIT_ALL then satisfy_all (wt_objs wait) t w s
           else object_sync_satisfied (wt_objs wait ! unat status) t w s
      else s)"

definition wait_abandoned :: "nat \<Rightarrow> wstate \<Rightarrow> bool" where
  "wait_abandoned w s = (case ws_waits s w of None \<Rightarrow> False | Some wait \<Rightarrow> wt_abandoned wait)"

text \<open>
  The status is returned with the new state.  A status below the number of objects means that the wait is
  satisfied; the objects are told, which may mark the wait as abandoned.
\<close>

definition end_wait :: "nat \<Rightarrow> u32 \<Rightarrow> wstate \<Rightarrow> u32 \<times> wstate" where
  "end_wait t status s =
     (case th_waits (ws_threads s t) of
        [] \<Rightarrow> (status, fail s)
      | w # _ \<Rightarrow>
          let s1 = upd_thread t (th_waits_update tl) s
          in case ws_waits s w of
               None \<Rightarrow> (status, fail s1)
             | Some wait \<Rightarrow>
                 let s2 = satisfy_wait wait t w status s1;
                     status' = (if unat status < length (wt_objs wait) \<and> wait_abandoned w s2
                                then status + STATUS_ABANDONED_WAIT_0 else status);
                     s3 = remove_queues (wt_objs wait) t w 0 s2
                 in (status', s3\<lparr>ws_waits := (ws_waits s3)(w := None)\<rparr>))"

section \<open>Checking a wait\<close>

definition is_thread_suspended :: "nat \<Rightarrow> wstate \<Rightarrow> bool" where
  "is_thread_suspended t s =
     (let th = ws_threads s t
      in if (case th_context th of None \<Rightarrow> False | Some cx \<Rightarrow> tx_cooperative cx) then False
         else if th_suspend th > 0 then True
         else \<not> th_bypass th \<and> ws_psuspend s (th_process th) > 0)"

text \<open>The index of the first signaled object of a list.\<close>

fun first_signaled :: "nat list \<Rightarrow> nat \<Rightarrow> nat \<Rightarrow> wstate \<Rightarrow> nat option" where
  "first_signaled [] i t s = None"
| "first_signaled (p # ps) i t s = (if object_sync_signaled p t s then Some i else first_signaled ps (Suc i) t s)"

definition wait_signaled :: "thread_wait \<Rightarrow> nat \<Rightarrow> wstate \<Rightarrow> nat option" where
  "wait_signaled wait t s =
     (if wt_select wait = SELECT_WAIT_ALL
      then if \<forall>p \<in> set (wt_objs wait). object_sync_signaled p t s then Some 0 else None
      else first_signaled (wt_objs wait) 0 t s)"

definition wait_expired :: "thread_wait \<Rightarrow> wstate \<Rightarrow> bool" where
  "wait_expired wait s \<longleftrightarrow>
     (wt_when wait \<ge> 0 \<and> wt_when wait \<le> ws_now s) \<or> (wt_when wait < 0 \<and> - wt_when wait \<le> ws_mono s)"

text \<open>The result \<^verbatim>\<open>-1\<close>, for a wait that goes on, is \<^const>\<open>None\<close>.\<close>

definition check_wait :: "nat \<Rightarrow> wstate \<Rightarrow> u32 option \<times> wstate" where
  "check_wait t s =
     (let th = ws_threads s t
      in case th_waits th of
           [] \<Rightarrow> (None, fail s)
         | w # _ \<Rightarrow>
             (case ws_waits s w of
                None \<Rightarrow> (None, fail s)
              | Some wait \<Rightarrow>
                  if wt_flags wait AND SELECT_INTERRUPTIBLE \<noteq> 0 \<and> th_system_apc th \<noteq> [] then (Some STATUS_KERNEL_APC, s)
                  else if wt_flags wait AND SELECT_COOPERATIVE_SUSPEND \<noteq> 0 \<and> th_context th \<noteq> None
                  then (Some STATUS_THREAD_WAS_SUSPENDED,
                        upd_thread t (th_context_update (map_option (tx_cooperative_update (\<lambda>_. True)))) s)
                  else if is_thread_suspended t s then (None, s)
                  else case wait_signaled wait t s of
                         Some i \<Rightarrow> (Some (of_nat i), s)
                       | None \<Rightarrow>
                           if wt_flags wait AND SELECT_ALERTABLE \<noteq> 0 \<and> th_user_apc th \<noteq> [] then (Some STATUS_USER_APC, s)
                           else if wait_expired wait s then (Some STATUS_TIMEOUT, s)
                           else (None, s)))"

section \<open>Waking threads\<close>

definition send_thread_wakeup :: "nat \<Rightarrow> u64 \<Rightarrow> u32 \<Rightarrow> wstate \<Rightarrow> wstate" where
  "send_thread_wakeup t cookie signaled s =
     (let th = ws_threads s t;
          (signaled', s1) =
            (case th_context th of
               Some cx \<Rightarrow>
                 if th_suspend_cookie th = cookie \<and> signaled \<noteq> STATUS_KERNEL_APC \<and> signaled \<noteq> STATUS_USER_APC
                 then if \<not> tx_pending cx then (signaled, upd_thread t (th_context_update (\<lambda>_. None)) s)
                      else (STATUS_KERNEL_APC, s)
                 else (signaled, s)
             | None \<Rightarrow> (signaled, s))
      in s1\<lparr>ws_log := ws_log s1 @ [\<lparr>wk_thread = t, wk_cookie = cookie, wk_signaled = signaled'\<rparr>]\<rparr>)"

lemma upd_thread_simps [simp]:
  "ws_objs (upd_thread t f s) = ws_objs s" "ws_waits (upd_thread t f s) = ws_waits s"
  "ws_threads (upd_thread t f s) = (ws_threads s)(t := f (ws_threads s t))"
  "ws_psuspend (upd_thread t f s) = ws_psuspend s" "ws_now (upd_thread t f s) = ws_now s" "ws_mono (upd_thread t f s) = ws_mono s"
  "ws_next (upd_thread t f s) = ws_next s" "ws_log (upd_thread t f s) = ws_log s" "ws_ok (upd_thread t f s) = ws_ok s"
  "ws_error (upd_thread t f s) = ws_error s"
  by (simp_all add: upd_thread_def)

lemma upd_wait_simps [simp]:
  "ws_objs (upd_wait w f s) = ws_objs s" "ws_threads (upd_wait w f s) = ws_threads s"
  "ws_waits (upd_wait w f s) = (ws_waits s)(w := map_option f (ws_waits s w))"
  "ws_psuspend (upd_wait w f s) = ws_psuspend s" "ws_now (upd_wait w f s) = ws_now s" "ws_mono (upd_wait w f s) = ws_mono s"
  "ws_next (upd_wait w f s) = ws_next s" "ws_log (upd_wait w f s) = ws_log s" "ws_ok (upd_wait w f s) = ws_ok s"
  "ws_error (upd_wait w f s) = ws_error s"
  by (simp_all add: upd_wait_def)

lemma upd_obj_simps [simp]:
  "ws_threads (upd_obj p f s) = ws_threads s" "ws_waits (upd_obj p f s) = ws_waits s"
  "ws_objs (upd_obj p f s) = (ws_objs s)(p := map_option f (ws_objs s p))"
  "ws_psuspend (upd_obj p f s) = ws_psuspend s" "ws_now (upd_obj p f s) = ws_now s" "ws_mono (upd_obj p f s) = ws_mono s"
  "ws_next (upd_obj p f s) = ws_next s" "ws_log (upd_obj p f s) = ws_log s" "ws_ok (upd_obj p f s) = ws_ok s"
  "ws_error (upd_obj p f s) = ws_error s"
  by (simp_all add: upd_obj_def)

lemma fail_simps [simp]:
  "ws_objs (fail s) = ws_objs s" "ws_threads (fail s) = ws_threads s" "ws_waits (fail s) = ws_waits s"
  "ws_psuspend (fail s) = ws_psuspend s" "ws_now (fail s) = ws_now s" "ws_mono (fail s) = ws_mono s"
  "ws_next (fail s) = ws_next s" "ws_log (fail s) = ws_log s" "ws_ok (fail s) = False" "ws_error (fail s) = ws_error s"
  by (simp_all add: fail_def)

text \<open>Only the wait at the head of the thread's chain is removed by \<open>end_wait\<close>; the other steps keep the chains.\<close>

lemma satisfied_waits:
  "th_waits (ws_threads (object_sync_satisfied p t w s) u) = th_waits (ws_threads s u)"
  by (auto simp: object_sync_satisfied_def mutex_sync_satisfied_def do_grab_def semaphore_sync_satisfied_def set_data_def
      Let_def split: option.split sync_data.split)

lemma satisfy_all_waits: "th_waits (ws_threads (satisfy_all ps t w s) u) = th_waits (ws_threads s u)"
  by (induction ps arbitrary: s) (simp_all add: satisfied_waits)

lemma remove_queues_threads [simp]: "ws_threads (remove_queues ps t w i s) = ws_threads s"
  by (induction ps arbitrary: s i) (simp_all add: remove_queue_def)

lemma end_wait_waits:
  "th_waits (ws_threads (snd (end_wait t st s)) u) =
   (if u = t then tl (th_waits (ws_threads s t)) else th_waits (ws_threads s u))"
  by (auto simp: end_wait_def satisfy_wait_def Let_def satisfied_waits satisfy_all_waits split: list.split option.split)

lemma check_wait_waits: "th_waits (ws_threads (snd (check_wait t s)) u) = th_waits (ws_threads s u)"
  by (auto simp: check_wait_def Let_def split: list.split option.split)

lemma send_wakeup_waits: "th_waits (ws_threads (send_thread_wakeup t c st s) u) = th_waits (ws_threads s u)"
  by (auto simp: send_thread_wakeup_def Let_def split: option.split)

definition wait_cookie :: "nat \<Rightarrow> wstate \<Rightarrow> u64" where
  "wait_cookie w s = (case ws_waits s w of None \<Rightarrow> 0 | Some wait \<Rightarrow> wt_cookie wait)"

function wake_thread :: "nat \<Rightarrow> wstate \<Rightarrow> nat \<times> wstate" where
  "wake_thread t s =
     (case th_waits (ws_threads s t) of
        [] \<Rightarrow> (0, s)
      | w # _ \<Rightarrow>
          (case check_wait t s of
             (None, s1) \<Rightarrow> (0, s1)
           | (Some signaled, s1) \<Rightarrow>
               let cookie = wait_cookie w s1;
                   (signaled', s2) = end_wait t signaled s1;
                   s3 = (if cookie \<noteq> 0 then send_thread_wakeup t cookie signaled' s2 else s2);
                   (n, s4) = wake_thread t s3
               in (n + 1, s4)))"
  by pat_completeness auto

termination wake_thread
proof (relation "measure (\<lambda>(t, s). length (th_waits (ws_threads s t)))", goal_cases)
  case (2 t s w ws r s1 signaled cookie y signaled' s2 s3)
  have "th_waits (ws_threads s2 t) = tl (th_waits (ws_threads s t))"
    using end_wait_waits [of t signaled s1 t] check_wait_waits [of t s t] 2(2,3,5,6) by (metis snd_conv)
  then show ?case using 2 by (simp add: send_wakeup_waits)
qed simp

declare wake_thread.simps [simp del]

lemma wake_thread_None:
  "th_waits (ws_threads s t) = w # ws \<Longrightarrow> check_wait t s = (None, s1) \<Longrightarrow> wake_thread t s = (0, s1)"
  by (simp add: wake_thread.simps)

lemma wake_thread_Nil: "th_waits (ws_threads s t) = [] \<Longrightarrow> wake_thread t s = (0, s)"
  by (simp add: wake_thread.simps)

lemma wake_thread_Some:
  assumes "th_waits (ws_threads s t) = w # ws" "check_wait t s = (Some sg, s1)" "end_wait t sg s1 = (sg', s2)"
    "s3 = (if wait_cookie w s1 \<noteq> 0 then send_thread_wakeup t (wait_cookie w s1) sg' s2 else s2)"
    "wake_thread t s3 = (m, s4)"
  shows "wake_thread t s = (m + 1, s4)"
  unfolding wake_thread.simps [of t s] using assms by (simp add: Let_def split: if_splits)

definition queue_of :: "nat \<Rightarrow> wstate \<Rightarrow> wait_queue_entry list" where
  "queue_of p s = (case ws_objs s p of None \<Rightarrow> [] | Some ob \<Rightarrow> so_queue ob)"

text \<open>Ending waits only removes entries from queues.\<close>

definition queues_shrink :: "wstate \<Rightarrow> wstate \<Rightarrow> bool" where
  "queues_shrink s s' \<longleftrightarrow> (\<forall>p. \<exists>P. queue_of p s' = filter P (queue_of p s))"

lemma queues_shrink_refl [simp]: "queues_shrink s s"
  unfolding queues_shrink_def by (intro allI exI [of _ "\<lambda>_. True"]) simp

lemma queues_shrink_trans: "queues_shrink s s1 \<Longrightarrow> queues_shrink s1 s2 \<Longrightarrow> queues_shrink s s2"
  unfolding queues_shrink_def by (metis filter_filter)

lemma queues_shrink_same: "(\<And>p. queue_of p s' = queue_of p s) \<Longrightarrow> queues_shrink s s'"
  unfolding queues_shrink_def by (intro allI exI [of _ "\<lambda>_. True"]) simp

lemma queue_of_set_data [simp]: "queue_of q (set_data p d s) = queue_of q s"
  by (auto simp: queue_of_def set_data_def split: option.split)

lemma queue_of_cong: "ws_objs s' = ws_objs s \<Longrightarrow> queue_of q s' = queue_of q s"
  by (simp add: queue_of_def)

lemma queue_of_simps [simp]:
  "queue_of q (upd_thread t f s) = queue_of q s" "queue_of q (upd_wait w g s) = queue_of q s" "queue_of q (fail s) = queue_of q s"
  by (simp_all add: queue_of_def)

lemma queue_of_satisfied [simp]: "queue_of q (object_sync_satisfied p t w s) = queue_of q s"
  by (auto simp: object_sync_satisfied_def mutex_sync_satisfied_def do_grab_def semaphore_sync_satisfied_def Let_def
      split: option.split sync_data.split)

lemma queue_of_satisfy_all [simp]: "queue_of q (satisfy_all ps t w s) = queue_of q s"
  by (induction ps arbitrary: s) simp_all

lemma queue_of_remove: "queue_of q (remove_queue p e s) = (if q = p then filter (\<lambda>x. x \<noteq> e) (queue_of q s) else queue_of q s)"
  by (auto simp: queue_of_def remove_queue_def split: option.split)

lemma remove_queues_shrink: "queues_shrink s (remove_queues ps t w i s)"
proof (induction ps arbitrary: i s)
  case (Cons p ps)
  have "queues_shrink s (remove_queue p e s)" for e
    unfolding queues_shrink_def queue_of_remove
  proof
    fix q
    show "\<exists>P. (if q = p then filter (\<lambda>x. x \<noteq> e) (queue_of q s) else queue_of q s) = filter P (queue_of q s)"
      by (rule exI [of _ "\<lambda>x. q = p \<longrightarrow> x \<noteq> e"]) simp
  qed
  then show ?case using Cons queues_shrink_trans unfolding remove_queues.simps by blast
qed simp

lemma queue_of_satisfy_wait [simp]: "queue_of q (satisfy_wait wait t w st s) = queue_of q s"
  by (simp add: satisfy_wait_def)

lemma end_wait_shrink: "queues_shrink s (snd (end_wait t st s))"
proof (cases "th_waits (ws_threads s t)")
  case Nil
  then show ?thesis by (simp add: end_wait_def queues_shrink_same)
next
  case (Cons w ws)
  let ?s1 = "upd_thread t (th_waits_update tl) s"
  show ?thesis
  proof (cases "ws_waits s w")
    case None
    then show ?thesis using Cons by (simp add: end_wait_def Let_def queues_shrink_same)
  next
    case (Some wait)
    let ?s2 = "satisfy_wait wait t w st ?s1"
    let ?s3 = "remove_queues (wt_objs wait) t w 0 ?s2"
    have "queues_shrink s ?s2" by (rule queues_shrink_same) simp
    then have "queues_shrink s ?s3" using remove_queues_shrink queues_shrink_trans by blast
    moreover have "queues_shrink ?s3 (snd (end_wait t st s))"
      by (rule queues_shrink_same, rule queue_of_cong) (use Cons Some in \<open>simp add: end_wait_def Let_def\<close>)
    ultimately show ?thesis by (rule queues_shrink_trans)
  qed
qed

lemma check_wait_objs [simp]: "ws_objs (snd (check_wait t s)) = ws_objs s" "ws_waits (snd (check_wait t s)) = ws_waits s"
  by (auto simp: check_wait_def Let_def split: list.split option.split)

lemma send_wakeup_objs [simp]:
  "ws_objs (send_thread_wakeup t c st s) = ws_objs s" "ws_waits (send_thread_wakeup t c st s) = ws_waits s"
  by (auto simp: send_thread_wakeup_def Let_def split: option.split)

lemma wake_thread_chain:
  "wake_thread t s = (n, s') \<Longrightarrow>
   n \<le> length (th_waits (ws_threads s t)) \<and> queues_shrink s s' \<and>
   (\<forall>u. th_waits (ws_threads s' u) = (if u = t then drop n (th_waits (ws_threads s t)) else th_waits (ws_threads s u)))"
proof (induction t s arbitrary: n s' rule: wake_thread.induct)
  case (1 t s)
  show ?case
  proof (cases "th_waits (ws_threads s t)")
    case Nil
    then show ?thesis using 1(2) by (simp add: wake_thread.simps)
  next
    case (Cons w ws)
    obtain r s1 where c: "check_wait t s = (r, s1)" by (metis surj_pair)
    have s1: "ws_objs s1 = ws_objs s" "\<And>u. th_waits (ws_threads s1 u) = th_waits (ws_threads s u)"
      using check_wait_objs [of t s] check_wait_waits [of t s] c by simp_all
    show ?thesis
    proof (cases r)
      case None
      then have "n = 0" "s' = s1" using 1(2) Cons c by (auto simp: wake_thread.simps)
      then show ?thesis using s1 queues_shrink_same [of s1 s] queue_of_cong [of s1 s] by simp
    next
      case (Some sg)
      define cookie where "cookie = wait_cookie w s1"
      obtain sg' s2 where e: "end_wait t sg s1 = (sg', s2)" by (metis surj_pair)
      define s3 where "s3 = (if cookie \<noteq> 0 then send_thread_wakeup t cookie sg' s2 else s2)"
      obtain m s4 where wk: "wake_thread t s3 = (m, s4)" by (metis surj_pair)
      have r: "n = m + 1" "s' = s4"
        using wake_thread_Some [OF Cons c [unfolded Some] e s3_def [unfolded cookie_def] wk] 1(2) by simp_all
      have w3: "\<And>u. th_waits (ws_threads s3 u) = (if u = t then ws else th_waits (ws_threads s u))"
        using end_wait_waits [of t sg s1] e s1(2) Cons by (simp add: s3_def send_wakeup_waits)
      have q3: "queues_shrink s s3"
      proof -
        have "queues_shrink s1 s2" using end_wait_shrink [of s1 t sg] e by simp
        moreover have "queues_shrink s s1" by (rule queues_shrink_same, rule queue_of_cong) (use s1 in simp)
        moreover have "queues_shrink s2 s3" by (rule queues_shrink_same, rule queue_of_cong) (simp add: s3_def)
        ultimately show ?thesis using queues_shrink_trans by blast
      qed
      have ih: "m \<le> length (th_waits (ws_threads s3 t)) \<and> queues_shrink s3 s4 \<and>
         (\<forall>u. th_waits (ws_threads s4 u) = (if u = t then drop m (th_waits (ws_threads s3 t)) else th_waits (ws_threads s3 u)))"
        by (rule 1(1) [OF Cons c [symmetric] _ cookie_def e [symmetric] _ s3_def wk]) (use Some in simp_all)
      show ?thesis using ih w3 q3 r Cons queues_shrink_trans by auto
    qed
  qed
qed

fun wake_scan :: "wait_queue_entry list \<Rightarrow> wstate \<Rightarrow> nat \<times> wstate" where
  "wake_scan [] s = (0, s)"
| "wake_scan (e # es) s =
     (let (n, s') = wake_thread (we_thread e) s in if n = 0 then wake_scan es s' else (n, s'))"

lemma wake_scan_result:
  "wake_scan es s = (n, s') \<Longrightarrow> n > 0 \<Longrightarrow>
   queues_shrink s s' \<and>
   (\<exists>e \<in> set es. n \<le> length (th_waits (ws_threads s (we_thread e))) \<and>
     (\<forall>u. th_waits (ws_threads s' u) =
        (if u = we_thread e then drop n (th_waits (ws_threads s u)) else th_waits (ws_threads s u))))"
proof (induction es arbitrary: s)
  case (Cons e es)
  obtain m s1 where wk: "wake_thread (we_thread e) s = (m, s1)" by (metis surj_pair)
  note W = wake_thread_chain [OF wk]
  show ?case
  proof (cases "m = 0")
    case True
    then have "wake_scan es s1 = (n, s')" using Cons.prems(1) wk by simp
    moreover have "\<And>u. th_waits (ws_threads s1 u) = th_waits (ws_threads s u)" using W True by simp
    ultimately show ?thesis using Cons.IH [of s1] Cons.prems(2) W queues_shrink_trans by auto
  next
    case False
    then have "m = n" "s1 = s'" using Cons.prems(1) wk by auto
    then show ?thesis using W by auto
  qed
qed simp

definition queue_measure :: "nat \<Rightarrow> wstate \<Rightarrow> nat" where
  "queue_measure p s = sum_list (map (\<lambda>e. length (th_waits (ws_threads s (we_thread e)))) (queue_of p s))"

lemma sum_filter_le:
  "(\<And>e. (f' e :: nat) \<le> f e) \<Longrightarrow> sum_list (map f' (filter P q)) \<le> sum_list (map f q)"
  by (induction q) (auto intro: add_mono le_SucI trans_le_add2)

lemma sum_filter_less:
  assumes "\<And>e. (f' e :: nat) \<le> f e" "e \<in> set q" "f' e < f e"
  shows "sum_list (map f' (filter P q)) < sum_list (map f q)"
  using assms(2)
proof (induction q)
  case (Cons x q)
  show ?case
  proof (cases "e = x")
    case True
    then show ?thesis using assms(3) sum_filter_le [of f' f P q, OF assms(1)] by (cases "P x") auto
  next
    case False
    then have "sum_list (map f' (filter P q)) < sum_list (map f q)" using Cons by simp
    then show ?thesis using assms(1) [of x] by (cases "P x") auto
  qed
qed simp

lemma wake_scan_measure:
  assumes "wake_scan (queue_of p s) s = (n, s')" "n > 0"
  shows "queue_measure p s' < queue_measure p s"
proof -
  obtain e where e: "e \<in> set (queue_of p s)" "n \<le> length (th_waits (ws_threads s (we_thread e)))"
    "\<forall>u. th_waits (ws_threads s' u) =
        (if u = we_thread e then drop n (th_waits (ws_threads s u)) else th_waits (ws_threads s u))"
    and q: "queues_shrink s s'"
    using wake_scan_result [OF assms] by blast
  obtain P where P: "queue_of p s' = filter P (queue_of p s)" using q by (auto simp: queues_shrink_def)
  show ?thesis unfolding queue_measure_def P
    by (rule sum_filter_less [OF _ e(1)]) (use e assms(2) in auto)
qed

text \<open>
  \<open>max_wake = 0\<close> wakes all the threads that can be woken.  After a wakeup the scan restarts at the head of the
  queue; a scan that wakes no thread is the last one.
\<close>

function wake_up :: "nat \<Rightarrow> nat \<Rightarrow> wstate \<Rightarrow> wstate" where
  "wake_up p max_wake s =
     (case wake_scan (queue_of p s) s of
        (n, s') \<Rightarrow> if n = 0 then s' else if max_wake = 1 then s' else wake_up p (max_wake - 1) s')"
  by pat_completeness auto

termination wake_up
proof (relation "measure (\<lambda>(p, m, s). queue_measure p s)", goal_cases)
  case (2 p m s n s')
  then show ?case using wake_scan_measure [of p s n s'] by simp
qed simp

declare wake_up.simps [simp del]

end
