(* ===== verification/Sync_Ops.thy ===== *)
theory Sync_Ops
  imports Sync
begin

unbundle bit_operations_syntax

text \<open>
  The operations on sync objects and the requests built on them: setting and releasing events, mutexes and
  semaphores, selecting on handles, wait timeouts, suspending and resuming threads, and the part of
  thread death that concerns waits and mutexes.
\<close>

section \<open>Signaling\<close>

definition event_sync_signal :: "nat \<Rightarrow> bool \<Rightarrow> wstate \<Rightarrow> wstate" where
  "event_sync_signal p signal s =
     (case map_option so_data (ws_objs s p) of
        Some (Event_Sync event) \<Rightarrow>
          let s1 = set_data p (Event_Sync (event\<lparr>es_signaled := signal\<rparr>)) s
          in if signal then wake_up p (if es_manual event then 0 else 1) s1 else s1
      | _ \<Rightarrow> fail s)"

definition signal_sync :: "nat \<Rightarrow> wstate \<Rightarrow> wstate" where
  "signal_sync p s = event_sync_signal p True s"

definition reset_sync :: "nat \<Rightarrow> wstate \<Rightarrow> wstate" where
  "reset_sync p s = event_sync_signal p False s"

definition do_release :: "nat \<Rightarrow> nat \<Rightarrow> u32 \<Rightarrow> wstate \<Rightarrow> bool \<times> wstate" where
  "do_release p t count s =
     (case map_option so_data (ws_objs s p) of
        Some (Mutex_Sync mutex) \<Rightarrow>
          if ms_count mutex = 0 \<or> ms_owner mutex \<noteq> Some t then (False, set_werror STATUS_MUTANT_NOT_OWNED s)
          else if ms_count mutex - count = 0
          then let s1 = set_data p (Mutex_Sync (mutex\<lparr>ms_count := 0, ms_owner := None\<rparr>)) s;
                   s2 = upd_thread t (th_mutexes_update (remove1 p)) s1
               in (True, wake_up p 0 s2)
          else (True, set_data p (Mutex_Sync (mutex\<lparr>ms_count := ms_count mutex - count\<rparr>)) s)
      | _ \<Rightarrow> (False, fail s))"

text \<open>The previous count is returned with the success flag.\<close>

definition release_semaphore :: "nat \<Rightarrow> u32 \<Rightarrow> wstate \<Rightarrow> bool \<times> u32 \<times> wstate" where
  "release_semaphore p count s =
     (case map_option so_data (ws_objs s p) of
        Some (Semaphore_Sync sem) \<Rightarrow>
          if sem_count sem + count < sem_count sem \<or> sem_count sem + count > sem_max sem
          then (False, sem_count sem, set_werror STATUS_SEMAPHORE_LIMIT_EXCEEDED s)
          else if sem_count sem \<noteq> 0
          then (True, sem_count sem, set_data p (Semaphore_Sync (sem\<lparr>sem_count := sem_count sem + count\<rparr>)) s)
          else (True, sem_count sem, wake_up p (unat count) (set_data p (Semaphore_Sync (sem\<lparr>sem_count := count\<rparr>)) s))
      | _ \<Rightarrow> (False, 0, fail s))"

section \<open>Creating sync objects\<close>

definition new_sync :: "sync_data \<Rightarrow> wstate \<Rightarrow> nat \<times> wstate" where
  "new_sync d s = (ws_next s, s\<lparr>ws_objs := (ws_objs s)(ws_next s \<mapsto> \<lparr>so_data = d, so_queue = []\<rparr>), ws_next := ws_next s + 1\<rparr>)"

text \<open>The allocation of the object may fail; the fast path through an in-process sync device is not taken.\<close>

definition alloc_sync :: "(nat \<Rightarrow> bool) \<Rightarrow> sync_data \<Rightarrow> wstate \<Rightarrow> nat option \<times> wstate" where
  "alloc_sync ok d s =
     (let s0 = s\<lparr>ws_allocs := ws_allocs s + 1\<rparr>
      in if \<not> ok (ws_allocs s) then (None, set_werror STATUS_NO_MEMORY s0)
         else let (p, s1) = new_sync d s0 in (Some p, s1))"

definition create_server_internal_sync :: "(nat \<Rightarrow> bool) \<Rightarrow> bool \<Rightarrow> bool \<Rightarrow> wstate \<Rightarrow> nat option \<times> wstate" where
  "create_server_internal_sync ok manual signaled s =
     alloc_sync ok (Event_Sync \<lparr>es_manual = manual, es_signaled = signaled\<rparr>) s"

definition create_event_sync :: "(nat \<Rightarrow> bool) \<Rightarrow> bool \<Rightarrow> bool \<Rightarrow> wstate \<Rightarrow> nat option \<times> wstate" where
  "create_event_sync ok manual signaled s =
     alloc_sync ok (Event_Sync \<lparr>es_manual = manual, es_signaled = signaled\<rparr>) s"

definition create_mutex_sync :: "(nat \<Rightarrow> bool) \<Rightarrow> nat \<Rightarrow> bool \<Rightarrow> wstate \<Rightarrow> nat option \<times> wstate" where
  "create_mutex_sync ok t owned s =
     (let m = \<lparr>ms_owner = None, ms_count = 0, ms_abandoned = False\<rparr>
      in case alloc_sync ok (Mutex_Sync m) s of
           (None, s1) \<Rightarrow> (None, s1)
         | (Some p, s1) \<Rightarrow> (Some p, if owned then do_grab p m t s1 else s1))"

definition create_semaphore_sync :: "(nat \<Rightarrow> bool) \<Rightarrow> u32 \<Rightarrow> u32 \<Rightarrow> wstate \<Rightarrow> nat option \<times> wstate" where
  "create_semaphore_sync ok initial max_count s =
     alloc_sync ok (Semaphore_Sync \<lparr>sem_count = initial, sem_max = max_count\<rparr>) s"

text \<open>The check that the request to create a semaphore makes on its arguments.\<close>

definition semaphore_args_ok :: "u32 \<Rightarrow> u32 \<Rightarrow> bool" where
  "semaphore_args_ok initial max_count \<longleftrightarrow> \<not> (max_count = 0 \<or> initial > max_count)"

section \<open>Requests on sync objects\<close>

datatype event_op = PULSE_EVENT | SET_EVENT | RESET_EVENT

text \<open>
  \<open>wc_wait_obj\<close> looks up a handle for waiting, \<open>wc_signal_obj\<close> for signaling (with the access rights of the
  handle), \<open>wc_event_obj\<close>, \<open>wc_mutex_obj\<close> and \<open>wc_semaphore_obj\<close> look for an object of that type with the given
  rights.  All give the sync object or the error.  They stand for the handle tables.
\<close>

record wcontext =
  wc_ok :: "nat \<Rightarrow> bool"
  wc_wait_obj :: "u32 \<Rightarrow> u32 + nat"
  wc_signal_obj :: "u32 \<Rightarrow> u32 + nat \<times> u32"
  wc_event_obj :: "u32 \<Rightarrow> u32 \<Rightarrow> u32 + nat"
  wc_mutex_obj :: "u32 \<Rightarrow> u32 \<Rightarrow> u32 + nat"
  wc_semaphore_obj :: "u32 \<Rightarrow> u32 \<Rightarrow> u32 + nat"

text \<open>
  An operation code out of range is \<^const>\<open>None\<close>.  The reply, here the previous state, is \<^const>\<open>None\<close> when the handle is refused.
\<close>

definition req_event_op :: "wcontext \<Rightarrow> u32 \<Rightarrow> event_op option \<Rightarrow> wstate \<Rightarrow> bool option \<times> wstate" where
  "req_event_op cx h op s =
     (case wc_event_obj cx h EVENT_MODIFY_STATE of
        Inl e \<Rightarrow> (None, set_werror e s)
      | Inr p \<Rightarrow>
          (case map_option so_data (ws_objs s p) of
             Some (Event_Sync event) \<Rightarrow>
               (Some (es_signaled event),
                case op of
                  Some PULSE_EVENT \<Rightarrow> reset_sync p (signal_sync p s)
                | Some SET_EVENT \<Rightarrow> signal_sync p s
                | Some RESET_EVENT \<Rightarrow> reset_sync p s
                | None \<Rightarrow> set_werror STATUS_INVALID_PARAMETER s)
           | _ \<Rightarrow> (None, fail s)))"

definition req_query_event :: "wcontext \<Rightarrow> u32 \<Rightarrow> wstate \<Rightarrow> (bool \<times> bool) option \<times> wstate" where
  "req_query_event cx h s =
     (case wc_event_obj cx h EVENT_QUERY_STATE of
        Inl e \<Rightarrow> (None, set_werror e s)
      | Inr p \<Rightarrow>
          (case map_option so_data (ws_objs s p) of
             Some (Event_Sync event) \<Rightarrow> (Some (es_manual event, es_signaled event), s) | _ \<Rightarrow> (None, fail s)))"

definition req_release_mutex :: "wcontext \<Rightarrow> u32 \<Rightarrow> nat \<Rightarrow> wstate \<Rightarrow> u32 option \<times> wstate" where
  "req_release_mutex cx h t s =
     (case wc_mutex_obj cx h 0 of
        Inl e \<Rightarrow> (None, set_werror e s)
      | Inr p \<Rightarrow>
          (case map_option so_data (ws_objs s p) of
             Some (Mutex_Sync mutex) \<Rightarrow> (Some (ms_count mutex), snd (do_release p t 1 s)) | _ \<Rightarrow> (None, fail s)))"

definition req_query_mutex :: "wcontext \<Rightarrow> u32 \<Rightarrow> nat \<Rightarrow> wstate \<Rightarrow> (u32 \<times> bool \<times> bool) option \<times> wstate" where
  "req_query_mutex cx h t s =
     (case wc_mutex_obj cx h MUTANT_QUERY_STATE of
        Inl e \<Rightarrow> (None, set_werror e s)
      | Inr p \<Rightarrow>
          (case map_option so_data (ws_objs s p) of
             Some (Mutex_Sync mutex) \<Rightarrow> (Some (ms_count mutex, ms_owner mutex = Some t, ms_abandoned mutex), s)
           | _ \<Rightarrow> (None, fail s)))"

definition req_release_semaphore :: "wcontext \<Rightarrow> u32 \<Rightarrow> u32 \<Rightarrow> wstate \<Rightarrow> u32 option \<times> wstate" where
  "req_release_semaphore cx h count s =
     (case wc_semaphore_obj cx h SEMAPHORE_MODIFY_STATE of
        Inl e \<Rightarrow> (None, set_werror e s)
      | Inr p \<Rightarrow> (case release_semaphore p count s of (b, prev, s1) \<Rightarrow> (Some prev, s1)))"

definition req_query_semaphore :: "wcontext \<Rightarrow> u32 \<Rightarrow> wstate \<Rightarrow> (u32 \<times> u32) option \<times> wstate" where
  "req_query_semaphore cx h s =
     (case wc_semaphore_obj cx h SEMAPHORE_QUERY_STATE of
        Inl e \<Rightarrow> (None, set_werror e s)
      | Inr p \<Rightarrow>
          (case map_option so_data (ws_objs s p) of
             Some (Semaphore_Sync sem) \<Rightarrow> (Some (sem_count sem, sem_max sem), s) | _ \<Rightarrow> (None, fail s)))"

text \<open>The \<^verbatim>\<open>signal\<close> operation of the three types, as a signal-and-wait calls it.\<close>

definition event_signal :: "nat \<Rightarrow> u32 \<Rightarrow> wstate \<Rightarrow> bool \<times> wstate" where
  "event_signal p access s =
     (if access AND EVENT_MODIFY_STATE = 0 then (False, set_werror STATUS_ACCESS_DENIED s)
      else (True, event_sync_signal p True s))"

definition mutex_signal :: "nat \<Rightarrow> u32 \<Rightarrow> nat \<Rightarrow> wstate \<Rightarrow> bool \<times> wstate" where
  "mutex_signal p access t s =
     (if access AND SYNCHRONIZE = 0 then (False, set_werror STATUS_ACCESS_DENIED s)
      else do_release p t 1 s)"

definition semaphore_signal :: "nat \<Rightarrow> u32 \<Rightarrow> wstate \<Rightarrow> bool \<times> wstate" where
  "semaphore_signal p access s =
     (if access AND SEMAPHORE_MODIFY_STATE = 0 then (False, set_werror STATUS_ACCESS_DENIED s)
      else case release_semaphore p 1 s of (b, prev, s1) \<Rightarrow> (b, s1))"

section \<open>Waiting\<close>

text \<open>An object without a wait queue cannot be waited on; the index of the first such object is returned.\<close>

fun add_queues :: "nat list \<Rightarrow> nat \<Rightarrow> nat \<Rightarrow> nat \<Rightarrow> wstate \<Rightarrow> nat option \<times> wstate" where
  "add_queues [] t w i s = (None, s)"
| "add_queues (p # ps) t w i s =
     (if ws_objs s p = None then (Some i, set_werror STATUS_OBJECT_TYPE_MISMATCH s)
      else add_queues ps t w (Suc i) (add_queue p \<lparr>we_thread = t, we_wait = w, we_index = i\<rparr> s))"

definition wait_on :: "wcontext \<Rightarrow> nat \<Rightarrow> select_opcode \<Rightarrow> nat list \<Rightarrow> u32 \<Rightarrow> int \<Rightarrow> wstate \<Rightarrow> bool \<times> wstate" where
  "wait_on cx t op objs flags when s =
     (let s0 = s\<lparr>ws_allocs := ws_allocs s + 1\<rparr>
      in if \<not> wc_ok cx (ws_allocs s) then (False, set_werror STATUS_NO_MEMORY s0)
         else let w = ws_next s;
                  wait = \<lparr>wt_thread = t, wt_flags = flags, wt_abandoned = False, wt_select = op, wt_cookie = 0, wt_when = when,
                          wt_user = False, wt_objs = objs\<rparr>;
                  s1 = s0\<lparr>ws_waits := (ws_waits s0)(w \<mapsto> wait), ws_next := w + 1\<rparr>;
                  s2 = upd_thread t (th_waits_update (\<lambda>l. w # l)) s1
              in case add_queues objs t w 0 s2 of
                   (Some i, s3) \<Rightarrow>
                     (False, snd (end_wait t (ws_error s3) (upd_wait w (wt_objs_update (take i)) s3)))
                 | (None, s3) \<Rightarrow> (th_waits (ws_threads s3 t) \<noteq> [], s3))"

fun get_wait_objs :: "wcontext \<Rightarrow> u32 list \<Rightarrow> u32 + nat list" where
  "get_wait_objs cx [] = Inr []"
| "get_wait_objs cx (h # hs) =
     (case wc_wait_obj cx h of
        Inl e \<Rightarrow> Inl e
      | Inr p \<Rightarrow> (case get_wait_objs cx hs of Inl e \<Rightarrow> Inl e | Inr ps \<Rightarrow> Inr (p # ps)))"

definition wait_on_handles ::
  "wcontext \<Rightarrow> nat \<Rightarrow> select_opcode \<Rightarrow> u32 list \<Rightarrow> u32 \<Rightarrow> int \<Rightarrow> wstate \<Rightarrow> bool \<times> wstate" where
  "wait_on_handles cx t op handles flags when s =
     (let s0 = (if length handles \<le> MAXIMUM_WAIT_OBJECTS then s else fail s)
      in case get_wait_objs cx handles of
           Inl e \<Rightarrow> (False, set_werror e s0)
         | Inr objs \<Rightarrow> wait_on cx t op objs flags when s0)"

definition signal_object :: "wcontext \<Rightarrow> nat \<Rightarrow> u32 \<Rightarrow> wstate \<Rightarrow> bool \<times> wstate" where
  "signal_object cx t handle s =
     (case wc_signal_obj cx handle of
        Inl e \<Rightarrow> (False, set_werror e s)
      | Inr (p, access) \<Rightarrow>
          (case map_option so_data (ws_objs s p) of
             Some (Event_Sync _) \<Rightarrow> event_signal p access s
           | Some (Mutex_Sync _) \<Rightarrow> mutex_signal p access t s
           | Some (Semaphore_Sync _) \<Rightarrow> semaphore_signal p access s
           | None \<Rightarrow> (False, set_werror STATUS_OBJECT_TYPE_MISMATCH s)))"

text \<open>
  The end of \<open>select_on\<close>: the wait is over if its condition holds already; otherwise the timeout is armed and the
  thread waits for a wakeup with the cookie.  The result tells whether the request is complete.
\<close>

definition select_finish :: "wcontext \<Rightarrow> nat \<Rightarrow> u64 \<Rightarrow> wstate \<Rightarrow> bool \<times> wstate" where
  "select_finish cx t cookie s =
     (case check_wait t s of
        (Some status, s1) \<Rightarrow> (case end_wait t status s1 of (status', s2) \<Rightarrow> (True, set_werror status' s2))
      | (None, s1) \<Rightarrow>
          (case th_waits (ws_threads s1 t) of
             [] \<Rightarrow> (True, fail s1)
           | w # _ \<Rightarrow>
               (case ws_waits s1 w of
                  None \<Rightarrow> (True, fail s1)
                | Some wait \<Rightarrow>
                    if wt_when wait \<noteq> TIMEOUT_INFINITE \<and> \<not> wc_ok cx (ws_allocs s1)
                    then (True, snd (end_wait t STATUS_NO_MEMORY
                                  (set_werror STATUS_NO_MEMORY (s1\<lparr>ws_allocs := ws_allocs s1 + 1\<rparr>))))
                    else let s2 = (if wt_when wait \<noteq> TIMEOUT_INFINITE
                                   then upd_wait w (wt_user_update (\<lambda>_. True)) (s1\<lparr>ws_allocs := ws_allocs s1 + 1\<rparr>)
                                   else s1);
                             s3 = upd_wait w (wt_cookie_update (\<lambda>_. cookie)) s2
                         in (False, set_werror STATUS_PENDING s3))))"

text \<open>
  The operation is given by its code (\<^const>\<open>None\<close> for one out of range), its size in bytes and the words that follow the
  code.  The two keyed-event operations are not covered: their result is \<^const>\<open>None\<close>.
\<close>

definition select_on ::
  "wcontext \<Rightarrow> nat \<Rightarrow> select_opcode option \<Rightarrow> u32 \<Rightarrow> u32 list \<Rightarrow> u64 \<Rightarrow> u32 \<Rightarrow> int \<Rightarrow> wstate \<Rightarrow> (bool \<times> wstate) option" where
  "select_on cx t op op_size ws cookie flags when s =
     (case op of
        None \<Rightarrow> Some (True, set_werror STATUS_INVALID_PARAMETER s)
      | Some SELECT_NONE \<Rightarrow>
          Some (case wait_on cx t SELECT_NONE [] flags when s of
                  (False, s1) \<Rightarrow> (True, s1) | (True, s1) \<Rightarrow> select_finish cx t cookie s1)
      | Some SELECT_SIGNAL_AND_WAIT \<Rightarrow>
          Some (case wait_on_handles cx t SELECT_SIGNAL_AND_WAIT [ws ! 0] flags when s of
                  (False, s1) \<Rightarrow> (True, s1)
                | (True, s1) \<Rightarrow>
                    if ws ! 1 = 0 then select_finish cx t cookie s1
                    else case signal_object cx t (ws ! 1) s1 of
                           (False, s2) \<Rightarrow> (True, snd (end_wait t (ws_error s2) s2))
                         | (True, s2) \<Rightarrow>
                             if th_waits (ws_threads s2 t) = [] then (True, s2) else select_finish cx t cookie s2)
      | Some SELECT_KEYED_EVENT_WAIT \<Rightarrow> None
      | Some SELECT_KEYED_EVENT_RELEASE \<Rightarrow> None
      | Some wait_op \<Rightarrow>
          let count = (op_size - 4) div 4
          in if op_size < 4 \<or> count > of_nat MAXIMUM_WAIT_OBJECTS
             then Some (True, set_werror STATUS_INVALID_PARAMETER s)
             else Some (case wait_on_handles cx t wait_op (take (unat count) ws) flags when s of
                          (False, s1) \<Rightarrow> (True, s1) | (True, s1) \<Rightarrow> select_finish cx t cookie s1))"

section \<open>Timeouts, suspension and death of threads\<close>

definition thread_timeout :: "nat \<Rightarrow> wstate \<Rightarrow> wstate" where
  "thread_timeout w s =
     (case ws_waits s w of
        None \<Rightarrow> fail s
      | Some wait \<Rightarrow>
          let t = wt_thread wait;
              s1 = upd_wait w (wt_user_update (\<lambda>_. False)) s
          in if (case th_waits (ws_threads s1 t) of [] \<Rightarrow> True | w' # _ \<Rightarrow> w' \<noteq> w) then s1
             else if is_thread_suspended t s1 then s1
             else let s2 = snd (end_wait t STATUS_TIMEOUT s1);
                      s3 = (if wt_cookie wait = 0 then fail s2 else s2)
                  in snd (wake_thread t (send_thread_wakeup t (wt_cookie wait) STATUS_TIMEOUT s3)))"

definition stop_thread :: "(nat \<Rightarrow> bool) \<Rightarrow> nat \<Rightarrow> wstate \<Rightarrow> wstate" where
  "stop_thread ok t s =
     (if th_context (ws_threads s t) \<noteq> None then s
      else let s1 = s\<lparr>ws_allocs := ws_allocs s + 1\<rparr>
           in if \<not> ok (ws_allocs s) then set_werror STATUS_NO_MEMORY s1
              else upd_thread t (th_context_update (\<lambda>_. Some \<lparr>tx_cooperative = False, tx_pending = False\<rparr>)) s1)"

definition suspend_thread :: "(nat \<Rightarrow> bool) \<Rightarrow> nat \<Rightarrow> wstate \<Rightarrow> nat \<times> wstate" where
  "suspend_thread ok t s =
     (let old_count = th_suspend (ws_threads s t)
      in if old_count < MAXIMUM_SUSPEND_COUNT
         then let s1 = (if \<not> is_thread_suspended t s then stop_thread ok t s else s)
              in (old_count, upd_thread t (th_suspend_update Suc) s1)
         else (old_count, set_werror STATUS_SUSPEND_COUNT_EXCEEDED s))"

definition resume_thread :: "nat \<Rightarrow> wstate \<Rightarrow> nat \<times> wstate" where
  "resume_thread t s =
     (let old_count = th_suspend (ws_threads s t)
      in if old_count > 0
         then let s1 = upd_thread t (th_suspend_update (\<lambda>n. n - 1)) s
              in (old_count, if \<not> is_thread_suspended t s1 then snd (wake_thread t s1) else s1)
         else (old_count, s))"

text \<open>The loop of \<open>abandon_mutexes\<close> runs until the list of owned mutexes is empty; \<^const>\<open>None\<close> is a loop that never ends.\<close>

definition abandon_mutex :: "nat \<Rightarrow> nat \<Rightarrow> wstate \<Rightarrow> wstate" where
  "abandon_mutex p t s =
     (case map_option so_data (ws_objs s p) of
        Some (Mutex_Sync mutex) \<Rightarrow>
          let s0 = (if ms_owner mutex = Some t then s else fail s);
              s1 = set_data p (Mutex_Sync (mutex\<lparr>ms_abandoned := True\<rparr>)) s0
          in snd (do_release p t (ms_count mutex) s1)
      | _ \<Rightarrow> fail s)"

partial_function (option) abandon_mutexes :: "nat \<Rightarrow> wstate \<Rightarrow> wstate option" where
  "abandon_mutexes t s =
     (case th_mutexes (ws_threads s t) of
        [] \<Rightarrow> Some s
      | p # _ \<Rightarrow> abandon_mutexes t (abandon_mutex p t s))"

fun end_waits :: "nat list \<Rightarrow> nat \<Rightarrow> wstate \<Rightarrow> wstate" where
  "end_waits [] t s = s"
| "end_waits (w # ws) t s = end_waits ws t (snd (end_wait t STATUS_THREAD_IS_TERMINATING s))"

text \<open>
  The part of \<open>kill_thread\<close> that concerns waiting: the thread's own waits end, its mutexes are abandoned and its sync
  object \<open>p\<close> is signaled.
\<close>

definition kill_thread :: "nat \<Rightarrow> nat \<Rightarrow> u32 \<Rightarrow> wstate \<Rightarrow> wstate option" where
  "kill_thread t p exit_code s =
     (if th_terminated (ws_threads s t) then Some s
      else let s1 = upd_thread t (th_terminated_update (\<lambda>_. True)) s;
               s2 = (if th_waits (ws_threads s1 t) \<noteq> []
                     then send_thread_wakeup t 0 exit_code (end_waits (th_waits (ws_threads s1 t)) t s1) else s1)
           in map_option (signal_sync p) (abandon_mutexes t s2))"

end
