(* ===== verification/Sync_Wf.thy ===== *)
theory Sync_Wf
  imports Sync_Ops
begin

unbundle bit_operations_syntax

text \<open>
  The invariant of the synchronization state (chains of waits, wait queues, owners of mutexes, counts of semaphores)
  and its preservation by the end of a wait and by waking threads; no assertion fails.  What a woken thread
  takes can only make other waits harder to satisfy.
\<close>

section \<open>The invariant\<close>

definition data_of :: "nat \<Rightarrow> wstate \<Rightarrow> sync_data option" where
  "data_of p s = map_option so_data (ws_objs s p)"

abbreviation waits_of :: "nat \<Rightarrow> wstate \<Rightarrow> nat list" where
  "waits_of t s \<equiv> th_waits (ws_threads s t)"

abbreviation mutexes_of :: "nat \<Rightarrow> wstate \<Rightarrow> nat list" where
  "mutexes_of t s \<equiv> th_mutexes (ws_threads s t)"

text \<open>Each wait in a chain exists and belongs to the thread; each wait is in the chain of its thread.\<close>

definition chains_wf :: "wstate \<Rightarrow> bool" where
  "chains_wf s \<longleftrightarrow>
     (\<forall>t. distinct (waits_of t s)) \<and>
     (\<forall>t. \<forall>w \<in> set (waits_of t s). \<exists>wait. ws_waits s w = Some wait \<and> wt_thread wait = t) \<and>
     (\<forall>w wait. ws_waits s w = Some wait \<longrightarrow> w \<in> set (waits_of (wt_thread wait) s) \<and> w < ws_next s) \<and>
     finite {w. ws_waits s w \<noteq> None}"

lemma chains_wfD:
  assumes "chains_wf s"
  shows "w \<in> set (waits_of t s) \<Longrightarrow> \<exists>wait. ws_waits s w = Some wait \<and> wt_thread wait = t"
    "ws_waits s w = Some wait \<Longrightarrow> w \<in> set (waits_of (wt_thread wait) s) \<and> w < ws_next s"
    "distinct (waits_of t s)" "finite {w. ws_waits s w \<noteq> None}"
  using assms unfolding chains_wf_def by simp_all

text \<open>The entry of a queue that belongs to the \<open>i\<close>-th object of a wait.\<close>

definition entry_of :: "wait_queue_entry \<Rightarrow> nat \<Rightarrow> wstate \<Rightarrow> bool" where
  "entry_of e p s \<longleftrightarrow> (\<exists>wait. ws_waits s (we_wait e) = Some wait \<and> we_thread e = wt_thread wait \<and>
     we_index e < length (wt_objs wait) \<and> wt_objs wait ! we_index e = p)"

definition queues_wf :: "wstate \<Rightarrow> bool" where
  "queues_wf s \<longleftrightarrow>
     (\<forall>p e. e \<in> set (queue_of p s) \<longleftrightarrow> entry_of e p s) \<and>
     (\<forall>w wait. ws_waits s w = Some wait \<longrightarrow>
        length (wt_objs wait) \<le> MAXIMUM_WAIT_OBJECTS \<and> (\<forall>p \<in> set (wt_objs wait). ws_objs s p \<noteq> None) \<and>
        (wt_select wait = SELECT_WAIT_ALL \<longrightarrow> distinct (wt_objs wait)))"

definition live_waits :: "wstate \<Rightarrow> nat" where
  "live_waits s = card {w. ws_waits s w \<noteq> None}"

text \<open>
  A mutex has an owner exactly when its count is not zero, its owner's list names it, and its count cannot
  wrap around while the waits that exist are satisfied.  A semaphore stays within its maximum.
\<close>

fun data_wf :: "nat \<Rightarrow> sync_data \<Rightarrow> wstate \<Rightarrow> bool" where
  "data_wf p (Event_Sync event) s = True"
| "data_wf p (Mutex_Sync mutex) s =
     ((ms_count mutex = 0 \<longleftrightarrow> ms_owner mutex = None) \<and> unat (ms_count mutex) + live_waits s < 2 ^ 32 \<and>
      (\<forall>t. ms_owner mutex = Some t \<longleftrightarrow> p \<in> set (mutexes_of t s)))"
| "data_wf p (Semaphore_Sync sem) s = (sem_count sem \<le> sem_max sem)"

definition objs_wf :: "wstate \<Rightarrow> bool" where
  "objs_wf s \<longleftrightarrow> (\<forall>p d. data_of p s = Some d \<longrightarrow> data_wf p d s \<and> p < ws_next s) \<and>
     (\<forall>t. distinct (mutexes_of t s) \<and> (\<forall>p \<in> set (mutexes_of t s). \<exists>m. data_of p s = Some (Mutex_Sync m)))"

definition sync_wf :: "wstate \<Rightarrow> bool" where
  "sync_wf s \<longleftrightarrow> chains_wf s \<and> queues_wf s \<and> objs_wf s"

section \<open>What satisfying a wait takes\<close>

fun consume :: "sync_data \<Rightarrow> nat \<Rightarrow> sync_data" where
  "consume (Event_Sync event) t = Event_Sync (event_sync_satisfied event)"
| "consume (Mutex_Sync mutex) t =
     Mutex_Sync (mutex\<lparr>ms_abandoned := False, ms_count := ms_count mutex + 1, ms_owner := Some t\<rparr>)"
| "consume (Semaphore_Sync sem) t = Semaphore_Sync (sem\<lparr>sem_count := sem_count sem - 1\<rparr>)"

fun newly_owned :: "sync_data \<Rightarrow> bool" where
  "newly_owned (Mutex_Sync mutex) = (ms_count mutex = 0)"
| "newly_owned _ = False"

text \<open>The parts of a state that waking threads never changes.\<close>

definition same_env :: "wstate \<Rightarrow> wstate \<Rightarrow> bool" where
  "same_env s s' \<longleftrightarrow> ws_psuspend s' = ws_psuspend s \<and> ws_now s' = ws_now s \<and> ws_mono s' = ws_mono s \<and> ws_next s' = ws_next s"

lemma same_env_refl [simp]: "same_env s s" by (simp add: same_env_def)

lemma same_env_trans: "same_env s s1 \<Longrightarrow> same_env s1 s2 \<Longrightarrow> same_env s s2" by (simp add: same_env_def)

definition same_clock :: "wstate \<Rightarrow> wstate \<Rightarrow> bool" where
  "same_clock s s' \<longleftrightarrow> ws_psuspend s' = ws_psuspend s \<and> ws_now s' = ws_now s \<and> ws_mono s' = ws_mono s"

lemma same_clock_trans: "same_clock s s1 \<Longrightarrow> same_clock s1 s2 \<Longrightarrow> same_clock s s2" by (simp add: same_clock_def)

lemma same_env_clock [simp]: "same_env s s' \<Longrightarrow> same_clock s s'" by (simp add: same_clock_def same_env_def)

lemma data_of_set_data: "data_of q (set_data p d s) = (if q = p \<and> ws_objs s p \<noteq> None then Some d else data_of q s)"
  by (auto simp: data_of_def set_data_def)

lemma set_data_simps [simp]:
  "ws_threads (set_data p d s) = ws_threads s" "ws_waits (set_data p d s) = ws_waits s"
  "ws_psuspend (set_data p d s) = ws_psuspend s" "ws_now (set_data p d s) = ws_now s" "ws_mono (set_data p d s) = ws_mono s"
  "ws_next (set_data p d s) = ws_next s" "ws_log (set_data p d s) = ws_log s" "ws_ok (set_data p d s) = ws_ok s"
  "ws_error (set_data p d s) = ws_error s"
  by (simp_all add: set_data_def)

lemma set_data_None [simp]: "ws_objs (set_data p d s) q = None \<longleftrightarrow> ws_objs s q = None"
  by (simp add: set_data_def)

lemma data_of_cong: "ws_objs s' = ws_objs s \<Longrightarrow> data_of q s' = data_of q s"
  by (simp add: data_of_def)

lemma th_mutexes_id: "th_mutexes_update (\<lambda>l. l) th = th"
  by (cases th) simp

lemma satisfied_effect:
  fixes w :: nat
  assumes d: "data_of p s = Some d" and sg: "data_signaled d t"
    and m: "\<And>mx. d = Mutex_Sync mx \<Longrightarrow> ms_count mx = 0 \<longleftrightarrow> ms_owner mx = None"
  defines "s' \<equiv> object_sync_satisfied p t w s"
  shows "\<forall>q. data_of q s' = (if q = p then Some (consume d t) else data_of q s)" "\<forall>q. queue_of q s' = queue_of q s"
    "\<forall>q. ws_objs s' q = None \<longleftrightarrow> ws_objs s q = None" "ws_ok s' = ws_ok s" "same_env s s'"
    "ws_threads s' = (ws_threads s)(t := (ws_threads s t)\<lparr>th_mutexes := (if newly_owned d then [p] else []) @ mutexes_of t s\<rparr>)"
    "\<exists>b. ws_waits s' = (ws_waits s)(w := map_option (wt_abandoned_update (\<lambda>a. a \<or> b)) (ws_waits s w))"
proof -
  obtain ob where ob: "ws_objs s p = Some ob" "so_data ob = d" using d by (auto simp: data_of_def)
  have W: "\<exists>b. ws_waits s = (ws_waits s)(w := map_option (wt_abandoned_update (\<lambda>a. a \<or> b)) (ws_waits s w))"
    by (rule exI [of _ False]) (cases "ws_waits s w"; simp add: fun_upd_idem)
  have T: "(ws_threads s)(t := (ws_threads s t)\<lparr>th_mutexes := [] @ mutexes_of t s\<rparr>) = ws_threads s" by simp
  have all: "(\<forall>q. data_of q s' = (if q = p then Some (consume d t) else data_of q s)) \<and> (\<forall>q. queue_of q s' = queue_of q s) \<and>
    (\<forall>q. ws_objs s' q = None \<longleftrightarrow> ws_objs s q = None) \<and> ws_ok s' = ws_ok s \<and> same_env s s' \<and>
    ws_threads s' = (ws_threads s)(t := (ws_threads s t)\<lparr>th_mutexes := (if newly_owned d then [p] else []) @ mutexes_of t s\<rparr>) \<and>
    (\<exists>b. ws_waits s' = (ws_waits s)(w := map_option (wt_abandoned_update (\<lambda>a. a \<or> b)) (ws_waits s w)))"
  proof (cases d)
    case (Event_Sync event)
    then have e: "s' = set_data p (Event_Sync (event_sync_satisfied event)) s"
      using ob by (simp add: s'_def object_sync_satisfied_def)
    show ?thesis unfolding e using ob Event_Sync W T by (auto simp: data_of_set_data same_env_def)
  next
    case (Mutex_Sync mx)
    let ?m = "mx\<lparr>ms_abandoned := False\<rparr>"
    have own: "ms_count mx = 0 \<longleftrightarrow> ms_owner mx = None" "ms_count mx = 0 \<or> ms_owner mx = Some t"
      using m [OF Mutex_Sync] sg Mutex_Sync by (auto simp: data_signaled_def mutex_sync_signaled_def)
    have e: "s' = (let s1 = do_grab p ?m t s in if ms_abandoned mx then upd_wait w (wt_abandoned_update (\<lambda>_. True)) s1 else s1)"
      using ob Mutex_Sync by (simp add: s'_def object_sync_satisfied_def mutex_sync_satisfied_def)
    have g: "do_grab p ?m t s = upd_thread t (th_mutexes_update (\<lambda>l. (if newly_owned d then [p] else []) @ l))
        (set_data p (consume d t) s)"
    proof (cases "ms_count mx = 0")
      case True
      then show ?thesis using own Mutex_Sync by (simp add: do_grab_def Let_def)
    next
      case False
      then have o: "ms_owner mx = Some t" using own by auto
      have c: "consume d t = Mutex_Sync (?m\<lparr>ms_count := ms_count mx + 1\<rparr>)" using o Mutex_Sync by (cases mx) simp
      have "upd_thread t (th_mutexes_update (\<lambda>l. l)) (set_data p (consume d t) s) = set_data p (consume d t) s"
        by (simp add: upd_thread_def set_data_def upd_obj_def th_mutexes_id)
      then show ?thesis using o False Mutex_Sync unfolding c by (simp add: do_grab_def Let_def)
    qed
    have t: "(ws_threads s t)\<lparr>th_mutexes := (if newly_owned d then [p] else []) @ mutexes_of t s\<rparr> =
        th_mutexes_update (\<lambda>l. (if newly_owned d then [p] else []) @ l) (ws_threads s t)" by simp
    have b: "\<exists>b. ws_waits s' = (ws_waits s)(w := map_option (wt_abandoned_update (\<lambda>a. a \<or> b)) (ws_waits s w))"
    proof (cases "ms_abandoned mx")
      case True
      then have "ws_waits s' = (ws_waits s)(w := map_option (wt_abandoned_update (\<lambda>a. a \<or> True)) (ws_waits s w))"
        unfolding e g by simp
      then show ?thesis by blast
    next
      case False
      then have "ws_waits s' = ws_waits s" unfolding e g by simp
      then show ?thesis using W by simp
    qed
    show ?thesis using b ob Mutex_Sync unfolding e g t
      by (auto simp: Let_def data_of_set_data same_env_def data_of_cong [of _ "set_data p (consume d t) s"])
  next
    case (Semaphore_Sync sem)
    then have nz: "sem_count sem \<noteq> 0" using sg by (simp add: data_signaled_def semaphore_sync_signaled_def)
    then have e: "s' = set_data p (Semaphore_Sync (sem\<lparr>sem_count := sem_count sem - 1\<rparr>)) s"
      using ob Semaphore_Sync by (simp add: s'_def object_sync_satisfied_def semaphore_sync_satisfied_def)
    show ?thesis unfolding e using ob Semaphore_Sync W T by (auto simp: data_of_set_data same_env_def)
  qed
  show "\<forall>q. data_of q s' = (if q = p then Some (consume d t) else data_of q s)" "\<forall>q. queue_of q s' = queue_of q s"
    "\<forall>q. ws_objs s' q = None \<longleftrightarrow> ws_objs s q = None" "ws_ok s' = ws_ok s" "same_env s s'"
    "ws_threads s' = (ws_threads s)(t := (ws_threads s t)\<lparr>th_mutexes := (if newly_owned d then [p] else []) @ mutexes_of t s\<rparr>)"
    "\<exists>b. ws_waits s' = (ws_waits s)(w := map_option (wt_abandoned_update (\<lambda>a. a \<or> b)) (ws_waits s w))"
    using all by simp_all
qed

text \<open>\<open>took A t w s s'\<close>: thread \<open>t\<close> took the objects in \<open>A\<close> for its wait \<open>w\<close>.\<close>

definition took :: "nat set \<Rightarrow> nat \<Rightarrow> nat \<Rightarrow> wstate \<Rightarrow> wstate \<Rightarrow> bool" where
  "took A t w s s' \<longleftrightarrow>
     (\<forall>q. data_of q s' = (if q \<in> A then map_option (\<lambda>d. consume d t) (data_of q s) else data_of q s)) \<and>
     (\<forall>q. queue_of q s' = queue_of q s) \<and> (\<forall>q. ws_objs s' q = None \<longleftrightarrow> ws_objs s q = None) \<and>
     ws_ok s' = ws_ok s \<and> same_env s s' \<and> (\<forall>u. u \<noteq> t \<longrightarrow> ws_threads s' u = ws_threads s u) \<and>
     (\<exists>ms. ws_threads s' t = (ws_threads s t)\<lparr>th_mutexes := ms @ mutexes_of t s\<rparr> \<and> distinct ms \<and>
        set ms = {q \<in> A. \<exists>d. data_of q s = Some d \<and> newly_owned d}) \<and>
     (\<exists>b. ws_waits s' = (ws_waits s)(w := map_option (wt_abandoned_update (\<lambda>a. a \<or> b)) (ws_waits s w)))"

text \<open>A set of objects that a thread may take: they exist, are signaled for it and are consistent.\<close>

definition takeable :: "nat set \<Rightarrow> nat \<Rightarrow> wstate \<Rightarrow> bool" where
  "takeable A t s \<longleftrightarrow> (\<forall>p \<in> A. \<exists>d. data_of p s = Some d \<and> data_signaled d t \<and>
     (\<forall>mx. d = Mutex_Sync mx \<longrightarrow> (ms_count mx = 0 \<longleftrightarrow> ms_owner mx = None)))"

lemma took_empty: "took {} t w s s"
proof -
  have "\<exists>ms. ws_threads s t = (ws_threads s t)\<lparr>th_mutexes := ms @ mutexes_of t s\<rparr> \<and> distinct ms \<and>
      set ms = {q \<in> {}. \<exists>d. data_of q s = Some d \<and> newly_owned d}"
    by (rule exI [of _ "[]"]) simp
  moreover have "\<exists>b. ws_waits s = (ws_waits s)(w := map_option (wt_abandoned_update (\<lambda>a. a \<or> b)) (ws_waits s w))"
    by (rule exI [of _ False]) (cases "ws_waits s w"; simp add: fun_upd_idem)
  ultimately show ?thesis by (simp add: took_def)
qed

lemma took_single:
  assumes "takeable {p} t s"
  shows "took {p} t w s (object_sync_satisfied p t w s)"
proof -
  obtain d where d: "data_of p s = Some d" "data_signaled d t"
    "\<And>mx. d = Mutex_Sync mx \<Longrightarrow> ms_count mx = 0 \<longleftrightarrow> ms_owner mx = None"
    using assms by (auto simp: takeable_def)
  note E = satisfied_effect [OF d, of w]
  let ?s = "object_sync_satisfied p t w s"
  have "\<exists>ms. ws_threads ?s t = (ws_threads s t)\<lparr>th_mutexes := ms @ mutexes_of t s\<rparr> \<and> distinct ms \<and>
      set ms = {q \<in> {p}. \<exists>d. data_of q s = Some d \<and> newly_owned d}"
    by (rule exI [of _ "if newly_owned d then [p] else []"]) (use E(6) d(1) in auto)
  moreover have "\<forall>u. u \<noteq> t \<longrightarrow> ws_threads ?s u = ws_threads s u" using E(6) by simp
  ultimately show ?thesis using E(1-5,7) d(1) unfolding took_def by simp
qed

lemma took_trans:
  assumes 1: "took A t w s s1" and 2: "took B t w s1 s2" and AB: "A \<inter> B = {}"
  shows "took (A \<union> B) t w s s2"
proof -
  obtain m1 where m1: "ws_threads s1 t = (ws_threads s t)\<lparr>th_mutexes := m1 @ mutexes_of t s\<rparr>" "distinct m1"
    "set m1 = {q \<in> A. \<exists>d. data_of q s = Some d \<and> newly_owned d}" using 1 by (auto simp: took_def)
  obtain m2 where m2: "ws_threads s2 t = (ws_threads s1 t)\<lparr>th_mutexes := m2 @ mutexes_of t s1\<rparr>" "distinct m2"
    "set m2 = {q \<in> B. \<exists>d. data_of q s1 = Some d \<and> newly_owned d}" using 2 by (auto simp: took_def)
  obtain b1 b2 where b: "ws_waits s1 = (ws_waits s)(w := map_option (wt_abandoned_update (\<lambda>a. a \<or> b1)) (ws_waits s w))"
    "ws_waits s2 = (ws_waits s1)(w := map_option (wt_abandoned_update (\<lambda>a. a \<or> b2)) (ws_waits s1 w))"
    using 1 2 by (auto simp: took_def)
  have d1: "data_of q s1 = (if q \<in> A then map_option (\<lambda>d. consume d t) (data_of q s) else data_of q s)" for q
    using 1 by (simp add: took_def)
  have "set m2 = {q \<in> B. \<exists>d. data_of q s = Some d \<and> newly_owned d}" using m2(3) AB by (auto simp: d1)
  then have "distinct (m2 @ m1)" "set (m2 @ m1) = {q \<in> A \<union> B. \<exists>d. data_of q s = Some d \<and> newly_owned d}"
    using m1(2,3) m2(2) AB by auto
  moreover have "ws_threads s2 t = (ws_threads s t)\<lparr>th_mutexes := (m2 @ m1) @ mutexes_of t s\<rparr>" using m1(1) m2(1) by simp
  ultimately have M: "\<exists>ms. ws_threads s2 t = (ws_threads s t)\<lparr>th_mutexes := ms @ mutexes_of t s\<rparr> \<and> distinct ms \<and>
        set ms = {q \<in> A \<union> B. \<exists>d. data_of q s = Some d \<and> newly_owned d}" by blast
  have "ws_waits s2 = (ws_waits s)(w := map_option (wt_abandoned_update (\<lambda>a. a \<or> (b1 \<or> b2))) (ws_waits s w))"
    using b by (cases "ws_waits s w") (auto simp: comp_def disj_assoc)
  then have W: "\<exists>b. ws_waits s2 = (ws_waits s)(w := map_option (wt_abandoned_update (\<lambda>a. a \<or> b)) (ws_waits s w))" by blast
  have D: "\<forall>q. data_of q s2 = (if q \<in> A \<union> B then map_option (\<lambda>d. consume d t) (data_of q s) else data_of q s)"
    using 2 AB d1 unfolding took_def by auto
  show ?thesis using 1 2 M W D same_env_trans unfolding took_def by auto
qed

lemma takeable_mono:
  assumes "took A t w s s1" "takeable B t s" "A \<inter> B = {}"
  shows "takeable B t s1"
  using assms unfolding took_def takeable_def by (metis disjoint_iff)

lemma took_all:
  assumes "takeable (set ps) t s" "distinct ps"
  shows "took (set ps) t w s (satisfy_all ps t w s)"
  using assms
proof (induction ps arbitrary: s)
  case Nil
  then show ?case by (simp add: took_empty)
next
  case (Cons p ps)
  have t1: "took {p} t w s (object_sync_satisfied p t w s)"
    by (rule took_single) (use Cons.prems in \<open>simp add: takeable_def\<close>)
  moreover have "takeable (set ps) t (object_sync_satisfied p t w s)"
    by (rule takeable_mono [OF t1]) (use Cons.prems in \<open>auto simp: takeable_def\<close>)
  ultimately show ?case using took_trans [OF t1 Cons.IH] Cons.prems(2) by simp
qed

section \<open>The end of a wait\<close>

text \<open>The objects that a wait takes when it ends with a status.\<close>

definition taken :: "thread_wait \<Rightarrow> u32 \<Rightarrow> nat set" where
  "taken wait status =
     (if unat status < length (wt_objs wait)
      then if wt_select wait = SELECT_WAIT_ALL then set (wt_objs wait) else {wt_objs wait ! unat status} else {})"

lemma took_satisfy_wait:
  assumes "takeable (taken wait st) t s" "wt_select wait = SELECT_WAIT_ALL \<longrightarrow> distinct (wt_objs wait)"
  shows "took (taken wait st) t w s (satisfy_wait wait t w st s)"
  using assms took_all [of "wt_objs wait" t s w] took_single [of "wt_objs wait ! unat st" t s w] took_empty [of t w s]
  by (auto simp: taken_def satisfy_wait_def)

lemma remove_queues_simps [simp]:
  "ws_waits (remove_queues ps t w i s) = ws_waits s" "ws_ok (remove_queues ps t w i s) = ws_ok s"
  "data_of q (remove_queues ps t w i s) = data_of q s" "ws_objs (remove_queues ps t w i s) q = None \<longleftrightarrow> ws_objs s q = None"
  "same_env s (remove_queues ps t w i s)"
  by (induction ps arbitrary: s i) (auto simp: remove_queue_def data_of_def same_env_def option.map_comp comp_def)

lemma queue_of_remove_queues:
  "set (queue_of q (remove_queues ps t w i s)) =
   {e \<in> set (queue_of q s). \<not> (we_thread e = t \<and> we_wait e = w \<and> i \<le> we_index e \<and> we_index e < i + length ps \<and>
      ps ! (we_index e - i) = q)}"
proof (induction ps arbitrary: i s)
  case (Cons p ps)
  have x: "(e = \<lparr>we_thread = t, we_wait = w, we_index = i\<rparr>) \<longleftrightarrow> we_thread e = t \<and> we_wait e = w \<and> we_index e = i"
    for e :: wait_queue_entry by (cases e) auto
  have y: "(i \<le> n \<and> n < i + length (p # ps) \<and> (p # ps) ! (n - i) = q) \<longleftrightarrow>
      (n = i \<and> p = q) \<or> (Suc i \<le> n \<and> n < Suc i + length ps \<and> ps ! (n - Suc i) = q)" for n
    by (cases "n = i") (auto simp: nth_Cons' Suc_le_eq)
  show ?case by (simp only: remove_queues.simps Cons.IH queue_of_remove y) (auto simp: x)
qed simp

lemma live_waits_remove:
  assumes "finite {w. ws_waits s w \<noteq> None}" "ws_waits s w \<noteq> None" "ws_waits s' = (ws_waits s)(w := None)"
  shows "live_waits s = Suc (live_waits s')"
proof -
  have "{v. ws_waits s v \<noteq> None} = insert w {v. ws_waits s' v \<noteq> None}" "w \<notin> {v. ws_waits s' v \<noteq> None}"
    using assms(2,3) by auto
  then show ?thesis using assms(1) unfolding live_waits_def by (metis card_insert_disjoint finite_insert)
qed

lemma data_wf_D:
  assumes "objs_wf s" "data_of q s = Some d"
  shows "data_wf q d s" "q < ws_next s"
  using assms by (simp_all add: objs_wf_def)

lemma mutex_consistent: "objs_wf s \<Longrightarrow> data_of q s = Some (Mutex_Sync mx) \<Longrightarrow> ms_count mx = 0 \<longleftrightarrow> ms_owner mx = None"
  using data_wf_D by fastforce

lemma objs_wf_cong:
  assumes "objs_wf s" "\<And>q. data_of q s' = data_of q s" "\<And>u. mutexes_of u s' = mutexes_of u s"
    "live_waits s' \<le> live_waits s" "ws_next s \<le> ws_next s'"
  shows "objs_wf s'"
proof -
  have "data_wf p d s \<Longrightarrow> data_wf p d s'" for p d using assms(3,4) by (cases d) auto
  then show ?thesis using assms(1,2,3,5) unfolding objs_wf_def by (metis order_less_le_trans)
qed

text \<open>Objects stay consistent when a thread takes some of them and its wait goes away.\<close>

lemma objs_wf_took:
  assumes wf: "objs_wf s" and tk: "took A t w s s1" and sg: "takeable A t s"
    and live: "live_waits s = Suc (live_waits s')"
    and d': "\<And>q. data_of q s' = data_of q s1" and m': "\<And>u. mutexes_of u s' = mutexes_of u s1" and n': "ws_next s' = ws_next s"
  shows "objs_wf s'"
proof -
  have D: "data_of q s' = (if q \<in> A then map_option (\<lambda>d. consume d t) (data_of q s) else data_of q s)" for q
    using tk d' by (simp add: took_def)
  obtain ms where ms: "mutexes_of t s' = ms @ mutexes_of t s" "distinct ms"
    "set ms = {q \<in> A. \<exists>d. data_of q s = Some d \<and> newly_owned d}"
  proof -
    obtain ms where "ws_threads s1 t = (ws_threads s t)\<lparr>th_mutexes := ms @ mutexes_of t s\<rparr>" "distinct ms"
      "set ms = {q \<in> A. \<exists>d. data_of q s = Some d \<and> newly_owned d}" using tk unfolding took_def by blast
    then show thesis using that [of ms] m' [of t] by simp
  qed
  have oth: "mutexes_of u s' = mutexes_of u s" if "u \<noteq> t" for u using tk that m' [of u] by (simp add: took_def)
  have fresh: "q \<notin> set (mutexes_of u s)" if qm: "q \<in> set ms" for q u
  proof
    assume q: "q \<in> set (mutexes_of u s)"
    obtain d where d: "data_of q s = Some d" "newly_owned d" using qm ms(3) by auto
    then obtain mx where mx: "d = Mutex_Sync mx" "ms_count mx = 0" by (cases d) auto
    have w: "data_wf q d s" using wf d(1) by (rule data_wf_D)
    then have "ms_owner mx = Some u" using q mx by auto
    moreover have "ms_owner mx = None" using w mx by simp
    ultimately show False by simp
  qed
  have "distinct (mutexes_of u s')" for u
    using ms fresh oth wf by (cases "u = t") (auto simp: objs_wf_def)
  moreover have "\<exists>mx. data_of p s' = Some (Mutex_Sync mx)" if "p \<in> set (mutexes_of u s')" for p u
  proof -
    have "\<exists>mx. data_of p s = Some (Mutex_Sync mx)"
    proof (cases "p \<in> set ms \<and> u = t")
      case True
      then obtain d where "data_of p s = Some d" "newly_owned d" using ms(3) by auto
      then show ?thesis by (cases d) auto
    next
      case False
      then have "p \<in> set (mutexes_of u s)" using that ms(1) oth by (cases "u = t") auto
      then show ?thesis using wf by (auto simp: objs_wf_def)
    qed
    then show ?thesis using D by auto
  qed
  moreover have "data_wf p d s' \<and> p < ws_next s'" if p: "data_of p s' = Some d" for p d
  proof -
    obtain d0 where d0: "data_of p s = Some d0" "d = (if p \<in> A then consume d0 t else d0)"
      using p D by (cases "data_of p s") (auto split: if_splits)
    note w0 = data_wf_D [OF wf d0(1)]
    have "data_wf p d s'"
    proof (cases d0)
      case (Event_Sync event)
      then show ?thesis using d0 by simp
    next
      case (Mutex_Sync mx)
      have c: "ms_count mx = 0 \<longleftrightarrow> ms_owner mx = None" "unat (ms_count mx) + live_waits s < 2 ^ 32"
        "\<forall>u. ms_owner mx = Some u \<longleftrightarrow> p \<in> set (mutexes_of u s)" using w0 Mutex_Sync by auto
      show ?thesis
      proof (cases "p \<in> A")
        case True
        have sgm: "ms_count mx = 0 \<or> ms_owner mx = Some t"
          using sg True d0(1) Mutex_Sync by (auto simp: takeable_def data_signaled_def mutex_sync_signaled_def)
        have u: "unat (ms_count mx + 1) = unat (ms_count mx) + 1"
        proof -
          have "unat (ms_count mx) + 1 < 2 ^ 32" using c(2) live by linarith
          then show ?thesis by (simp add: unat_word_ariths)
        qed
        have own: "(t = u) = (p \<in> set (mutexes_of u s'))" for u
        proof (cases "u = t")
          case u: True
          show ?thesis
          proof (cases "ms_count mx = 0")
            case True
            then have "p \<in> set ms" using ms(3) d0(1) Mutex_Sync \<open>p \<in> A\<close> by simp
            then show ?thesis using ms(1) u by simp
          next
            case False
            then have "p \<in> set (mutexes_of t s)" using sgm c(3) by auto
            then show ?thesis using ms(1) u by simp
          qed
        next
          case False
          then have "p \<notin> set (mutexes_of u s)" using sgm c(1,3) by (metis option.distinct(1) option.inject)
          then show ?thesis using oth False by simp
        qed
        have "ms_count mx + 1 \<noteq> 0" using u by (metis Suc_eq_plus1 nat.distinct(1) unat_0)
        then show ?thesis using d0(2) Mutex_Sync True own u c(2) live by simp
      next
        case False
        then have "p \<notin> set ms" using ms(3) by auto
        then have "p \<in> set (mutexes_of u s') \<longleftrightarrow> p \<in> set (mutexes_of u s)" for u using ms(1) oth by (cases "u = t") auto
        then show ?thesis using d0(2) Mutex_Sync False c live by simp
      qed
    next
      case (Semaphore_Sync sem)
      show ?thesis
      proof (cases "p \<in> A")
        case True
        then have nz: "sem_count sem \<noteq> 0" using sg d0(1) Semaphore_Sync
          by (auto simp: takeable_def data_signaled_def semaphore_sync_signaled_def)
        have "sem_count sem - 1 \<le> sem_count sem" using nz by (simp add: word_le_nat_alt unat_minus_one)
        then show ?thesis using d0(2) Semaphore_Sync True w0 by simp
      next
        case False
        then show ?thesis using d0(2) Semaphore_Sync w0 by simp
      qed
    qed
    then show ?thesis using w0 n' by simp
  qed
  ultimately show ?thesis unfolding objs_wf_def by blast
qed

lemma end_wait_unfold:
  assumes "waits_of t s = w # ws" "ws_waits s w = Some wait"
  shows "\<exists>st'. end_wait t st s = (st', (remove_queues (wt_objs wait) t w 0
      (satisfy_wait wait t w st (upd_thread t (th_waits_update tl) s)))\<lparr>ws_waits :=
      (ws_waits (satisfy_wait wait t w st (upd_thread t (th_waits_update tl) s)))(w := None)\<rparr>)"
  using assms by (simp add: end_wait_def Let_def)

lemma end_wait_spec:
  assumes wf: "sync_wf s" and ch: "waits_of t s = w # ws" and wt: "ws_waits s w = Some wait"
    and tk: "takeable (taken wait st) t s"
  shows "\<exists>st' s' ms. end_wait t st s = (st', s') \<and> sync_wf s' \<and> ws_ok s' = ws_ok s \<and> same_env s s' \<and>
    ws_waits s' = (ws_waits s)(w := None) \<and> (\<forall>u. u \<noteq> t \<longrightarrow> ws_threads s' u = ws_threads s u) \<and>
    ws_threads s' t = (ws_threads s t)\<lparr>th_waits := ws, th_mutexes := ms\<rparr> \<and>
    (\<forall>q. data_of q s' = (if q \<in> taken wait st then map_option (\<lambda>d. consume d t) (data_of q s) else data_of q s))"
proof -
  define s1 where "s1 = upd_thread t (th_waits_update tl) s"
  define s2 where "s2 = satisfy_wait wait t w st s1"
  define s3 where "s3 = remove_queues (wt_objs wait) t w 0 s2"
  define s' where "s' = s3\<lparr>ws_waits := (ws_waits s2)(w := None)\<rparr>"
  obtain st' where e: "end_wait t st s = (st', s')"
    using end_wait_unfold [OF ch wt, of st] unfolding s'_def s3_def s2_def s1_def by blast
  have cw: "chains_wf s" and qw: "queues_wf s" and ow: "objs_wf s" using wf by (auto simp: sync_wf_def)
  have thr: "wt_thread wait = t" using cw ch wt unfolding chains_wf_def by (metis list.set_intros(1) option.inject)
  have d1: "data_of q s1 = data_of q s" for q by (rule data_of_cong) (simp add: s1_def)
  have tk1: "takeable (taken wait st) t s1" using tk by (simp add: takeable_def d1)
  have "wt_select wait = SELECT_WAIT_ALL \<longrightarrow> distinct (wt_objs wait)" using qw wt by (auto simp: queues_wf_def)
  then have T: "took (taken wait st) t w s1 s2" unfolding s2_def by (rule took_satisfy_wait [OF tk1])
  obtain ms where ms: "ws_threads s2 t = (ws_threads s1 t)\<lparr>th_mutexes := ms\<rparr>" using T unfolding took_def by blast
  have t2: "ws_threads s2 t = (ws_threads s t)\<lparr>th_waits := ws, th_mutexes := ms\<rparr>"
    using ms ch by (simp add: s1_def)
  have oth: "ws_threads s' u = ws_threads s u" if "u \<noteq> t" for u
    using T that by (simp add: took_def s'_def s3_def s1_def)
  have th: "ws_threads s' t = (ws_threads s t)\<lparr>th_waits := ws, th_mutexes := ms\<rparr>" using t2 by (simp add: s'_def s3_def)
  have "(ws_waits s2)(w := None) = (ws_waits s)(w := None)" using T by (auto simp: took_def s1_def)
  then have W: "ws_waits s' = (ws_waits s)(w := None)" by (simp add: s'_def)
  have D: "data_of q s' = data_of q s2" for q unfolding s'_def s3_def by (simp add: data_of_def) (simp add: data_of_def [symmetric])
  have env: "same_env s s'" using T by (simp add: took_def same_env_def s'_def s3_def s1_def)
     (use remove_queues_simps(5) in \<open>simp add: same_env_def\<close>)
  have live: "live_waits s = Suc (live_waits s')"
    by (rule live_waits_remove [OF _ _ W]) (use cw wt in \<open>auto simp: chains_wf_def\<close>)
  have "objs_wf s'"
  proof (rule objs_wf_took [OF _ T tk1, of s'])
    show "objs_wf s1" by (rule objs_wf_cong [OF ow d1]) (simp_all add: s1_def live_waits_def)
  qed (use live D env in \<open>simp_all add: live_waits_def s1_def s'_def s3_def same_env_def\<close>)
  moreover have "chains_wf s'"
  proof -
    have "waits_of u s' = (if u = t then ws else waits_of u s)" for u using oth th by simp
    moreover have "w \<notin> set ws" "distinct ws" using cw ch unfolding chains_wf_def by (metis distinct.simps(2))+
    moreover have "finite {v. ws_waits s' v \<noteq> None}"
      by (rule finite_subset [of _ "{v. ws_waits s v \<noteq> None}"]) (use cw W in \<open>auto simp: chains_wf_def\<close>)
    moreover have "\<exists>wait. ws_waits s' v = Some wait \<and> wt_thread wait = u" if v: "v \<in> set (waits_of u s')" for u v
    proof -
      have vu: "v \<in> set (waits_of u s)" using v calculation(1) ch by (auto split: if_splits)
      then obtain wv where wv: "ws_waits s v = Some wv" "wt_thread wv = u" using chains_wfD [OF cw] by blast
      have "v \<noteq> w"
      proof
        assume "v = w"
        then have "u = t" using wv wt thr by simp
        then show False using v calculation(1,2) \<open>v = w\<close> by simp
      qed
      then show ?thesis using wv W by simp
    qed
    moreover have "v \<in> set (waits_of (wt_thread wv) s') \<and> v < ws_next s'" if wv: "ws_waits s' v = Some wv" for v wv
    proof -
      have "v \<noteq> w" "ws_waits s v = Some wv" using wv W by (auto split: if_splits)
      then have "v \<in> set (waits_of (wt_thread wv) s)" "v < ws_next s" using cw by (auto simp: chains_wf_def)
      then show ?thesis using calculation(1) ch \<open>v \<noteq> w\<close> env by (auto simp: same_env_def)
    qed
    moreover have "distinct (waits_of u s')" for u using calculation(1,3) cw by (auto simp: chains_wf_def)
    ultimately show ?thesis unfolding chains_wf_def by blast
  qed
  moreover have "queues_wf s'"
  proof -
    have q: "set (queue_of p s') = {e \<in> set (queue_of p s). \<not> (we_thread e = t \<and> we_wait e = w \<and> we_index e < length (wt_objs wait) \<and>
        wt_objs wait ! we_index e = p)}" for p
    proof -
      have "queue_of p s' = queue_of p s3" by (rule queue_of_cong) (simp add: s'_def)
      moreover have "queue_of p s2 = queue_of p s" using T by (simp add: took_def s1_def)
      ultimately show ?thesis unfolding s3_def by (simp add: queue_of_remove_queues)
    qed
    have en: "entry_of e p s' \<longleftrightarrow> we_wait e \<noteq> w \<and> entry_of e p s" for e p unfolding entry_of_def W by auto
    have "e \<in> set (queue_of p s') \<longleftrightarrow> entry_of e p s'" for e p
    proof -
      have "e \<in> set (queue_of p s) \<longleftrightarrow> entry_of e p s" using qw by (simp add: queues_wf_def)
      moreover have "we_wait e = w \<Longrightarrow> entry_of e p s \<Longrightarrow> we_thread e = t \<and> we_index e < length (wt_objs wait) \<and> wt_objs wait ! we_index e = p"
        using wt thr by (auto simp: entry_of_def)
      ultimately show ?thesis unfolding q en by blast
    qed
    moreover have "ws_objs s' p = None \<longleftrightarrow> ws_objs s p = None" for p
      using T by (simp add: took_def s'_def s3_def s1_def)
    ultimately show ?thesis using qw W unfolding queues_wf_def by (auto split: if_splits)
  qed
  moreover have "ws_ok s' = ws_ok s" using T by (simp add: took_def s'_def s3_def s1_def)
  moreover have "\<forall>q. data_of q s' = (if q \<in> taken wait st then map_option (\<lambda>d. consume d t) (data_of q s) else data_of q s)"
    using T D d1 by (simp add: took_def)
  ultimately show ?thesis using e env W oth th unfolding sync_wf_def by blast
qed

section \<open>Checking and waking\<close>

lemma signaled_iff: "object_sync_signaled p t s \<longleftrightarrow> (\<exists>d. data_of p s = Some d \<and> data_signaled d t)"
  by (auto simp: object_sync_signaled_def data_of_def split: option.split)

lemma first_signaled_None: "first_signaled ps i t s = None \<longleftrightarrow> (\<forall>p \<in> set ps. \<not> object_sync_signaled p t s)"
  by (induction ps arbitrary: i) auto

lemma first_signaled_Some:
  "first_signaled ps i t s = Some j \<Longrightarrow> i \<le> j \<and> j < i + length ps \<and> object_sync_signaled (ps ! (j - i)) t s"
proof (induction ps arbitrary: i)
  case (Cons p ps)
  show ?case
  proof (cases "object_sync_signaled p t s")
    case False
    then have "first_signaled ps (Suc i) t s = Some j" using Cons.prems by simp
    then show ?thesis using Cons.IH [of "Suc i"] by (auto simp: nth_Cons' Suc_le_eq)
  qed (use Cons.prems in auto)
qed simp

lemma wait_signaled_None:
  "wait_signaled wait t s = None \<longleftrightarrow>
   (if wt_select wait = SELECT_WAIT_ALL then \<exists>p \<in> set (wt_objs wait). \<not> object_sync_signaled p t s
    else \<forall>p \<in> set (wt_objs wait). \<not> object_sync_signaled p t s)"
  by (auto simp: wait_signaled_def first_signaled_None)

text \<open>Invariance under changes that leave objects, waits and chains alone.\<close>

lemma sync_wf_cong:
  assumes "sync_wf s" "ws_objs s' = ws_objs s" "ws_waits s' = ws_waits s" "ws_next s' = ws_next s"
    "\<And>u. waits_of u s' = waits_of u s" "\<And>u. mutexes_of u s' = mutexes_of u s"
  shows "sync_wf s'"
proof -
  have "chains_wf s'" using assms unfolding sync_wf_def chains_wf_def by simp
  moreover have "queues_wf s'"
    using assms unfolding sync_wf_def queues_wf_def entry_of_def queue_of_def by simp
  moreover have "objs_wf s'"
    by (rule objs_wf_cong [of s]) (use assms in \<open>simp_all add: sync_wf_def data_of_def live_waits_def\<close>)
  ultimately show ?thesis by (simp add: sync_wf_def)
qed

lemma sync_wf_head:
  assumes "sync_wf s" "waits_of t s = w # ws"
  obtains wait where "ws_waits s w = Some wait" "wt_thread wait = t" "length (wt_objs wait) \<le> 64"
    "\<forall>p \<in> set (wt_objs wait). ws_objs s p \<noteq> None" "wt_select wait = SELECT_WAIT_ALL \<longrightarrow> distinct (wt_objs wait)"
proof -
  have "\<exists>wait. ws_waits s w = Some wait \<and> wt_thread wait = t"
    by (rule chains_wfD) (use assms in \<open>auto simp: sync_wf_def\<close>)
  then obtain wait where w: "ws_waits s w = Some wait" "wt_thread wait = t" by blast
  then show thesis using that assms(1) by (auto simp: sync_wf_def queues_wf_def MAXIMUM_WAIT_OBJECTS_def)
qed

text \<open>When a check succeeds, what the wait will take can be taken; the check changes the suspend context at most.\<close>

lemma check_wait_Some:
  assumes wf: "sync_wf s" and ch: "waits_of t s = w # ws" and wt: "ws_waits s w = Some wait"
    and c: "check_wait t s = (Some st, s1)"
  shows "takeable (taken wait st) t s" "\<exists>f. s1 = upd_thread t (th_context_update f) s"
proof -
  have len: "length (wt_objs wait) \<le> 64" using sync_wf_head [OF wf ch] wt by (metis option.inject)
  have tk: "takeable A t s" if "\<forall>p \<in> A. object_sync_signaled p t s" for A
    using that mutex_consistent wf unfolding takeable_def signaled_iff sync_wf_def by blast
  have id: "s = upd_thread t (th_context_update (\<lambda>x. x)) s"
  proof -
    have "th_context_update (\<lambda>x. x) (ws_threads s t) = ws_threads s t" by (cases "ws_threads s t") simp
    then show ?thesis unfolding upd_thread_def by (simp only: fun_upd_triv) simp
  qed
  have big: "taken wait st = {}" if "64 \<le> unat st" using that len by (simp add: taken_def)
  have cases: "(64 \<le> unat st \<and> (\<exists>f. s1 = upd_thread t (th_context_update f) s)) \<or>
      (\<exists>i. wait_signaled wait t s = Some i \<and> st = of_nat i \<and> s1 = s)"
    using c ch wt id by (auto simp: check_wait_def Let_def split: if_splits option.splits)
  then show "\<exists>f. s1 = upd_thread t (th_context_update f) s" using id by metis
  show "takeable (taken wait st) t s"
  proof (cases "64 \<le> unat st")
    case True
    then show ?thesis using big by (simp add: takeable_def)
  next
    case False
    then obtain i where i: "wait_signaled wait t s = Some i" "st = of_nat i" using cases by blast
    show ?thesis
    proof (cases "wt_select wait = SELECT_WAIT_ALL")
      case True
      then have "\<forall>p \<in> set (wt_objs wait). object_sync_signaled p t s" using i(1) by (auto simp: wait_signaled_def split: if_splits)
      then show ?thesis using True by (intro tk) (simp add: taken_def)
    next
      case any: False
      then have f: "i < length (wt_objs wait)" "object_sync_signaled (wt_objs wait ! i) t s"
        using i(1) first_signaled_Some [of "wt_objs wait" 0 t s i] by (auto simp: wait_signaled_def)
      then have "unat st = i" unfolding i(2) using len by (intro unat_of_nat_less) simp
      then show ?thesis using any f by (intro tk) (simp add: taken_def)
    qed
  qed
qed

lemma check_wait_None:
  assumes wf: "sync_wf s" and ch: "waits_of t s = w # ws" and c: "check_wait t s = (None, s1)"
  shows "s1 = s"
proof -
  obtain wait where "ws_waits s w = Some wait" using sync_wf_head [OF wf ch] .
  then show ?thesis using c ch by (auto simp: check_wait_def Let_def split: if_splits option.splits)
qed

text \<open>Taking objects never makes anything signaled for another thread.\<close>

lemma consume_mono:
  assumes wf: "objs_wf s" and lw: "0 < live_waits s" and d: "data_of p s = Some d" "data_signaled d t"
    and u: "u \<noteq> t" "data_signaled (consume d t) u"
  shows "data_signaled d u"
proof (cases d)
  case (Mutex_Sync mx)
  have "unat (ms_count mx) + live_waits s < 2 ^ 32" using data_wf_D(1) [OF wf d(1)] Mutex_Sync by simp
  then have "unat (ms_count mx + 1) = unat (ms_count mx) + 1" using lw by (simp add: unat_word_ariths)
  then have "ms_count mx + 1 \<noteq> 0" by (metis Suc_eq_plus1 nat.distinct(1) unat_0)
  then show ?thesis using u Mutex_Sync by (simp add: data_signaled_def mutex_sync_signaled_def)
qed (use d u in \<open>auto simp: data_signaled_def event_sync_signaled_def event_sync_satisfied_def semaphore_sync_signaled_def
    split: if_splits\<close>)

text \<open>\<open>calmer u s s'\<close>: for thread \<open>u\<close>, which did nothing, less is signaled than before.\<close>

definition calmer :: "nat \<Rightarrow> wstate \<Rightarrow> wstate \<Rightarrow> bool" where
  "calmer u s s' \<longleftrightarrow> ws_threads s' u = ws_threads s u \<and> same_clock s s' \<and>
     (\<forall>w \<in> set (waits_of u s). ws_waits s' w = ws_waits s w) \<and>
     (\<forall>q. object_sync_signaled q u s' \<longrightarrow> object_sync_signaled q u s)"

lemma calmer_refl [simp]: "calmer u s s" by (simp add: calmer_def)

lemma calmer_trans: "calmer u s s1 \<Longrightarrow> calmer u s1 s2 \<Longrightarrow> calmer u s s2"
  unfolding calmer_def by (metis same_clock_trans)

lemma suspended_cong: "ws_threads s' u = ws_threads s u \<Longrightarrow> same_clock s s' \<Longrightarrow> is_thread_suspended u s' = is_thread_suspended u s"
  by (simp add: is_thread_suspended_def same_clock_def)

text \<open>A wait that goes on keeps going on when less is signaled.\<close>

lemma calmer_check:
  assumes c: "calmer u s s'" and n: "fst (check_wait u s) = None"
  shows "fst (check_wait u s') = None"
proof (cases "waits_of u s")
  case Nil
  then show ?thesis using c by (simp add: check_wait_def calmer_def)
next
  case (Cons w ws)
  have thr: "ws_threads s' u = ws_threads s u" and env: "same_clock s s'" and w: "ws_waits s' w = ws_waits s w"
    using c Cons by (simp_all add: calmer_def)
  show ?thesis
  proof (cases "ws_waits s w")
    case None
    then show ?thesis using thr Cons w by (simp add: check_wait_def)
  next
    case (Some wait)
    have sg: "wait_signaled wait u s = None \<Longrightarrow> wait_signaled wait u s' = None"
      using c unfolding wait_signaled_None calmer_def by (auto split: if_splits)
    have ex: "wait_expired wait s' = wait_expired wait s" using env by (simp add: wait_expired_def same_clock_def)
    show ?thesis using n sg thr Cons w Some ex suspended_cong [OF thr env]
      by (auto simp: check_wait_def Let_def split: if_splits option.splits)
  qed
qed

end
