(* ===== verification/Sync_Wake.thy ===== *)
theory Sync_Wake
  imports Sync_Wf
begin

unbundle bit_operations_syntax

text \<open>
  Waking: \<open>wake_thread\<close> and \<open>wake_up\<close> keep the invariant, never fail an assertion, and leave no thread behind whose
  wait could be satisfied.
\<close>

section \<open>What is left in an object\<close>

text \<open>How many more waits an event or a semaphore can satisfy (for a manual event: one stands for any number).\<close>

fun level :: "sync_data \<Rightarrow> nat" where
  "level (Event_Sync event) = (if es_signaled event then 1 else 0)"
| "level (Mutex_Sync mutex) = 0"
| "level (Semaphore_Sync sem) = unat (sem_count sem)"

fun same_shape :: "sync_data \<Rightarrow> sync_data \<Rightarrow> bool" where
  "same_shape (Event_Sync a) (Event_Sync b) = (es_manual a = es_manual b)"
| "same_shape (Mutex_Sync a) (Mutex_Sync b) = True"
| "same_shape (Semaphore_Sync a) (Semaphore_Sync b) = (sem_max a = sem_max b)"
| "same_shape _ _ = False"

text \<open>Objects that lose something with each wait they satisfy.\<close>

fun consumable :: "sync_data \<Rightarrow> bool" where
  "consumable (Event_Sync event) = (\<not> es_manual event)"
| "consumable (Mutex_Sync mutex) = False"
| "consumable (Semaphore_Sync sem) = True"

lemma same_shape_refl [simp]: "same_shape d d" by (cases d) auto

lemma same_shape_trans: "same_shape a b \<Longrightarrow> same_shape b c \<Longrightarrow> same_shape a c"
  by (cases a; cases b; cases c) auto

lemma same_shape_consumable: "same_shape a b \<Longrightarrow> consumable b = consumable a"
  by (cases a; cases b) auto

lemma consume_shape: "same_shape d (consume d t)"
  by (cases d) (auto simp: event_sync_satisfied_def)

lemma consume_level:
  assumes "data_signaled d t"
  shows "level (consume d t) \<le> level d" "consumable d \<Longrightarrow> level (consume d t) < level d"
proof -
  have "unat (c - 1) < unat c" if "0 < c" for c :: u32
  proof -
    have "c \<noteq> 0" using that by auto
    then have "unat (c - 1) = unat c - 1" "0 < unat c" by (simp_all add: unat_minus_one unat_gt_0)
    then show ?thesis by simp
  qed
  then show "level (consume d t) \<le> level d" "consumable d \<Longrightarrow> level (consume d t) < level d"
    using assms by (cases d; force simp: event_sync_satisfied_def data_signaled_def event_sync_signaled_def
        semaphore_sync_signaled_def)+
qed

definition drained :: "wstate \<Rightarrow> wstate \<Rightarrow> bool" where
  "drained s s' \<longleftrightarrow> (\<forall>q. case data_of q s of
     None \<Rightarrow> data_of q s' = None
   | Some d \<Rightarrow> \<exists>d'. data_of q s' = Some d' \<and> same_shape d d' \<and> level d' \<le> level d)"

lemma drained_refl [simp]: "drained s s"
  by (auto simp: drained_def split: option.split)

lemma drainedD: "drained s s' \<Longrightarrow> data_of q s = Some d \<Longrightarrow> \<exists>d'. data_of q s' = Some d' \<and> same_shape d d' \<and> level d' \<le> level d"
  unfolding drained_def by (drule spec [of _ q]) simp

lemma drainedD_None: "drained s s' \<Longrightarrow> data_of q s = None \<Longrightarrow> data_of q s' = None"
  unfolding drained_def by (drule spec [of _ q]) simp

lemma drained_trans:
  assumes "drained s s1" "drained s1 s2"
  shows "drained s s2"
  unfolding drained_def
proof
  fix q
  show "case data_of q s of None \<Rightarrow> data_of q s2 = None
    | Some d \<Rightarrow> \<exists>d'. data_of q s2 = Some d' \<and> same_shape d d' \<and> level d' \<le> level d"
  proof (cases "data_of q s")
    case None
    then show ?thesis using drainedD_None [OF assms(1)] drainedD_None [OF assms(2)] by simp
  next
    case (Some d)
    then obtain d1 where d1: "data_of q s1 = Some d1" "same_shape d d1" "level d1 \<le> level d" using drainedD [OF assms(1)] by blast
    then obtain d2 where d2: "data_of q s2 = Some d2" "same_shape d1 d2" "level d2 \<le> level d1" using drainedD [OF assms(2)] by blast
    have "same_shape d d2" "level d2 \<le> level d" using same_shape_trans [OF d1(2) d2(2)] d1(3) d2(3) by simp_all
    then show ?thesis using Some d2(1) by simp
  qed
qed

section \<open>One wakeup\<close>

text \<open>The thread records agree except for chains, owned mutexes and the suspend context.\<close>

definition same_thread :: "thread \<Rightarrow> thread \<Rightarrow> bool" where
  "same_thread a b \<longleftrightarrow> th_process b = th_process a \<and> th_suspend b = th_suspend a \<and> th_bypass b = th_bypass a \<and>
     th_system_apc b = th_system_apc a \<and> th_user_apc b = th_user_apc a \<and> th_terminated b = th_terminated a"

lemma send_wakeup_effect:
  "same_env s (send_thread_wakeup t c st s)" "ws_ok (send_thread_wakeup t c st s) = ws_ok s"
  "u \<noteq> t \<Longrightarrow> ws_threads (send_thread_wakeup t c st s) u = ws_threads s u"
  "mutexes_of u (send_thread_wakeup t c st s) = mutexes_of u s"
  "same_thread (ws_threads s t) (ws_threads (send_thread_wakeup t c st s) t)"
  by (auto simp: send_thread_wakeup_def same_env_def same_thread_def Let_def split: option.split)

lemma wake_step:
  assumes wf: "sync_wf s" and ch: "waits_of t s = w # ws" and wt: "ws_waits s w = Some wait"
    and c: "check_wait t s = (Some st, s1)" and e: "end_wait t st s1 = (st', s2)"
    and s3: "s3 = (if b then send_thread_wakeup t ck st' s2 else s2)"
  shows "sync_wf s3" "ws_ok s3 = ws_ok s" "waits_of t s3 = ws" "\<And>u. u \<noteq> t \<Longrightarrow> calmer u s s3"
    "\<And>q. data_of q s3 = (if q \<in> taken wait st then map_option (\<lambda>d. consume d t) (data_of q s) else data_of q s)"
    "same_env s s3" "drained s s3" "same_thread (ws_threads s t) (ws_threads s3 t)"
    "ws_waits s3 = (ws_waits s)(w := None)" "takeable (taken wait st) t s"
proof -
  note C = check_wait_Some [OF wf ch wt c]
  show tk: "takeable (taken wait st) t s" by (rule C(1))
  obtain f where f: "s1 = upd_thread t (th_context_update f) s" using C(2) by blast
  have wf1: "sync_wf s1" by (rule sync_wf_cong [OF wf]) (simp_all add: f)
  have d1: "data_of q s1 = data_of q s" for q by (rule data_of_cong) (simp add: f)
  have ch1: "waits_of t s1 = w # ws" and wt1: "ws_waits s1 w = Some wait" using ch wt by (simp_all add: f)
  have tk1: "takeable (taken wait st) t s1" using tk by (simp add: takeable_def d1)
  obtain ms where E: "sync_wf s2" "ws_ok s2 = ws_ok s1" "same_env s1 s2" "ws_waits s2 = (ws_waits s1)(w := None)"
    "\<forall>u. u \<noteq> t \<longrightarrow> ws_threads s2 u = ws_threads s1 u" "ws_threads s2 t = (ws_threads s1 t)\<lparr>th_waits := ws, th_mutexes := ms\<rparr>"
    "\<forall>q. data_of q s2 = (if q \<in> taken wait st then map_option (\<lambda>d. consume d t) (data_of q s1) else data_of q s1)"
    using end_wait_spec [OF wf1 ch1 wt1 tk1] e by auto
  have s3o: "ws_objs s3 = ws_objs s2" "ws_waits s3 = ws_waits s2" "\<And>u. waits_of u s3 = waits_of u s2"
    "\<And>u. mutexes_of u s3 = mutexes_of u s2" "same_env s2 s3" "ws_ok s3 = ws_ok s2" "\<And>u. u \<noteq> t \<Longrightarrow> ws_threads s3 u = ws_threads s2 u"
    using s3 send_wakeup_effect send_wakeup_waits by auto
  show "sync_wf s3" by (rule sync_wf_cong [OF E(1)]) (use s3o in \<open>simp_all add: same_env_def\<close>)
  show "ws_ok s3 = ws_ok s" using s3o(6) E(2) f by simp
  show "waits_of t s3 = ws" using s3o(3) E(6) by simp
  have env1: "same_env s s1" by (simp add: f same_env_def)
  show env: "same_env s s3" using env1 E(3) s3o(5) same_env_trans by blast
  show D: "data_of q s3 = (if q \<in> taken wait st then map_option (\<lambda>d. consume d t) (data_of q s) else data_of q s)" for q
    using E(7) d1 data_of_cong [OF s3o(1)] by simp
  show W: "ws_waits s3 = (ws_waits s)(w := None)" using s3o(2) E(4) f by simp
  show "drained s s3"
    using tk consume_shape consume_level(1) unfolding drained_def D takeable_def by (fastforce split: option.split)
  show "same_thread (ws_threads s t) (ws_threads s3 t)"
    using s3 send_wakeup_effect(5) E(6) f by (auto simp: same_thread_def split: if_splits)
  have live: "0 < live_waits s"
    using wf wt unfolding sync_wf_def live_waits_def by (auto simp: card_gt_0_iff chains_wf_def)
  show "calmer u s s3" if u: "u \<noteq> t" for u
  proof -
    have "w \<notin> set (waits_of u s)"
      using wf ch u unfolding sync_wf_def chains_wf_def by (metis list.set_intros(1) option.inject)
    then have "\<forall>v \<in> set (waits_of u s). ws_waits s3 v = ws_waits s v" using W by auto
    moreover have "object_sync_signaled q u s" if "object_sync_signaled q u s3" for q
    proof (cases "q \<in> taken wait st")
      case True
      then obtain d where d: "data_of q s = Some d" "data_signaled d t" using tk by (auto simp: takeable_def)
      have "data_signaled (consume d t) u" using that D True d(1) by (auto simp: signaled_iff)
      then have "data_signaled d u" using consume_mono [OF _ live d u] wf by (simp add: sync_wf_def)
      then show ?thesis using d(1) by (auto simp: signaled_iff)
    next
      case False
      then show ?thesis using that D by (auto simp: signaled_iff)
    qed
    moreover have "ws_threads s3 u = ws_threads s u" using s3o(7) [OF u] E(5) u f by simp
    ultimately show ?thesis using env by (simp add: calmer_def)
  qed
qed

text \<open>Waking a thread.\<close>

lemma wake_thread_spec:
  assumes "sync_wf s" "wake_thread t s = (n, s')"
  shows "sync_wf s' \<and> ws_ok s' = ws_ok s \<and> (\<forall>u. u \<noteq> t \<longrightarrow> calmer u s s') \<and> same_env s s' \<and> drained s s' \<and>
    same_thread (ws_threads s t) (ws_threads s' t) \<and> fst (check_wait t s') = None \<and> (n = 0 \<longrightarrow> s' = s)"
  using assms
proof (induction t s arbitrary: n s' rule: wake_thread.induct)
  case (1 t s)
  show ?case
  proof (cases "waits_of t s")
    case Nil
    then have "n = 0" "s' = s" using wake_thread_Nil 1(3) by auto
    then show ?thesis using 1(2) Nil by (simp add: check_wait_def same_thread_def)
  next
    case (Cons w ws)
    obtain wait where wt: "ws_waits s w = Some wait" using sync_wf_head [OF 1(2) Cons] .
    obtain r s1 where c: "check_wait t s = (r, s1)" by (metis surj_pair)
    show ?thesis
    proof (cases r)
      case None
      then have "s1 = s" using check_wait_None [OF 1(2) Cons] c by simp
      then have "n = 0" "s' = s" using wake_thread_None [OF Cons c [unfolded None]] 1(3) by auto
      then show ?thesis using 1(2) c None \<open>s1 = s\<close> by (simp add: same_thread_def)
    next
      case (Some st)
      obtain st' s2 where e: "end_wait t st s1 = (st', s2)" by (metis surj_pair)
      define s3 where "s3 = (if wait_cookie w s1 \<noteq> 0 then send_thread_wakeup t (wait_cookie w s1) st' s2 else s2)"
      note S = wake_step [OF 1(2) Cons wt c [unfolded Some] e s3_def]
      obtain m s4 where wk: "wake_thread t s3 = (m, s4)" by (metis surj_pair)
      have r: "n = m + 1" "s' = s4"
        using wake_thread_Some [OF Cons c [unfolded Some] e s3_def wk] 1(3) by simp_all
      have ih: "sync_wf s4 \<and> ws_ok s4 = ws_ok s3 \<and> (\<forall>u. u \<noteq> t \<longrightarrow> calmer u s3 s4) \<and> same_env s3 s4 \<and> drained s3 s4 \<and>
          same_thread (ws_threads s3 t) (ws_threads s4 t) \<and> fst (check_wait t s4) = None \<and> (m = 0 \<longrightarrow> s4 = s3)"
        by (rule 1(1) [OF Cons c [symmetric] _ refl e [symmetric] _ s3_def S(1) wk]) (use Some in simp_all)
      have "\<forall>u. u \<noteq> t \<longrightarrow> calmer u s s4" using ih S(4) calmer_trans by blast
      moreover have "same_env s s4" using ih S(6) same_env_trans by blast
      moreover have "drained s s4" using ih S(7) drained_trans by blast
      moreover have "same_thread (ws_threads s t) (ws_threads s4 t)" using ih S(8) unfolding same_thread_def by simp
      ultimately show ?thesis using ih S(2) r by simp
    qed
  qed
qed

section \<open>Waking the threads of a queue\<close>

lemma wake_scan_spec:
  assumes "sync_wf s" "wake_scan es s = (n, s')"
  shows "if n = 0 then s' = s \<and> (\<forall>e \<in> set es. fst (check_wait (we_thread e) s) = None)
    else \<exists>e \<in> set es. wake_thread (we_thread e) s = (n, s')"
  using assms(2)
proof (induction es)
  case (Cons e es)
  obtain m s1 where wk: "wake_thread (we_thread e) s = (m, s1)" by (metis surj_pair)
  note W = wake_thread_spec [OF assms(1) wk]
  show ?case
  proof (cases "m = 0")
    case True
    then have "s1 = s" "fst (check_wait (we_thread e) s) = None" using W by auto
    moreover have "wake_scan es s = (n, s')" using Cons.prems wk True \<open>s1 = s\<close> by simp
    ultimately show ?thesis using Cons.IH by (auto split: if_splits)
  next
    case False
    then show ?thesis using Cons.prems wk by auto
  qed
qed simp

lemma wake_up_1: "wake_scan (queue_of p s) s = (n, s') \<Longrightarrow> n \<noteq> 0 \<Longrightarrow> wake_up p 1 s = s'"
  by (subst wake_up.simps) simp

lemma wake_up_wf:
  assumes "sync_wf s"
  shows "sync_wf (wake_up p m s) \<and> ws_ok (wake_up p m s) = ws_ok s \<and> same_env s (wake_up p m s) \<and> drained s (wake_up p m s)"
  using assms
proof (induction p m s rule: wake_up.induct)
  case (1 p m s)
  obtain n s' where sc: "wake_scan (queue_of p s) s = (n, s')" by (metis surj_pair)
  note S = wake_scan_spec [OF 1(2) sc]
  show ?case
  proof (cases "n = 0")
    case True
    then show ?thesis using S sc 1(2) by (simp add: wake_up.simps [of p m s])
  next
    case False
    then obtain e :: wait_queue_entry where wk: "wake_thread (we_thread e) s = (n, s')" using S by auto
    note W = wake_thread_spec [OF 1(2) wk]
    show ?thesis
    proof (cases "m = 1")
      case True
      then have "wake_up p m s = s'" using wake_up_1 [OF sc False] by simp
      then show ?thesis using W by simp
    next
      case m: False
      have "sync_wf (wake_up p (m - 1) s') \<and> ws_ok (wake_up p (m - 1) s') = ws_ok s' \<and> same_env s' (wake_up p (m - 1) s') \<and>
          drained s' (wake_up p (m - 1) s')"
        using 1(1) [OF sc [symmetric] False m] W by blast
      moreover have "wake_up p m s = wake_up p (m - 1) s'" using sc False m by (simp add: wake_up.simps [of p m s])
      ultimately show ?thesis using W same_env_trans drained_trans by metis
    qed
  qed
qed

text \<open>No thread is left whose current wait could end.\<close>

definition quiet :: "wstate \<Rightarrow> bool" where
  "quiet s \<longleftrightarrow> (\<forall>t. fst (check_wait t s) = None)"

text \<open>
  \<open>fresh p u s0 s\<close>: since the quiet state \<open>s0\<close> thread \<open>u\<close> did nothing, and no object but \<open>p\<close> became signaled for it.
\<close>

definition fresh :: "nat \<Rightarrow> nat \<Rightarrow> wstate \<Rightarrow> wstate \<Rightarrow> bool" where
  "fresh p u s0 s \<longleftrightarrow> ws_threads s u = ws_threads s0 u \<and> same_clock s0 s \<and>
     (\<forall>w \<in> set (waits_of u s0). ws_waits s w = ws_waits s0 w) \<and>
     (\<forall>q. q \<noteq> p \<and> object_sync_signaled q u s \<longrightarrow> object_sync_signaled q u s0) \<and> fst (check_wait u s0) = None"

lemma fresh_calmer: "fresh p u s0 s \<Longrightarrow> calmer u s s' \<Longrightarrow> fresh p u s0 s'"
  unfolding fresh_def calmer_def by (metis same_clock_trans)

lemma fresh_unsignaled:
  assumes "fresh p u s0 s" "\<not> object_sync_signaled p u s"
  shows "fst (check_wait u s) = None"
proof (rule calmer_check)
  show "calmer u s0 s" using assms unfolding fresh_def calmer_def by metis
  show "fst (check_wait u s0) = None" using assms(1) by (simp add: fresh_def)
qed

text \<open>If the check of such a thread succeeds, it is because of \<open>p\<close>, and the wait takes \<open>p\<close>.\<close>

lemma fresh_takes:
  assumes wf: "sync_wf s" and fr: "fresh p u s0 s" and ch: "waits_of u s = w # ws" and wt: "ws_waits s w = Some wait"
    and c: "check_wait u s = (Some st, s1)"
  shows "p \<in> taken wait st" "p \<in> set (wt_objs wait)"
proof -
  have thr: "ws_threads s u = ws_threads s0 u" and env: "same_clock s0 s" using fr by (simp_all add: fresh_def)
  have ch0: "waits_of u s0 = w # ws" using ch thr by simp
  have wt0: "ws_waits s0 w = Some wait" using fr wt ch0 by (simp add: fresh_def)
  have len: "length (wt_objs wait) \<le> 64" using sync_wf_head [OF wf ch] wt by (metis option.inject)
  have sus: "is_thread_suspended u s = is_thread_suspended u s0" by (rule suspended_cong [OF thr env])
  have ex: "wait_expired wait s = wait_expired wait s0" using env by (simp add: wait_expired_def same_clock_def)
  have n0: "fst (check_wait u s0) = None" using fr by (simp add: fresh_def)
  have "wait_signaled wait u s0 = None \<and> (\<exists>i. wait_signaled wait u s = Some i \<and> st = of_nat i)"
    using c n0 ch ch0 wt wt0 thr sus ex by (auto simp: check_wait_def Let_def split: if_splits option.splits)
  then obtain i where i: "wait_signaled wait u s0 = None" "wait_signaled wait u s = Some i" "st = of_nat i" by blast
  have sg: "q = p \<or> object_sync_signaled q u s0" if "object_sync_signaled q u s" for q using fr that by (auto simp: fresh_def)
  have "p \<in> taken wait st \<and> p \<in> set (wt_objs wait)"
  proof (cases "wt_select wait = SELECT_WAIT_ALL")
    case True
    then have all: "\<forall>q \<in> set (wt_objs wait). object_sync_signaled q u s" "i = 0"
      using i(2) by (auto simp: wait_signaled_def split: if_splits)
    obtain q where q: "q \<in> set (wt_objs wait)" "\<not> object_sync_signaled q u s0" using i(1) True by (auto simp: wait_signaled_None)
    then have "q = p" using all sg by blast
    then show ?thesis using q(1) True i(3) all(2) by (auto simp: taken_def)
  next
    case False
    have f: "i < length (wt_objs wait)" "object_sync_signaled (wt_objs wait ! i) u s"
      using i(2) False first_signaled_Some [of "wt_objs wait" 0 u s i] by (auto simp: wait_signaled_def)
    then have "wt_objs wait ! i = p" using sg i(1) False unfolding wait_signaled_None by (meson nth_mem)
    moreover have "unat st = i" unfolding i(3) using len f(1) by (intro unat_of_nat_less) simp
    ultimately show ?thesis using False f(1) by (auto simp: taken_def)
  qed
  then show "p \<in> taken wait st" "p \<in> set (wt_objs wait)" by simp_all
qed

definition wake_inv :: "nat \<Rightarrow> wstate \<Rightarrow> wstate \<Rightarrow> bool" where
  "wake_inv p s0 s \<longleftrightarrow> sync_wf s \<and> (\<forall>u. fst (check_wait u s) = None \<or> fresh p u s0 s)"

lemma wake_invD: "wake_inv p s0 s \<Longrightarrow> fst (check_wait u s) = None \<or> fresh p u s0 s"
  by (simp add: wake_inv_def)

lemma wake_inv_step:
  assumes J: "wake_inv p s0 s" and wk: "wake_thread t s = (n, s')" and n: "n \<noteq> 0"
  shows "wake_inv p s0 s'" "data_of p s = Some d \<Longrightarrow> consumable d \<Longrightarrow> \<exists>d'. data_of p s' = Some d' \<and> level d' < level d"
proof -
  have wf: "sync_wf s" using J by (simp add: wake_inv_def)
  note W = wake_thread_spec [OF wf wk]
  have "fst (check_wait u s') = None \<or> fresh p u s0 s'" for u
  proof (cases "u = t")
    case True
    then show ?thesis using W by simp
  next
    case False
    then have cl: "calmer u s s'" using W by blast
    show ?thesis using wake_invD [OF J, of u] calmer_check [OF cl] fresh_calmer [OF _ cl, of p s0] by metis
  qed
  then show "wake_inv p s0 s'" using W by (simp add: wake_inv_def)
  assume d: "data_of p s = Some d" "consumable d"
  obtain w ws where ch: "waits_of t s = w # ws" using wk n wake_thread_Nil by (cases "waits_of t s") auto
  obtain wait where wt: "ws_waits s w = Some wait" using sync_wf_head [OF wf ch] .
  obtain r s1 where c: "check_wait t s = (r, s1)" by (metis surj_pair)
  obtain st where st: "r = Some st" using wake_thread_None [OF ch, of s1] c wk n by (cases r) auto
  have fr: "fresh p t s0 s" using wake_invD [OF J, of t] c st by simp
  obtain st' s2 where e: "end_wait t st s1 = (st', s2)" by (metis surj_pair)
  define s3 where "s3 = (if wait_cookie w s1 \<noteq> 0 then send_thread_wakeup t (wait_cookie w s1) st' s2 else s2)"
  note S = wake_step [OF wf ch wt c [unfolded st] e s3_def]
  obtain m s4 where wk3: "wake_thread t s3 = (m, s4)" by (metis surj_pair)
  have r: "s' = s4" using wake_thread_Some [OF ch c [unfolded st] e s3_def wk3] wk by simp
  have p: "p \<in> taken wait st" by (rule fresh_takes [OF wf fr ch wt c [unfolded st]])
  then have d3: "data_of p s3 = Some (consume d t)" using S(5) d(1) by simp
  have "data_signaled d t" using S(10) p d(1) by (auto simp: takeable_def)
  then have l: "level (consume d t) < level d" using consume_level(2) d(2) by blast
  have "drained s3 s4" using wake_thread_spec [OF S(1) wk3] by blast
  then obtain d' where "data_of p s4 = Some d'" "level d' \<le> level (consume d t)" using drainedD d3 by blast
  then show "\<exists>d'. data_of p s' = Some d' \<and> level d' < level d" using l r by auto
qed

lemma level0_unsignaled: "consumable d \<Longrightarrow> level d = 0 \<Longrightarrow> \<not> data_signaled d u"
  by (cases d) (auto simp: data_signaled_def event_sync_signaled_def semaphore_sync_signaled_def unat_eq_zero split: if_splits)

lemma wake_up_quiet:
  assumes "wake_inv p s0 s" "m \<noteq> 0 \<Longrightarrow> \<exists>d. data_of p s = Some d \<and> consumable d \<and> level d \<le> m"
  shows "quiet (wake_up p m s)"
  using assms
proof (induction p m s rule: wake_up.induct)
  case (1 p m s)
  have wf: "sync_wf s" using 1(2) by (simp add: wake_inv_def)
  obtain n s' where sc: "wake_scan (queue_of p s) s = (n, s')" by (metis surj_pair)
  note S = wake_scan_spec [OF wf sc]
  show ?case
  proof (cases "n = 0")
    case True
    then have s': "s' = s" and q: "\<forall>e \<in> set (queue_of p s). fst (check_wait (we_thread e) s) = None" using S by auto
    have "fst (check_wait u s) = None" for u
    proof (rule ccontr)
      assume a: "fst (check_wait u s) \<noteq> None"
      then have fr: "fresh p u s0 s" using wake_invD [OF 1(2), of u] by metis
      obtain st s1 where c: "check_wait u s = (Some st, s1)" using a by (cases "check_wait u s") auto
      obtain w ws where ch: "waits_of u s = w # ws" using a by (cases "waits_of u s") (auto simp: check_wait_def)
      obtain wait where wt: "ws_waits s w = Some wait" "wt_thread wait = u" using sync_wf_head [OF wf ch] .
      have "p \<in> set (wt_objs wait)" by (rule fresh_takes [OF wf fr ch wt(1) c])
      then obtain i where i: "i < length (wt_objs wait)" "wt_objs wait ! i = p" by (auto simp: in_set_conv_nth)
      have "entry_of \<lparr>we_thread = u, we_wait = w, we_index = i\<rparr> p s" using wt i by (simp add: entry_of_def)
      then have "\<lparr>we_thread = u, we_wait = w, we_index = i\<rparr> \<in> set (queue_of p s)" using wf by (simp add: sync_wf_def queues_wf_def)
      then show False using q a by fastforce
    qed
    then show ?thesis using sc True s' by (simp add: quiet_def wake_up.simps [of p m s])
  next
    case False
    then obtain e :: wait_queue_entry where wk: "wake_thread (we_thread e) s = (n, s')" using S by auto
    note J = wake_inv_step [OF 1(2) wk False]
    show ?thesis
    proof (cases "m = 1")
      case True
      obtain d where d: "data_of p s = Some d" "consumable d" "level d \<le> 1" using 1(3) True by auto
      then obtain d' where d': "data_of p s' = Some d'" "level d' < level d" using J(2) by blast
      have "drained s s'" using wake_thread_spec [OF wf wk] by blast
      then have "consumable d'" using drainedD [of s s' p d] d d' same_shape_consumable by fastforce
      then have "\<not> object_sync_signaled p u s'" for u
        using level0_unsignaled d'(1) d'(2) d(3) by (auto simp: signaled_iff)
      then have "fst (check_wait u s') = None" for u
        using wake_invD [OF J(1), of u] fresh_unsignaled by metis
      then show ?thesis using wake_up_1 [OF sc False] True by (simp add: quiet_def)
    next
      case m: False
      have e: "wake_up p m s = wake_up p (m - 1) s'" using sc False m by (simp add: wake_up.simps [of p m s])
      have "\<exists>d. data_of p s' = Some d \<and> consumable d \<and> level d \<le> m - 1" if m1: "m - 1 \<noteq> 0"
      proof -
        obtain d where d: "data_of p s = Some d" "consumable d" "level d \<le> m" using 1(3) m1 by auto
        then obtain d' where d': "data_of p s' = Some d'" "level d' < level d" using J(2) by blast
        have "drained s s'" using wake_thread_spec [OF wf wk] by blast
        then have "consumable d'" using drainedD [of s s' p d] d d' same_shape_consumable by fastforce
        then show ?thesis using d'(1) d'(2) d(3) by auto
      qed
      then show ?thesis unfolding e using 1(1) [OF sc [symmetric] False m J(1)] by blast
    qed
  qed
qed

end
