(* ===== verification/Sync_Laws.thy ===== *)
theory Sync_Laws
  imports Sync_Wake
begin

unbundle bit_operations_syntax

text \<open>
  The laws of the synchronization operations: signaling an event, releasing a semaphore or a mutex keeps the
  invariant and leaves no thread behind whose wait could end.
\<close>

section \<open>Changing the data of an object\<close>

fun is_mutex :: "sync_data \<Rightarrow> bool" where
  "is_mutex (Mutex_Sync _) = True"
| "is_mutex _ = False"

lemma data_wf_cong:
  "(\<And>u. mutexes_of u s' = mutexes_of u s) \<Longrightarrow> live_waits s' = live_waits s \<Longrightarrow> data_wf p d s' = data_wf p d s"
  by (cases d) simp_all

lemma data_exists: "data_of p s = Some d \<Longrightarrow> ws_objs s p \<noteq> None"
  by (auto simp: data_of_def)

lemma sync_wf_set_data:
  assumes wf: "sync_wf s" and d0: "data_of p s = Some d0" and d: "data_wf p d s" "is_mutex d = is_mutex d0"
  shows "sync_wf (set_data p d s)"
proof -
  let ?s = "set_data p d s"
  have p: "ws_objs s p \<noteq> None" by (rule data_exists [OF d0])
  have D: "data_of q ?s = (if q = p then Some d else data_of q s)" for q using p by (simp add: data_of_set_data)
  have lw: "live_waits ?s = live_waits s" by (simp add: live_waits_def)
  have dw: "data_wf q e ?s = data_wf q e s" for q e by (rule data_wf_cong) (simp_all add: lw)
  have ow: "objs_wf s" using wf by (simp add: sync_wf_def)
  have "objs_wf ?s" unfolding objs_wf_def
  proof (intro conjI allI impI ballI)
    fix q e assume "data_of q ?s = Some e"
    then show "data_wf q e ?s" "q < ws_next ?s" using ow d(1) d0 D dw by (auto simp: objs_wf_def split: if_splits)
  next
    fix t show "distinct (mutexes_of t ?s)" using ow by (simp add: objs_wf_def)
  next
    fix t q assume "q \<in> set (mutexes_of t ?s)"
    then obtain m where m: "data_of q s = Some (Mutex_Sync m)" using ow unfolding objs_wf_def by (metis set_data_simps(1))
    show "\<exists>m. data_of q ?s = Some (Mutex_Sync m)"
    proof (cases "q = p")
      case True
      then have "is_mutex d" using m d0 d(2) by simp
      then show ?thesis using True D by (cases d) auto
    next
      case False
      then show ?thesis using m D by simp
    qed
  qed
  moreover have "chains_wf ?s" using wf by (simp add: sync_wf_def chains_wf_def)
  moreover have "queues_wf ?s" using wf by (simp add: sync_wf_def queues_wf_def entry_of_def)
  ultimately show ?thesis by (simp add: sync_wf_def)
qed

lemma quiet_calmer: "quiet s \<Longrightarrow> (\<And>u. calmer u s s') \<Longrightarrow> quiet s'"
  unfolding quiet_def using calmer_check by blast

lemma quietD: "quiet s \<Longrightarrow> fst (check_wait u s) = None"
  by (simp add: quiet_def)

lemma signaled_set_data:
  "data_of p s = Some d0 \<Longrightarrow>
   object_sync_signaled q u (set_data p d s) = (if q = p then data_signaled d u else object_sync_signaled q u s)"
  using data_exists [of p s d0] by (simp add: signaled_iff data_of_set_data)

lemma quiet_set_data_calmer:
  assumes "quiet s" "data_of p s = Some d0" "\<And>u. data_signaled d u \<Longrightarrow> data_signaled d0 u"
  shows "quiet (set_data p d s)"
proof (rule quiet_calmer [OF assms(1)])
  fix u
  have "object_sync_signaled p u s = data_signaled d0 u" using assms(2) by (simp add: signaled_iff)
  then show "calmer u s (set_data p d s)"
    using assms(2,3) by (simp add: calmer_def signaled_set_data same_clock_def)
qed

text \<open>Setting the data of one object and waking its queue.\<close>

lemma wake_up_set_data:
  assumes wf: "sync_wf s" and q: "quiet s" and d0: "data_of p s = Some d0" and d: "data_wf p d s" "is_mutex d = is_mutex d0"
    and m: "m \<noteq> 0 \<Longrightarrow> consumable d \<and> level d \<le> m"
  shows "quiet (wake_up p m (set_data p d s))"
proof (rule wake_up_quiet)
  have "fresh p u s (set_data p d s)" for u
    using quietD [OF q, of u] signaled_set_data [OF d0] by (simp add: fresh_def same_clock_def)
  then show "wake_inv p s (set_data p d s)" using sync_wf_set_data [OF wf d0 d] by (simp add: wake_inv_def)
  show "\<exists>d'. data_of p (set_data p d s) = Some d' \<and> consumable d' \<and> level d' \<le> m" if "m \<noteq> 0"
    using m [OF that] data_exists [OF d0] by (simp add: data_of_set_data)
qed

section \<open>Events\<close>

lemma event_sync_signal_eq:
  assumes "data_of p s = Some (Event_Sync e)"
  shows "event_sync_signal p b s =
    (if b then wake_up p (if es_manual e then 0 else 1) (set_data p (Event_Sync (e\<lparr>es_signaled := b\<rparr>)) s)
     else set_data p (Event_Sync (e\<lparr>es_signaled := b\<rparr>)) s)"
  unfolding event_sync_signal_def data_of_def [symmetric] assms by (simp add: Let_def)

lemma event_sync_signal_wf:
  assumes "sync_wf s" "data_of p s = Some (Event_Sync e)"
  shows "sync_wf (event_sync_signal p b s)" "ws_ok (event_sync_signal p b s) = ws_ok s"
proof -
  have w: "sync_wf (set_data p (Event_Sync (e\<lparr>es_signaled := b\<rparr>)) s)"
    by (rule sync_wf_set_data [OF assms]) simp_all
  show "sync_wf (event_sync_signal p b s)" "ws_ok (event_sync_signal p b s) = ws_ok s"
    unfolding event_sync_signal_eq [OF assms(2)] using w wake_up_wf [OF w] by (cases b; simp)+
qed

lemma event_sync_signal_quiet:
  assumes "sync_wf s" "quiet s" "data_of p s = Some (Event_Sync e)"
  shows "quiet (event_sync_signal p b s)"
proof (cases b)
  case True
  then show ?thesis unfolding event_sync_signal_eq [OF assms(3)]
    by (cases "es_manual e") (simp_all add: wake_up_set_data [OF assms])
next
  case False
  have "quiet (set_data p (Event_Sync (e\<lparr>es_signaled := False\<rparr>)) s)"
    by (rule quiet_set_data_calmer [OF assms(2,3)]) (simp add: data_signaled_def event_sync_signaled_def)
  then show ?thesis unfolding event_sync_signal_eq [OF assms(3)] using False by simp
qed

section \<open>Semaphores\<close>

lemma release_semaphore_eq:
  assumes "data_of p s = Some (Semaphore_Sync sem)"
  shows "release_semaphore p count s =
    (if unat (sem_count sem) + unat count > unat (sem_max sem)
     then (False, sem_count sem, set_werror STATUS_SEMAPHORE_LIMIT_EXCEEDED s)
     else (True, sem_count sem,
       let s1 = set_data p (Semaphore_Sync (sem\<lparr>sem_count := sem_count sem + count\<rparr>)) s
       in if sem_count sem = 0 then wake_up p (unat count) s1 else s1))"
proof -
  have "sem_count sem + count < sem_count sem \<or> sem_max sem < sem_count sem + count \<longleftrightarrow>
      unat (sem_max sem) < unat (sem_count sem) + unat count"
  proof (cases "unat (sem_count sem) + unat count < 2 ^ 32")
    case True
    then have u: "unat (sem_count sem + count) = unat (sem_count sem) + unat count" by (subst unat_plus_simple [symmetric]) (simp add: no_olen_add_nat)
    then show ?thesis by (simp add: word_less_nat_alt)
  next
    case False
    have "\<not> sem_count sem \<le> sem_count sem + count" using False by (simp add: no_olen_add_nat)
    moreover have "unat (sem_max sem) < 2 ^ 32" using unat_less_2p [of "sem_max sem"] by simp
    ultimately show ?thesis using False by auto
  qed
  then show ?thesis unfolding release_semaphore_def data_of_def [symmetric] assms by (simp add: Let_def)
qed

lemma release_semaphore_wf:
  assumes wf: "sync_wf s" and d: "data_of p s = Some (Semaphore_Sync sem)" and r: "release_semaphore p count s = (b, prev, s')"
  shows "sync_wf s'" "ws_ok s' = ws_ok s" "quiet s \<Longrightarrow> quiet s'"
proof -
  let ?d = "Semaphore_Sync (sem\<lparr>sem_count := sem_count sem + count\<rparr>)"
  have "sync_wf s' \<and> ws_ok s' = ws_ok s \<and> (quiet s \<longrightarrow> quiet s')"
  proof (cases "unat (sem_count sem) + unat count > unat (sem_max sem)")
    case True
    then have s': "s' = set_werror STATUS_SEMAPHORE_LIMIT_EXCEEDED s" using r unfolding release_semaphore_eq [OF d] by simp
    have "quiet s'" if "quiet s"
      by (rule quiet_calmer [OF that]) (simp add: s' calmer_def same_clock_def object_sync_signaled_def set_werror_def)
    moreover have "sync_wf s'" by (rule sync_wf_cong [OF wf]) (simp_all add: s' set_werror_def)
    ultimately show ?thesis by (simp add: s' set_werror_def)
  next
    case False
    have u: "unat (sem_count sem + count) = unat (sem_count sem) + unat count"
      using False unat_less_2p [of "sem_max sem"] by (subst unat_plus_simple [symmetric]) (simp add: no_olen_add_nat)
    have dw: "data_wf p ?d s" using False u by (simp add: word_le_nat_alt)
    have w: "sync_wf (set_data p ?d s)" by (rule sync_wf_set_data [OF wf d dw]) simp
    show ?thesis
    proof (cases "sem_count sem = 0")
      case True
      then have s': "s' = wake_up p (unat count) (set_data p ?d s)"
        using r False unfolding release_semaphore_eq [OF d] by (simp add: Let_def)
      have "quiet s'" if "quiet s" unfolding s'
        by (rule wake_up_set_data [OF wf that d dw]) (simp_all add: True)
      then show ?thesis using wake_up_wf [OF w] s' by simp
    next
      case nz: False
      then have s': "s' = set_data p ?d s" using r False unfolding release_semaphore_eq [OF d] by (auto simp: Let_def)
      have "quiet s'" if "quiet s" unfolding s'
        by (rule quiet_set_data_calmer [OF that d]) (use nz in \<open>simp add: data_signaled_def semaphore_sync_signaled_def word_gt_0\<close>)
      then show ?thesis using w s' by simp
    qed
  qed
  then show "sync_wf s'" "ws_ok s' = ws_ok s" "quiet s \<Longrightarrow> quiet s'" by simp_all
qed

lemma if_both: "P x \<Longrightarrow> P y \<Longrightarrow> P (if b then x else y)"
  by simp

lemma release_semaphore_spec:
  assumes wf: "sync_wf s" and d: "data_of p s = Some (Semaphore_Sync sem)" and r: "release_semaphore p count s = (b, prev, s')"
  shows "prev = sem_count sem \<and> (b \<longleftrightarrow> unat (sem_count sem) + unat count \<le> unat (sem_max sem)) \<and>
    (\<not> b \<longrightarrow> s' = set_werror STATUS_SEMAPHORE_LIMIT_EXCEEDED s) \<and>
    (b \<longrightarrow> (\<exists>sem'. data_of p s' = Some (Semaphore_Sync sem') \<and> sem_max sem' = sem_max sem \<and>
       unat (sem_count sem') \<le> unat (sem_count sem) + unat count \<and> sem_count sem' \<le> sem_max sem))"
proof (cases "unat (sem_count sem) + unat count > unat (sem_max sem)")
  case True
  then show ?thesis using r unfolding release_semaphore_eq [OF d] by auto
next
  case False
  let ?d = "Semaphore_Sync (sem\<lparr>sem_count := sem_count sem + count\<rparr>)"
  have u: "unat (sem_count sem + count) = unat (sem_count sem) + unat count"
    using False unat_less_2p [of "sem_max sem"] by (subst unat_plus_simple [symmetric]) (simp add: no_olen_add_nat)
  have w: "sync_wf (set_data p ?d s)" by (rule sync_wf_set_data [OF wf d]) (use False u in \<open>simp_all add: word_le_nat_alt\<close>)
  have e: "b" "prev = sem_count sem"
    "s' = (if sem_count sem = 0 then wake_up p (unat count) (set_data p ?d s) else set_data p ?d s)"
    using r False unfolding release_semaphore_eq [OF d] by (auto simp: Let_def)
  have "drained (set_data p ?d s) (wake_up p (unat count) (set_data p ?d s))" using wake_up_wf [OF w] by blast
  then have "drained (set_data p ?d s) s'" unfolding e(3) by (rule if_both) (rule drained_refl)
  moreover have "data_of p (set_data p ?d s) = Some ?d" using data_exists [OF d] by (simp add: data_of_set_data)
  ultimately obtain d' where d': "data_of p s' = Some d'" "same_shape ?d d'" "level d' \<le> level ?d" using drainedD by blast
  then obtain sem' where s: "d' = Semaphore_Sync sem'" "sem_max sem' = sem_max sem" by (cases d') auto
  then have "unat (sem_count sem') \<le> unat (sem_count sem) + unat count" using d'(3) u by simp
  then show ?thesis using e(1,2) False d'(1) s by (auto simp: word_le_nat_alt)
qed

section \<open>Mutexes\<close>

text \<open>Clearing the owner of a mutex: its data and the owner's list change together.\<close>

lemma sync_wf_disown:
  assumes wf: "sync_wf s" and d: "data_of p s = Some (Mutex_Sync m)" and o: "ms_owner m = Some t"
  defines "s' \<equiv> upd_thread t (th_mutexes_update (remove1 p)) (set_data p (Mutex_Sync (m\<lparr>ms_count := 0, ms_owner := None\<rparr>)) s)"
  shows "sync_wf s'"
proof -
  let ?d = "Mutex_Sync (m\<lparr>ms_count := 0, ms_owner := None\<rparr>)"
  have ow: "objs_wf s" using wf by (simp add: sync_wf_def)
  have D: "data_of q s' = (if q = p then Some ?d else data_of q s)" for q
    using data_exists [OF d] data_of_set_data [of q p ?d s] by (simp add: s'_def data_of_def)
  have M: "mutexes_of u s' = (if u = t then remove1 p (mutexes_of t s) else mutexes_of u s)" for u by (simp add: s'_def)
  have dist: "distinct (mutexes_of u s)" for u using ow by (simp add: objs_wf_def)
  have W: "ws_waits s' = ws_waits s" "ws_next s' = ws_next s" "waits_of u s' = waits_of u s" for u by (simp_all add: s'_def)
  have Q: "queue_of q s' = queue_of q s" for q by (simp add: s'_def)
  have N: "ws_objs s' q \<noteq> None \<longleftrightarrow> ws_objs s q \<noteq> None" for q unfolding s'_def upd_thread_simps set_data_None ..
  have lw: "live_waits s' = live_waits s" by (simp add: live_waits_def W)
  have mx: "data_wf p (Mutex_Sync m) s" using data_wf_D(1) [OF ow d] .
  have in': "q \<in> set (mutexes_of u s') \<longleftrightarrow> q \<in> set (mutexes_of u s) \<and> q \<noteq> p" for q u
    using dist [of t] M [of u] mx o by auto
  have "objs_wf s'" unfolding objs_wf_def
  proof (intro conjI allI impI ballI)
    fix q e assume e: "data_of q s' = Some e"
    show "q < ws_next s'" using e D d ow W by (auto simp: objs_wf_def split: if_splits)
    show "data_wf q e s'"
    proof (cases "q = p")
      case True
      then show ?thesis using e D in' mx lw by auto
    next
      case False
      then have "data_of q s = Some e" using e D by simp
      then have "data_wf q e s" by (rule data_wf_D(1) [OF ow])
      then show ?thesis using False in' lw by (cases e) auto
    qed
  next
    fix u show "distinct (mutexes_of u s')" using dist M by (simp add: distinct_remove1)
  next
    fix u q assume "q \<in> set (mutexes_of u s')"
    then show "\<exists>m. data_of q s' = Some (Mutex_Sync m)" using in' ow D unfolding objs_wf_def by metis
  qed
  moreover have "chains_wf s'" using wf by (simp add: sync_wf_def chains_wf_def W)
  moreover have "queues_wf s'"
    using wf unfolding sync_wf_def queues_wf_def entry_of_def W Q N by simp
  ultimately show ?thesis by (simp add: sync_wf_def)
qed

lemma do_release_eq:
  assumes "data_of p s = Some (Mutex_Sync m)"
  shows "do_release p t count s =
    (if ms_count m = 0 \<or> ms_owner m \<noteq> Some t then (False, set_werror STATUS_MUTANT_NOT_OWNED s)
     else if ms_count m = count
     then (True, wake_up p 0 (upd_thread t (th_mutexes_update (remove1 p))
            (set_data p (Mutex_Sync (m\<lparr>ms_count := 0, ms_owner := None\<rparr>)) s)))
     else (True, set_data p (Mutex_Sync (m\<lparr>ms_count := ms_count m - count\<rparr>)) s))"
  unfolding do_release_def data_of_def [symmetric] assms by (simp add: Let_def)

text \<open>The check of a wait looks at the thread's waits, suspension and APCs, and at what is signaled for it.\<close>

lemma check_wait_same:
  assumes th: "ws_threads s' t = (ws_threads s t)\<lparr>th_mutexes := ms\<rparr>" and cl: "same_clock s s'" and w: "ws_waits s' = ws_waits s"
    and sg: "\<And>q. object_sync_signaled q t s' = object_sync_signaled q t s"
  shows "fst (check_wait t s') = fst (check_wait t s)"
proof -
  have f: "th_waits (ws_threads s' t) = th_waits (ws_threads s t)" "th_context (ws_threads s' t) = th_context (ws_threads s t)"
    "th_system_apc (ws_threads s' t) = th_system_apc (ws_threads s t)" "th_user_apc (ws_threads s' t) = th_user_apc (ws_threads s t)"
    by (simp_all add: th)
  have su: "is_thread_suspended t s' = is_thread_suspended t s" using cl by (simp add: is_thread_suspended_def same_clock_def Let_def th)
  have fs: "first_signaled ps i t s' = first_signaled ps i t s" for ps i by (induction ps arbitrary: i) (simp_all add: sg)
  have ws: "wait_signaled x t s' = wait_signaled x t s" for x unfolding wait_signaled_def fs sg ..
  have ex: "wait_expired x s' = wait_expired x s" for x using cl by (simp add: wait_expired_def same_clock_def)
  show ?thesis unfolding check_wait_def Let_def f su ws ex w by (simp split: list.split option.split)
qed

lemma check_wait_mutexes: "fst (check_wait u (upd_thread t (th_mutexes_update f) s)) = fst (check_wait u s)"
proof (rule check_wait_same)
  let ?s = "upd_thread t (th_mutexes_update f) s"
  show "ws_threads ?s u = (ws_threads s u)\<lparr>th_mutexes := if u = t then f (mutexes_of t s) else mutexes_of u s\<rparr>" by simp
qed (simp_all add: same_clock_def object_sync_signaled_def)

text \<open>The mutex is released by its owner; \<open>count\<close> is at most its recursion count.\<close>

lemma do_release_wf:
  assumes wf: "sync_wf s" and d: "data_of p s = Some (Mutex_Sync m)" and c: "count \<le> ms_count m"
    and r: "do_release p t count s = (b, s')"
  shows "sync_wf s'" "ws_ok s' = ws_ok s" "quiet s \<Longrightarrow> quiet s'" "b \<longleftrightarrow> ms_owner m = Some t"
proof -
  have ow: "objs_wf s" using wf by (simp add: sync_wf_def)
  note mc = mutex_consistent [OF ow d]
  have "sync_wf s' \<and> ws_ok s' = ws_ok s \<and> (quiet s \<longrightarrow> quiet s') \<and> (b \<longleftrightarrow> ms_owner m = Some t)"
  proof (cases "ms_owner m = Some t")
    case False
    then have s': "b = False" "s' = set_werror STATUS_MUTANT_NOT_OWNED s" using r unfolding do_release_eq [OF d] by auto
    have "quiet s'" if "quiet s"
      by (rule quiet_calmer [OF that]) (simp add: s' calmer_def same_clock_def object_sync_signaled_def set_werror_def)
    moreover have "sync_wf s'" by (rule sync_wf_cong [OF wf]) (simp_all add: s' set_werror_def)
    ultimately show ?thesis using False by (simp add: s' set_werror_def)
  next
    case o: True
    then have nz: "ms_count m \<noteq> 0" using mc by simp
    show ?thesis
    proof (cases "ms_count m = count")
      case True
      let ?d = "Mutex_Sync (m\<lparr>ms_count := 0, ms_owner := None\<rparr>)"
      let ?s0 = "upd_thread t (th_mutexes_update (remove1 p)) s"
      let ?s1 = "upd_thread t (th_mutexes_update (remove1 p)) (set_data p ?d s)"
      have s': "b = True" "s' = wake_up p 0 ?s1" using r o nz True unfolding do_release_eq [OF d] by auto
      have w1: "sync_wf ?s1" by (rule sync_wf_disown [OF wf d o])
      have "quiet s'" if q: "quiet s" unfolding s'
      proof (rule wake_up_quiet)
        have sg: "object_sync_signaled q u ?s1 \<longleftrightarrow> (if q = p then data_signaled ?d u else object_sync_signaled q u s)" for q u
          using signaled_set_data [OF d, of q u ?d] by (simp add: object_sync_signaled_def)
        have "fresh p u ?s0 ?s1" for u
          using check_wait_mutexes quietD [OF q, of u] sg by (simp add: fresh_def same_clock_def) (simp add: object_sync_signaled_def)
        then show "wake_inv p ?s0 ?s1" using w1 by (simp add: wake_inv_def)
      qed simp
      then show ?thesis using wake_up_wf [OF w1] o s' by simp
    next
      case False
      let ?d = "Mutex_Sync (m\<lparr>ms_count := ms_count m - count\<rparr>)"
      have s': "b = True" "s' = set_data p ?d s" using r o nz False unfolding do_release_eq [OF d] by auto
      have "unat (ms_count m - count) \<le> unat (ms_count m)" using c by (simp add: unat_sub)
      moreover have "ms_count m - count \<noteq> 0" using False by simp
      ultimately have dw: "data_wf p ?d s" using data_wf_D(1) [OF ow d] o by auto
      have "quiet s'" if "quiet s" unfolding s'
        by (rule quiet_set_data_calmer [OF that d]) (use False in \<open>simp add: data_signaled_def mutex_sync_signaled_def\<close>)
      moreover have "sync_wf s'" unfolding s' by (rule sync_wf_set_data [OF wf d dw]) simp
      ultimately show ?thesis using o s' by simp
    qed
  qed
  then show "sync_wf s'" "ws_ok s' = ws_ok s" "quiet s \<Longrightarrow> quiet s'" "b \<longleftrightarrow> ms_owner m = Some t" by simp_all
qed

end
