(* ===== verification/Sync_Death.thy ===== *)
theory Sync_Death
  imports Sync_Laws
begin

unbundle bit_operations_syntax

text \<open>
  Waking as a sequence of ended waits, and what thread death makes of waits and mutexes: the loop over the
  mutexes of a dying thread ends, every one of them is given up, and its next owner is told.
\<close>

section \<open>Waking as a step relation\<close>

text \<open>One wait of one thread ends and takes what it waited for.\<close>

definition wake1 :: "wstate \<Rightarrow> wstate \<Rightarrow> bool" where
  "wake1 s s' \<longleftrightarrow> (\<exists>t w ws wait st. waits_of t s = w # ws \<and> ws_waits s w = Some wait \<and>
     ws_waits s' = (ws_waits s)(w := None) \<and> (\<forall>u. u \<noteq> t \<longrightarrow> ws_threads s' u = ws_threads s u) \<and>
     (\<forall>q. data_of q s' = (if q \<in> taken wait st then map_option (\<lambda>d. consume d t) (data_of q s) else data_of q s)))"

inductive wakes :: "wstate \<Rightarrow> wstate \<Rightarrow> bool" where
  wakes_refl: "wakes s s"
| wakes_step: "wake1 s s1 \<Longrightarrow> wakes s1 s2 \<Longrightarrow> wakes s s2"

lemma wakes_trans: "wakes s s1 \<Longrightarrow> wakes s1 s2 \<Longrightarrow> wakes s s2"
  by (induction rule: wakes.induct) (auto intro: wakes.intros)

lemma wake_thread_wakes: "sync_wf s \<Longrightarrow> wake_thread t s = (n, s') \<Longrightarrow> wakes s s'"
proof (induction t s arbitrary: n s' rule: wake_thread.induct)
  case (1 t s)
  show ?case
  proof (cases "waits_of t s")
    case Nil
    then show ?thesis using 1(3) by (simp add: wake_thread_Nil wakes_refl)
  next
    case (Cons w ws)
    obtain wait where wt: "ws_waits s w = Some wait" using sync_wf_head [OF 1(2) Cons] .
    obtain r s1 where c: "check_wait t s = (r, s1)" by (metis surj_pair)
    show ?thesis
    proof (cases r)
      case None
      then show ?thesis using 1(3) wake_thread_None [OF Cons] c check_wait_None [OF 1(2) Cons] by (simp add: wakes_refl)
    next
      case (Some st)
      obtain st' s2 where e: "end_wait t st s1 = (st', s2)" by (metis surj_pair)
      define s3 where "s3 = (if wait_cookie w s1 \<noteq> 0 then send_thread_wakeup t (wait_cookie w s1) st' s2 else s2)"
      note S = wake_step [OF 1(2) Cons wt c [unfolded Some] e s3_def]
      obtain m s4 where wk: "wake_thread t s3 = (m, s4)" by (metis surj_pair)
      have r: "s' = s4" using wake_thread_Some [OF Cons c [unfolded Some] e s3_def wk] 1(3) by simp
      have "wakes s3 s4"
        by (rule 1(1) [OF Cons c [symmetric] _ refl e [symmetric] _ s3_def S(1) wk]) (use Some in simp_all)
      moreover have "wake1 s s3" unfolding wake1_def
        using Cons wt S(4,5,9) by (intro exI [of _ t] exI [of _ w] exI [of _ ws] exI [of _ wait] exI [of _ st]) (simp add: calmer_def)
      ultimately show ?thesis using r wakes_step by simp
    qed
  qed
qed

lemma wake_up_wakes: "sync_wf s \<Longrightarrow> wakes s (wake_up p m s)"
proof (induction p m s rule: wake_up.induct)
  case (1 p m s)
  obtain n s' where sc: "wake_scan (queue_of p s) s = (n, s')" by (metis surj_pair)
  note S = wake_scan_spec [OF 1(2) sc]
  show ?case
  proof (cases "n = 0")
    case True
    then show ?thesis using S sc by (simp add: wake_up.simps [of p m s] wakes_refl)
  next
    case False
    then obtain e :: wait_queue_entry where wk: "wake_thread (we_thread e) s = (n, s')" using S by auto
    have w: "wakes s s'" by (rule wake_thread_wakes [OF 1(2) wk])
    show ?thesis
    proof (cases "m = 1")
      case True
      then show ?thesis using wake_up_1 [OF sc False] w by simp
    next
      case m: False
      have "wakes s' (wake_up p (m - 1) s')"
        using 1(1) [OF sc [symmetric] False m] wake_thread_spec [OF 1(2) wk] by blast
      moreover have "wake_up p m s = wake_up p (m - 1) s'" using sc False m by (simp add: wake_up.simps [of p m s])
      ultimately show ?thesis using wakes_trans [OF w] by simp
    qed
  qed
qed

lemma wakes_waits: "wakes s s' \<Longrightarrow> ws_waits s' w = Some wait \<Longrightarrow> ws_waits s w = Some wait"
  by (induction rule: wakes.induct) (auto simp: wake1_def split: if_splits)

text \<open>A thread that waits for nothing is left alone.\<close>

lemma wakes_idle: "wakes s s' \<Longrightarrow> waits_of t s = [] \<Longrightarrow> ws_threads s' t = ws_threads s t"
proof (induction rule: wakes.induct)
  case (wakes_step s s1 s2)
  then have "ws_threads s1 t = ws_threads s t" unfolding wake1_def by (metis list.distinct(1))
  then show ?case using wakes_step by simp
qed simp

lemma wakes_data:
  assumes "wakes s s'" "\<And>d t. P d \<Longrightarrow> P (consume d t)"
  shows "data_of p s = Some d \<Longrightarrow> P d \<Longrightarrow> \<exists>d'. data_of p s' = Some d' \<and> P d'"
  using assms(1)
proof (induction arbitrary: d rule: wakes.induct)
  case (wakes_step s s1 s2)
  have "\<exists>d1. data_of p s1 = Some d1 \<and> P d1"
    using wakes_step(1,4,5) assms(2) unfolding wake1_def by (metis option.map(2))
  then show ?case using wakes_step(3) by blast
qed blast

section \<open>Abandoned mutexes\<close>

text \<open>A mutex without an owner remembers that it was abandoned; with an owner, the owner was told.\<close>

fun orphan :: "sync_data \<Rightarrow> bool" where
  "orphan (Mutex_Sync m) = (ms_owner m = None \<longrightarrow> ms_abandoned m)"
| "orphan _ = False"

lemma orphan_consume: "orphan d \<Longrightarrow> orphan (consume d t)"
  by (cases d) simp_all

lemma owned_mutex:
  assumes "sync_wf s" "p \<in> set (mutexes_of t s)"
  obtains m where "data_of p s = Some (Mutex_Sync m)" "ms_owner m = Some t" "ms_count m \<noteq> 0"
proof -
  have ow: "objs_wf s" using assms(1) by (simp add: sync_wf_def)
  then obtain m where m: "data_of p s = Some (Mutex_Sync m)" using assms(2) unfolding objs_wf_def by metis
  then show thesis using that data_wf_D(1) [OF ow m] assms(2) by auto
qed

lemma owned_iff:
  assumes "sync_wf s"
  shows "q \<in> set (mutexes_of t s) \<longleftrightarrow> (\<exists>m. data_of q s = Some (Mutex_Sync m) \<and> ms_owner m = Some t)"
proof
  assume "q \<in> set (mutexes_of t s)"
  then show "\<exists>m. data_of q s = Some (Mutex_Sync m) \<and> ms_owner m = Some t" using owned_mutex [OF assms] by metis
next
  assume "\<exists>m. data_of q s = Some (Mutex_Sync m) \<and> ms_owner m = Some t"
  then obtain m where m: "data_of q s = Some (Mutex_Sync m)" "ms_owner m = Some t" by blast
  have "objs_wf s" using assms by (simp add: sync_wf_def)
  then show "q \<in> set (mutexes_of t s)" using data_wf_D(1) [OF _ m(1)] m(2) by auto
qed

lemma abandon_mutex_spec:
  assumes wf: "sync_wf s" and idle: "waits_of t s = []" and p: "p \<in> set (mutexes_of t s)"
  shows "sync_wf (abandon_mutex p t s) \<and> ws_ok (abandon_mutex p t s) = ws_ok s \<and>
    ws_threads (abandon_mutex p t s) t = (ws_threads s t)\<lparr>th_mutexes := remove1 p (mutexes_of t s)\<rparr> \<and>
    (\<exists>d. data_of p (abandon_mutex p t s) = Some d \<and> orphan d) \<and>
    (\<forall>q d. q \<noteq> p \<longrightarrow> data_of q s = Some d \<longrightarrow>
      (\<exists>d'. data_of q (abandon_mutex p t s) = Some d' \<and> same_shape d d' \<and> (orphan d \<longrightarrow> orphan d'))) \<and>
    (\<forall>w wait. ws_waits (abandon_mutex p t s) w = Some wait \<longrightarrow> ws_waits s w = Some wait) \<and>
    (quiet s \<longrightarrow> quiet (abandon_mutex p t s))"
proof -
  obtain m where m: "data_of p s = Some (Mutex_Sync m)" "ms_owner m = Some t" "ms_count m \<noteq> 0" using owned_mutex [OF wf p] .
  let ?m = "m\<lparr>ms_abandoned := True\<rparr>"
  let ?m' = "?m\<lparr>ms_count := 0, ms_owner := None\<rparr>"
  define s1 where "s1 = set_data p (Mutex_Sync ?m) s"
  define s2 where "s2 = upd_thread t (th_mutexes_update (remove1 p)) (set_data p (Mutex_Sync ?m') s1)"
  have ow: "objs_wf s" using wf by (simp add: sync_wf_def)
  have w1: "sync_wf s1" unfolding s1_def by (rule sync_wf_set_data [OF wf m(1)]) (use data_wf_D(1) [OF ow m(1)] in simp_all)
  have d1: "data_of p s1 = Some (Mutex_Sync ?m)" using data_exists [OF m(1)] by (simp add: s1_def data_of_set_data)
  have q1: "quiet s1" if "quiet s" unfolding s1_def
    by (rule quiet_set_data_calmer [OF that m(1)]) (simp add: data_signaled_def mutex_sync_signaled_def)
  have rel: "do_release p t (ms_count m) s1 = (True, wake_up p 0 s2)"
    using m unfolding do_release_eq [OF d1] by (simp add: s2_def)
  have e: "abandon_mutex p t s = wake_up p 0 s2"
    using m rel unfolding abandon_mutex_def data_of_def [symmetric] by (simp add: Let_def s1_def [symmetric])
  note R = do_release_wf [OF w1 d1 _ rel]
  have w2: "sync_wf s2" unfolding s2_def by (rule sync_wf_disown [OF w1 d1]) (simp add: m)
  have W: "wakes s2 (wake_up p 0 s2)" by (rule wake_up_wakes [OF w2])
  have t2: "ws_threads s2 t = (ws_threads s t)\<lparr>th_mutexes := remove1 p (mutexes_of t s)\<rparr>" by (simp add: s2_def s1_def)
  have t3: "ws_threads (wake_up p 0 s2) t = ws_threads s2 t" by (rule wakes_idle [OF W]) (simp add: t2 idle)
  have d2: "data_of q s2 = (if q = p then Some (Mutex_Sync ?m') else data_of q s)" for q
    using data_exists [OF m(1)] data_of_set_data [of q p "Mutex_Sync ?m'" s1] data_of_set_data [of q p "Mutex_Sync ?m" s]
    by (simp add: s2_def s1_def data_of_def)
  have o: "\<exists>d'. data_of q (wake_up p 0 s2) = Some d' \<and> same_shape d d' \<and> (orphan d \<longrightarrow> orphan d')"
    if "data_of q s2 = Some d" for q d
    by (rule wakes_data [where P = "\<lambda>d'. same_shape d d' \<and> (orphan d \<longrightarrow> orphan d')", OF W _ that])
      (use same_shape_trans consume_shape orphan_consume in \<open>auto\<close>)
  have op: "\<exists>d. data_of p (wake_up p 0 s2) = Some d \<and> orphan d" using o [of p "Mutex_Sync ?m'"] d2 [of p] by auto
  have oq: "\<forall>q d. q \<noteq> p \<longrightarrow> data_of q s = Some d \<longrightarrow>
      (\<exists>d'. data_of q (wake_up p 0 s2) = Some d' \<and> same_shape d d' \<and> (orphan d \<longrightarrow> orphan d'))"
    using o d2 by simp
  have ww: "\<forall>w wait. ws_waits (wake_up p 0 s2) w = Some wait \<longrightarrow> ws_waits s w = Some wait"
    using wakes_waits [OF W] by (simp add: s2_def s1_def)
  show ?thesis unfolding e
  proof (intro conjI)
    show "sync_wf (wake_up p 0 s2)" "ws_ok (wake_up p 0 s2) = ws_ok s" "quiet s \<longrightarrow> quiet (wake_up p 0 s2)"
      using R q1 by (simp_all add: s1_def)
  qed (use t2 t3 op oq ww in \<open>simp_all\<close>)
qed

lemma abandon_mutexes_spec:
  assumes "sync_wf s" "waits_of t s = []"
  shows "\<exists>s'. abandon_mutexes t s = Some s' \<and> sync_wf s' \<and> ws_ok s' = ws_ok s \<and>
    ws_threads s' t = (ws_threads s t)\<lparr>th_mutexes := []\<rparr> \<and>
    (\<forall>p d. p \<in> set (mutexes_of t s) \<or> (data_of p s = Some d \<and> orphan d) \<longrightarrow> (\<exists>d'. data_of p s' = Some d' \<and> orphan d')) \<and>
    (\<forall>q d. data_of q s = Some d \<and> \<not> is_mutex d \<longrightarrow> (\<exists>d'. data_of q s' = Some d' \<and> same_shape d d')) \<and>
    (\<forall>w wait. ws_waits s' w = Some wait \<longrightarrow> ws_waits s w = Some wait) \<and> (quiet s \<longrightarrow> quiet s')"
  using assms
proof (induction "length (mutexes_of t s)" arbitrary: s)
  case 0
  then have m: "mutexes_of t s = []" by simp
  then have "ws_threads s t = (ws_threads s t)\<lparr>th_mutexes := []\<rparr>" by (metis (full_types) thread.surjective thread.update_convs(9))
  then show ?case using 0 m by (subst abandon_mutexes.simps) auto
next
  case (Suc n)
  obtain p ps where c: "mutexes_of t s = p # ps" using Suc(2) by (cases "mutexes_of t s") auto
  define s1 where "s1 = abandon_mutex p t s"
  have p: "p \<in> set (mutexes_of t s)" using c by simp
  note A = abandon_mutex_spec [OF Suc(3,4) p, folded s1_def]
  have th: "ws_threads s1 t = (ws_threads s t)\<lparr>th_mutexes := ps\<rparr>" using A c by simp
  have "n = length (mutexes_of t s1)" using th c Suc(2) by simp
  moreover have "sync_wf s1" "waits_of t s1 = []" using A th Suc(4) by simp_all
  ultimately obtain s' where s': "abandon_mutexes t s1 = Some s'" "sync_wf s'" "ws_ok s' = ws_ok s1"
    "ws_threads s' t = (ws_threads s1 t)\<lparr>th_mutexes := []\<rparr>"
    "\<forall>p d. p \<in> set (mutexes_of t s1) \<or> (data_of p s1 = Some d \<and> orphan d) \<longrightarrow> (\<exists>d'. data_of p s' = Some d' \<and> orphan d')"
    "\<forall>w wait. ws_waits s' w = Some wait \<longrightarrow> ws_waits s1 w = Some wait" "quiet s1 \<longrightarrow> quiet s'"
    "\<forall>q d. data_of q s1 = Some d \<and> \<not> is_mutex d \<longrightarrow> (\<exists>d'. data_of q s' = Some d' \<and> same_shape d d')"
    using Suc(1) by blast
  have "abandon_mutexes t s = Some s'" using s'(1) c by (subst abandon_mutexes.simps) (simp add: s1_def)
  moreover have "\<exists>d'. data_of q s' = Some d' \<and> orphan d'" if q: "q \<in> set (mutexes_of t s) \<or> (data_of q s = Some d \<and> orphan d)" for q d
  proof (cases "q \<in> set ps")
    case True
    then show ?thesis using s'(5) th by simp
  next
    case False
    have a: "\<exists>d1. data_of p s1 = Some d1 \<and> orphan d1"
      and b: "\<And>q d. q \<noteq> p \<Longrightarrow> data_of q s = Some d \<Longrightarrow> \<exists>d1. data_of q s1 = Some d1 \<and> same_shape d d1 \<and> (orphan d \<longrightarrow> orphan d1)"
      using A by blast+
    have "\<exists>d1. data_of q s1 = Some d1 \<and> orphan d1" using a b [of q d] q c False by (cases "q = p") auto
    then show ?thesis using s'(5) by blast
  qed
  moreover have "\<exists>d'. data_of q s' = Some d' \<and> same_shape d d'" if d: "data_of q s = Some d" "\<not> is_mutex d" for q d
  proof -
    obtain m where "data_of p s = Some (Mutex_Sync m)" using owned_mutex [OF Suc(3) p] .
    then have "q \<noteq> p" using d by auto
    then obtain d1 where d1: "data_of q s1 = Some d1" "same_shape d d1" using A d by blast
    then have "\<not> is_mutex d1" using d(2) by (cases d; cases d1) auto
    then show ?thesis using s'(8) d1 same_shape_trans by blast
  qed
  ultimately show ?case using s'(2-4,6,7) A th by (intro exI [of _ s']) auto
qed

section \<open>The invariant of a run\<close>

text \<open>A wait with an armed timeout has a cookie to answer with.\<close>

definition cookies_ok :: "wstate \<Rightarrow> bool" where
  "cookies_ok s \<longleftrightarrow> (\<forall>w wait. ws_waits s w = Some wait \<longrightarrow> wt_user wait \<longrightarrow> wt_cookie wait \<noteq> 0)"

definition good :: "wstate \<Rightarrow> bool" where
  "good s \<longleftrightarrow> sync_wf s \<and> ws_ok s \<and> cookies_ok s"

lemma cookies_mono: "cookies_ok s \<Longrightarrow> (\<And>w wait. ws_waits s' w = Some wait \<Longrightarrow> ws_waits s w = Some wait) \<Longrightarrow> cookies_ok s'"
  unfolding cookies_ok_def by metis

lemma cookies_wake_up: "cookies_ok s \<Longrightarrow> sync_wf s \<Longrightarrow> cookies_ok (wake_up p m s)"
  using cookies_mono wakes_waits [OF wake_up_wakes] by blast

lemma cookies_cong: "ws_waits s' = ws_waits s \<Longrightarrow> cookies_ok s' = cookies_ok s"
  by (simp add: cookies_ok_def)

section \<open>Waits that end without taking anything\<close>

lemma end_wait_big:
  assumes wf: "sync_wf s" and ch: "waits_of t s = w # ws" and st: "64 \<le> unat st"
  shows "\<exists>st' s'. end_wait t st s = (st', s') \<and> sync_wf s' \<and> ws_ok s' = ws_ok s \<and> same_env s s' \<and>
    ws_waits s' = (ws_waits s)(w := None) \<and> (\<forall>u. u \<noteq> t \<longrightarrow> calmer u s s') \<and> waits_of t s' = ws \<and>
    (\<forall>q. data_of q s' = data_of q s) \<and> (\<exists>ms. ws_threads s' t = (ws_threads s t)\<lparr>th_waits := ws, th_mutexes := ms\<rparr>)"
proof -
  obtain wait where wt: "ws_waits s w = Some wait" "wt_thread wait = t" "length (wt_objs wait) \<le> 64"
    using sync_wf_head [OF wf ch] .
  have tk: "taken wait st = {}" using st wt(3) by (simp add: taken_def)
  then have "takeable (taken wait st) t s" by (simp add: takeable_def)
  then obtain st' s' ms where E: "end_wait t st s = (st', s')" "sync_wf s'" "ws_ok s' = ws_ok s" "same_env s s'"
    "ws_waits s' = (ws_waits s)(w := None)" "\<forall>u. u \<noteq> t \<longrightarrow> ws_threads s' u = ws_threads s u"
    "ws_threads s' t = (ws_threads s t)\<lparr>th_waits := ws, th_mutexes := ms\<rparr>" "\<forall>q. data_of q s' = data_of q s"
    using end_wait_spec [OF wf ch wt(1), of st] unfolding tk by auto
  have "calmer u s s'" if u: "u \<noteq> t" for u
  proof -
    have "w \<notin> set (waits_of u s)" using chains_wfD(1) [of s w u] wf wt u by (auto simp: sync_wf_def)
    then have "\<forall>x \<in> set (waits_of u s). ws_waits s' x = ws_waits s x" using E(5) by auto
    then show ?thesis using E(4,6,8) u by (simp add: calmer_def signaled_iff)
  qed
  then show ?thesis using E by auto
qed

lemma end_waits_spec:
  assumes "sync_wf s" "ws = waits_of t s"
  shows "sync_wf (end_waits ws t s) \<and> ws_ok (end_waits ws t s) = ws_ok s \<and> waits_of t (end_waits ws t s) = [] \<and>
    (\<forall>u. u \<noteq> t \<longrightarrow> calmer u s (end_waits ws t s)) \<and>
    (\<forall>w wait. ws_waits (end_waits ws t s) w = Some wait \<longrightarrow> ws_waits s w = Some wait) \<and>
    (\<forall>q. data_of q (end_waits ws t s) = data_of q s)"
  using assms
proof (induction ws arbitrary: s)
  case (Cons w ws)
  have "64 \<le> unat STATUS_THREAD_IS_TERMINATING" by simp
  then obtain st' s' where E: "end_wait t STATUS_THREAD_IS_TERMINATING s = (st', s')" "sync_wf s'" "ws_ok s' = ws_ok s"
    "ws_waits s' = (ws_waits s)(w := None)" "\<forall>u. u \<noteq> t \<longrightarrow> calmer u s s'" "waits_of t s' = ws" "\<forall>q. data_of q s' = data_of q s"
    using end_wait_big [OF Cons(2) Cons(3) [symmetric]] by blast
  have e: "end_waits (w # ws) t s = end_waits ws t s'" using E(1) by simp
  note I = Cons(1) [OF E(2) E(6) [symmetric]]
  have "calmer u s (end_waits ws t s')" if "u \<noteq> t" for u using calmer_trans E(5) I that by blast
  moreover have "ws_waits s x = Some wait" if "ws_waits (end_waits ws t s') x = Some wait" for x wait
  proof -
    have "ws_waits s' x = Some wait" using I that by blast
    then show ?thesis using E(4) by (auto split: if_splits)
  qed
  ultimately show ?case unfolding e using I E(3,7) by simp
qed simp

text \<open>The thread's own waits are over, its mutexes abandoned, and whoever waited for them or for the thread is awake.\<close>

lemma kill_thread_spec:
  assumes g: "good s" and p: "data_of p s = Some (Event_Sync e)" and l: "\<not> th_terminated (ws_threads s t)"
  shows "\<exists>s'. kill_thread t p code s = Some s' \<and> good s' \<and> waits_of t s' = [] \<and> mutexes_of t s' = [] \<and>
    (\<forall>q \<in> set (mutexes_of t s). \<exists>d. data_of q s' = Some d \<and> orphan d) \<and> (quiet s \<longrightarrow> quiet s')"
proof -
  have wf: "sync_wf s" using g by (simp add: good_def)
  define s1 where "s1 = upd_thread t (th_terminated_update (\<lambda>_. True)) s"
  have w1: "sync_wf s1" by (rule sync_wf_cong [OF wf]) (simp_all add: s1_def)
  define s2 where "s2 = end_waits (waits_of t s1) t s1"
  note E = end_waits_spec [OF w1 refl, of t, folded s2_def]
  define s3 where "s3 = (if waits_of t s1 \<noteq> [] then send_thread_wakeup t 0 code s2 else s1)"
  have n: "s2 = s1" if "waits_of t s1 = []" using that by (simp add: s2_def)
  have o3: "ws_objs s3 = ws_objs s2" "ws_waits s3 = ws_waits s2" "ws_ok s3 = ws_ok s2" "same_env s2 s3"
    "\<And>u. mutexes_of u s3 = mutexes_of u s2" "\<And>u. waits_of u s3 = waits_of u s2" "\<And>u. u \<noteq> t \<Longrightarrow> ws_threads s3 u = ws_threads s2 u"
    using n by (auto simp: s3_def send_wakeup_effect send_wakeup_waits)
  have w3: "sync_wf s3" using sync_wf_cong [of s2 s3] E o3 by (simp add: same_env_def)
  have i3: "waits_of t s3 = []" using E o3 by simp
  have d3: "data_of q s3 = data_of q s" for q
    using E o3(1) data_of_cong [of s3 s2 q] data_of_cong [of s1 s q] by (simp add: s1_def)
  have m3: "q \<in> set (mutexes_of t s3) \<longleftrightarrow> q \<in> set (mutexes_of t s)" for q
    using owned_iff [OF w3] owned_iff [OF wf] d3 by simp
  have c3: "calmer u s s3" if u: "u \<noteq> t" for u
  proof -
    have "calmer u s s1" using u by (simp add: calmer_def same_clock_def s1_def object_sync_signaled_def)
    moreover have "calmer u s2 s3" using o3 u by (simp add: calmer_def object_sync_signaled_def)
    ultimately show ?thesis using E u calmer_trans by blast
  qed
  have q3: "quiet s3" if "quiet s" unfolding quiet_def
  proof
    fix u show "fst (check_wait u s3) = None"
      using calmer_check [OF c3] quietD [OF that] i3 by (cases "u = t") (simp_all add: check_wait_def)
  qed
  obtain s4 where A: "abandon_mutexes t s3 = Some s4" "sync_wf s4" "ws_ok s4 = ws_ok s3"
    "ws_threads s4 t = (ws_threads s3 t)\<lparr>th_mutexes := []\<rparr>"
    "\<forall>p d. p \<in> set (mutexes_of t s3) \<or> (data_of p s3 = Some d \<and> orphan d) \<longrightarrow> (\<exists>d'. data_of p s4 = Some d' \<and> orphan d')"
    "\<forall>q d. data_of q s3 = Some d \<and> \<not> is_mutex d \<longrightarrow> (\<exists>d'. data_of q s4 = Some d' \<and> same_shape d d')"
    "\<forall>w wait. ws_waits s4 w = Some wait \<longrightarrow> ws_waits s3 w = Some wait" "quiet s3 \<longrightarrow> quiet s4"
    using abandon_mutexes_spec [OF w3 i3] by blast
  obtain e4 where p4: "data_of p s4 = Some (Event_Sync e4)"
  proof -
    obtain d' where "data_of p s4 = Some d'" "same_shape (Event_Sync e) d'"
      using A(6) [rule_format, of p "Event_Sync e"] d3 p by auto
    then show ?thesis using that by (cases d') auto
  qed
  let ?s = "signal_sync p s4"
  have W: "wakes (set_data p (Event_Sync (e4\<lparr>es_signaled := True\<rparr>)) s4) ?s"
    unfolding signal_sync_def event_sync_signal_eq [OF p4] using wake_up_wakes [OF sync_wf_set_data [OF A(2) p4]] by simp
  have t': "ws_threads ?s t = ws_threads s4 t" using wakes_idle [OF W, of t] A(4) i3 by simp
  have "\<exists>d. data_of q ?s = Some d \<and> orphan d" if q: "q \<in> set (mutexes_of t s)" for q
  proof -
    obtain d where d: "data_of q s4 = Some d" "orphan d" using A(5) m3 q by blast
    then have "q \<noteq> p" using p4 by auto
    then show ?thesis using wakes_data [where P = orphan, OF W orphan_consume _ d(2)] d(1) by (simp add: data_of_set_data)
  qed
  moreover have "good ?s"
  proof -
    have "ws_waits s w = Some wait" if "ws_waits ?s w = Some wait" for w wait
      using wakes_waits [OF W that] A(7) o3(2) E by (simp add: s1_def)
    then have "cookies_ok ?s" using cookies_mono g by (metis good_def)
    then show ?thesis using event_sync_signal_wf [OF A(2) p4] A(3) o3(3) E g by (simp add: good_def signal_sync_def s1_def)
  qed
  moreover have "quiet ?s" if "quiet s" using event_sync_signal_quiet [OF A(2) _ p4] A(8) q3 that by (simp add: signal_sync_def)
  moreover have "kill_thread t p code s = Some ?s" 
    unfolding kill_thread_def Let_def s1_def [symmetric] s2_def [symmetric] s3_def [symmetric] using l A(1) by simp
  ultimately show ?thesis using t' A(4) i3 by auto
qed

end
