(* ===== verification/Sync_Select.thy ===== *)
theory Sync_Select
  imports Sync_Death
begin

unbundle bit_operations_syntax

text \<open>
  Selecting on handles, timeouts and suspension: each keeps the invariant of a run, and a wait that is left pending
  is one whose condition does not hold.
\<close>

section \<open>Starting a wait\<close>

lemma add_queue_effect:
  "ws_threads (add_queue p e s) = ws_threads s" "ws_waits (add_queue p e s) = ws_waits s" "ws_ok (add_queue p e s) = ws_ok s"
  "same_env s (add_queue p e s)" "data_of q (add_queue p e s) = data_of q s" "ws_objs (add_queue p e s) q = None \<longleftrightarrow> ws_objs s q = None"
  "queue_of q (add_queue p e s) = queue_of q s @ (if q = p \<and> ws_objs s p \<noteq> None then [e] else [])"
  by (auto simp: add_queue_def same_env_def data_of_def queue_of_def option.map_comp comp_def split: option.split)

lemma add_queues_spec:
  assumes "add_queues ps t w i s = (r, s')" "k = length (takeWhile (\<lambda>p. ws_objs s p \<noteq> None) ps)"
  shows "ws_threads s' = ws_threads s \<and> ws_waits s' = ws_waits s \<and> ws_ok s' = ws_ok s \<and> same_env s s' \<and>
    (\<forall>q. data_of q s' = data_of q s) \<and> (\<forall>q. ws_objs s' q = None \<longleftrightarrow> ws_objs s q = None) \<and>
    (\<forall>q e. e \<in> set (queue_of q s') \<longleftrightarrow>
       e \<in> set (queue_of q s) \<or> (\<exists>j < k. ps ! j = q \<and> e = \<lparr>we_thread = t, we_wait = w, we_index = i + j\<rparr>)) \<and>
    r = (if k = length ps then None else Some (i + k)) \<and> (r \<noteq> None \<longrightarrow> ws_error s' = STATUS_OBJECT_TYPE_MISMATCH)"
  using assms
proof (induction ps arbitrary: i s k)
  case (Cons p ps)
  show ?case
  proof (cases "ws_objs s p = None")
    case True
    then have "r = Some i" "s' = set_werror STATUS_OBJECT_TYPE_MISMATCH s" "k = 0" using Cons.prems by auto
    then show ?thesis by (simp add: set_werror_def same_env_def data_of_def queue_of_def)
  next
    case False
    let ?e = "\<lparr>we_thread = t, we_wait = w, we_index = i\<rparr>"
    let ?s = "add_queue p ?e s"
    obtain k' where k': "k' = length (takeWhile (\<lambda>p. ws_objs ?s p \<noteq> None) ps)" by simp
    have k: "k = Suc k'" using False Cons.prems(2) k' add_queue_effect(6) [of p ?e s] by simp
    have "add_queues ps t w (Suc i) ?s = (r, s')" using Cons.prems(1) False by simp
    note I = Cons.IH [OF this k']
    have Q: "e \<in> set (queue_of q s') \<longleftrightarrow>
       e \<in> set (queue_of q s) \<or> (\<exists>j < k. (p # ps) ! j = q \<and> e = \<lparr>we_thread = t, we_wait = w, we_index = i + j\<rparr>)" for q e
    proof -
      have "e \<in> set (queue_of q s') \<longleftrightarrow>
         e \<in> set (queue_of q s) \<or> (q = p \<and> e = ?e) \<or> (\<exists>j < k'. ps ! j = q \<and> e = \<lparr>we_thread = t, we_wait = w, we_index = Suc i + j\<rparr>)"
        using I False by (auto simp: add_queue_effect(7))
      also have "\<dots> \<longleftrightarrow> e \<in> set (queue_of q s) \<or> (\<exists>j < k. (p # ps) ! j = q \<and> e = \<lparr>we_thread = t, we_wait = w, we_index = i + j\<rparr>)"
        unfolding k Ex_less_Suc2 by auto
      finally show ?thesis .
    qed
    have "same_env s s'" using I add_queue_effect(4) same_env_trans by blast
    then show ?thesis using I Q k by (simp add: add_queue_effect)
  qed
qed (simp add: same_env_def)

text \<open>Room for one more wait in the counts of the mutexes.\<close>

definition mutex_room :: "wstate \<Rightarrow> bool" where
  "mutex_room s \<longleftrightarrow> (\<forall>p m. data_of p s = Some (Mutex_Sync m) \<longrightarrow> unat (ms_count m) + live_waits s + 1 < 2 ^ 32)"

definition start_wait :: "nat \<Rightarrow> thread_wait \<Rightarrow> wstate \<Rightarrow> wstate" where
  "start_wait t wait s = upd_thread t (th_waits_update (\<lambda>l. ws_next s # l))
     (s\<lparr>ws_allocs := ws_allocs s + 1, ws_waits := (ws_waits s)(ws_next s \<mapsto> wait), ws_next := ws_next s + 1\<rparr>)"

lemma start_wait_simps [simp]:
  "ws_objs (start_wait t wait s) = ws_objs s" "ws_ok (start_wait t wait s) = ws_ok s" "ws_next (start_wait t wait s) = Suc (ws_next s)"
  "ws_waits (start_wait t wait s) = (ws_waits s)(ws_next s \<mapsto> wait)" "mutexes_of u (start_wait t wait s) = mutexes_of u s"
  "waits_of u (start_wait t wait s) = (if u = t then ws_next s # waits_of u s else waits_of u s)"
  "u \<noteq> t \<Longrightarrow> ws_threads (start_wait t wait s) u = ws_threads s u"
  "ws_now (start_wait t wait s) = ws_now s" "ws_mono (start_wait t wait s) = ws_mono s" "ws_psuspend (start_wait t wait s) = ws_psuspend s"
  by (simp_all add: start_wait_def)

lemma start_wait_chains:
  assumes wf: "chains_wf s" and t: "wt_thread wait = t"
  shows "chains_wf (start_wait t wait s)"
proof -
  have fresh: "ws_next s \<notin> set (waits_of u s)" for u using chains_wfD(1,2) [OF wf] by (metis less_irrefl)
  have f: "{w. w \<noteq> ws_next s \<longrightarrow> ws_waits s w \<noteq> None} \<subseteq> insert (ws_next s) {w. ws_waits s w \<noteq> None}" by auto
  show ?thesis unfolding chains_wf_def
  proof (intro conjI allI ballI impI)
    fix u show "distinct (waits_of u (start_wait t wait s))" using fresh chains_wfD(3) [OF wf] by simp
  next
    fix u w assume "w \<in> set (waits_of u (start_wait t wait s))"
    then show "\<exists>wait'. ws_waits (start_wait t wait s) w = Some wait' \<and> wt_thread wait' = u"
      using chains_wfD(1) [OF wf, of w u] fresh [of u] t by (cases "w = ws_next s") (auto split: if_splits)
  next
    fix w wait' assume "ws_waits (start_wait t wait s) w = Some wait'"
    then show "w \<in> set (waits_of (wt_thread wait') (start_wait t wait s))" "w < ws_next (start_wait t wait s)"
      using chains_wfD(2) [OF wf, of w wait'] t by (auto split: if_splits)
  next
    have "{w. ws_waits (start_wait t wait s) w \<noteq> None} \<subseteq> insert (ws_next s) {w. ws_waits s w \<noteq> None}" by auto
    then show "finite {w. ws_waits (start_wait t wait s) w \<noteq> None}" using chains_wfD(4) [OF wf] by (metis finite_insert finite_subset)
  qed
qed

lemma live_waits_start:
  assumes "chains_wf s"
  shows "live_waits (start_wait t wait s) = live_waits s + 1"
proof -
  have n: "ws_waits s (ws_next s) = None" using chains_wfD(2) [OF assms, of "ws_next s"] by (metis less_irrefl option.exhaust)
  have "{w. ws_waits (start_wait t wait s) w \<noteq> None} = insert (ws_next s) {w. ws_waits s w \<noteq> None}" by auto
  then show ?thesis using n chains_wfD(4) [OF assms] by (simp add: live_waits_def)
qed

lemma objs_wf_start:
  assumes wf: "objs_wf s" and room: "mutex_room s" and ch: "chains_wf s"
  shows "objs_wf (start_wait t wait s)"
proof -
  let ?s = "start_wait t wait s"
  have D: "data_of q ?s = data_of q s" for q by (simp add: data_of_def)
  have lw: "live_waits ?s = live_waits s + 1" by (rule live_waits_start [OF ch])
  have "data_wf q d ?s" if d: "data_of q s = Some d" for q d
  proof (cases d)
    case (Mutex_Sync m)
    have "unat (ms_count m) + live_waits s + 1 < 2 ^ 32" using room d Mutex_Sync unfolding mutex_room_def by blast
    then show ?thesis using data_wf_D(1) [OF wf d] Mutex_Sync lw by simp
  qed (use data_wf_D(1) [OF wf d] in simp_all)
  then show ?thesis using wf unfolding objs_wf_def D by (simp add: less_Suc_eq)
qed

text \<open>
  The state after the wait has been entered in the queues of its first \<open>k\<close> objects, with the list of objects cut
  to these.
\<close>

lemma started_wf:
  assumes wf: "sync_wf s" and room: "mutex_room s" and wait: "wt_thread wait = t" "length (wt_objs wait) \<le> MAXIMUM_WAIT_OBJECTS"
      "wt_select wait = SELECT_WAIT_ALL \<longrightarrow> distinct (wt_objs wait)"
    and a: "add_queues (wt_objs wait) t (ws_next s) 0 (start_wait t wait s) = (r, s3)"
    and k: "k = length (takeWhile (\<lambda>p. ws_objs s p \<noteq> None) (wt_objs wait))"
  defines "s4 \<equiv> upd_wait (ws_next s) (wt_objs_update (take k)) s3"
  shows "sync_wf s4" "ws_ok s4 = ws_ok s" "\<And>q. data_of q s4 = data_of q s" "\<And>u. u \<noteq> t \<Longrightarrow> calmer u s s4"
    "waits_of t s4 = ws_next s # waits_of t s" "ws_waits s4 = (ws_waits s)(ws_next s \<mapsto> wt_objs_update (take k) wait)"
    "r = (if k = length (wt_objs wait) then None else Some k)" "r \<noteq> None \<longrightarrow> ws_error s4 = STATUS_OBJECT_TYPE_MISMATCH"
    "r = None \<Longrightarrow> s4 = s3" "same_clock s s4" "ws_threads s4 t = (ws_threads s t)\<lparr>th_waits := ws_next s # waits_of t s\<rparr>"
proof -
  let ?w = "ws_next s"
  let ?s = "start_wait t wait s"
  let ?wait = "wt_objs_update (take k) wait"
  have k': "k = length (takeWhile (\<lambda>p. ws_objs ?s p \<noteq> None) (wt_objs wait))" using k by simp
  note A = add_queues_spec [OF a k']
  have chw: "chains_wf s" and qw: "queues_wf s" and ow: "objs_wf s" using wf by (simp_all add: sync_wf_def)
  have n: "ws_waits s ?w = None" using chains_wfD(2) [OF chw, of ?w] by (metis less_irrefl option.exhaust)
  have W: "ws_waits s4 = (ws_waits s)(?w \<mapsto> ?wait)" using A by (simp add: s4_def)
  have T: "ws_threads s4 = ws_threads ?s" using A by (simp add: s4_def)
  have N: "ws_next s4 = ws_next ?s" using A by (simp add: s4_def same_env_def)
  have D: "data_of q s4 = data_of q s" for q using A by (simp add: s4_def data_of_def)
  have O: "ws_objs s4 q \<noteq> None \<longleftrightarrow> ws_objs s q \<noteq> None" for q using A by (simp add: s4_def)
  have "chains_wf s4"
  proof -
    have "chains_wf (start_wait t ?wait s)" by (rule start_wait_chains [OF chw]) (simp add: wait)
    then show ?thesis unfolding chains_wf_def W T N by (simp add: start_wait_def)
  qed
  moreover have "objs_wf s4"
  proof (rule objs_wf_cong [OF objs_wf_start [OF ow room chw, of t wait]])
    show "data_of q s4 = data_of q ?s" for q using D by (simp add: data_of_def)
    have "{w. ws_waits s4 w \<noteq> None} = {w. ws_waits ?s w \<noteq> None}" unfolding W by auto
    then show "live_waits s4 \<le> live_waits ?s" by (simp add: live_waits_def)
  qed (use T N in simp_all)
  moreover have "queues_wf s4"
  proof -
    have Q: "e \<in> set (queue_of q s4) \<longleftrightarrow>
       e \<in> set (queue_of q s) \<or> (\<exists>j < k. wt_objs wait ! j = q \<and> e = \<lparr>we_thread = t, we_wait = ?w, we_index = j\<rparr>)" for q e
      using A queue_of_cong [of ?s s q] by (simp add: s4_def)
    have kl: "k \<le> length (wt_objs wait)" unfolding k by (rule length_takeWhile_le)
    have new: "entry_of e q s4 \<longleftrightarrow> (\<exists>j < k. wt_objs wait ! j = q \<and> e = \<lparr>we_thread = t, we_wait = ?w, we_index = j\<rparr>)"
      if "we_wait e = ?w" for q e
      using that kl wait(1) by (cases e) (auto simp: entry_of_def W)
    have old: "entry_of e q s4 \<longleftrightarrow> entry_of e q s" if "we_wait e \<noteq> ?w" for q e using that by (simp add: entry_of_def W)
    have no: "\<not> entry_of e q s" if "we_wait e = ?w" for q e using that n by (simp add: entry_of_def)
    have "e \<in> set (queue_of q s4) \<longleftrightarrow> entry_of e q s4" for q e
    proof (cases "we_wait e = ?w")
      case True
      have "e \<notin> set (queue_of q s)" using qw no [OF True] by (simp add: queues_wf_def)
      then show ?thesis using Q new [OF True] by simp
    next
      case False
      then have "e \<in> set (queue_of q s4) \<longleftrightarrow> e \<in> set (queue_of q s)" using Q by auto
      also have "\<dots> \<longleftrightarrow> entry_of e q s" using qw by (simp add: queues_wf_def)
      finally show ?thesis using old [OF False] by simp
    qed
    moreover have "ws_objs s p \<noteq> None" if "p \<in> set (take k (wt_objs wait))" for p
      using that takeWhile_eq_take [of "\<lambda>p. ws_objs s p \<noteq> None" "wt_objs wait"] unfolding k by (metis set_takeWhileD)
    ultimately show ?thesis using qw wait(2,3) O unfolding queues_wf_def W by (auto simp: min.coboundedI2)
  qed
  ultimately show "sync_wf s4" by (simp add: sync_wf_def)
  show "ws_ok s4 = ws_ok s" "\<And>q. data_of q s4 = data_of q s" using A D by (simp_all add: s4_def)
  show cl: "same_clock s s4" using A by (simp add: s4_def same_clock_def same_env_def)
  show "ws_threads s4 t = (ws_threads s t)\<lparr>th_waits := ?w # waits_of t s\<rparr>" using T by (simp add: start_wait_def)
  show "calmer u s s4" if u: "u \<noteq> t" for u
  proof -
    have "?w \<notin> set (waits_of u s)" using chains_wfD(1,2) [OF chw] by (metis less_irrefl)
    then have "\<forall>x \<in> set (waits_of u s). ws_waits s4 x = ws_waits s x" using W by auto
    then show ?thesis using T u D cl by (simp add: calmer_def signaled_iff)
  qed
  show "waits_of t s4 = ?w # waits_of t s" "ws_waits s4 = (ws_waits s)(?w \<mapsto> ?wait)" using T W by simp_all
  show "r = (if k = length (wt_objs wait) then None else Some k)" "r \<noteq> None \<longrightarrow> ws_error s4 = STATUS_OBJECT_TYPE_MISMATCH"
    using A by (simp_all add: s4_def)
  show "s4 = s3" if "r = None"
  proof -
    have "take k (wt_objs wait) = wt_objs wait" using A that by (auto split: if_splits)
    then have "?wait = wait" by simp
    moreover have "ws_waits s3 ?w = Some wait" using A by simp
    ultimately show ?thesis unfolding s4_def upd_wait_def by (simp add: fun_upd_idem)
  qed
qed

text \<open>
  \<open>wait_on\<close> either starts the wait or fails and leaves no trace of it; in both cases nobody else is affected.
\<close>

definition others_calmer :: "nat \<Rightarrow> wstate \<Rightarrow> wstate \<Rightarrow> bool" where
  "others_calmer t s s' \<longleftrightarrow> (\<forall>u. u \<noteq> t \<longrightarrow> calmer u s s')"

lemma others_calmer_trans: "others_calmer t s s1 \<Longrightarrow> others_calmer t s1 s2 \<Longrightarrow> others_calmer t s s2"
  unfolding others_calmer_def using calmer_trans by blast

lemma quiet_others:
  assumes "quiet s" "others_calmer t s s'" "fst (check_wait t s') = None"
  shows "quiet s'"
  unfolding quiet_def
proof
  fix u show "fst (check_wait u s') = None"
    using assms calmer_check quietD unfolding others_calmer_def by (cases "u = t") blast+
qed

lemma wait_on_eq:
  assumes "wc_ok cx (ws_allocs s)"
  shows "wait_on cx t op objs flags when s =
    (let w = ws_next s;
         wait = \<lparr>wt_thread = t, wt_flags = flags, wt_abandoned = False, wt_select = op, wt_cookie = 0, wt_when = when,
                 wt_user = False, wt_objs = objs\<rparr>
     in case add_queues objs t w 0 (start_wait t wait s) of
          (Some i, s3) \<Rightarrow> (False, snd (end_wait t (ws_error s3) (upd_wait w (wt_objs_update (take i)) s3)))
        | (None, s3) \<Rightarrow> (waits_of t s3 \<noteq> [], s3))"
  using assms by (simp add: wait_on_def start_wait_def Let_def)

lemma wait_on_spec:
  assumes g: "good s" and room: "mutex_room s" and len: "length objs \<le> MAXIMUM_WAIT_OBJECTS"
    and dist: "op = SELECT_WAIT_ALL \<longrightarrow> distinct objs" and r: "wait_on cx t op objs flags when s = (b, s')"
  shows "good s' \<and> others_calmer t s s' \<and> (\<forall>q. data_of q s' = data_of q s) \<and>
    (if b then \<exists>w wait. waits_of t s' = w # waits_of t s \<and> ws_waits s' w = Some wait \<and> wt_objs wait = objs \<and> wt_select wait = op \<and>
       \<not> wt_user wait
     else waits_of t s' = waits_of t s \<and> (quiet s \<longrightarrow> quiet s'))"
proof (cases "wc_ok cx (ws_allocs s)")
  case False
  then have s': "b = False" "s' = set_werror STATUS_NO_MEMORY (s\<lparr>ws_allocs := ws_allocs s + 1\<rparr>)"
    using r by (auto simp: wait_on_def Let_def)
  have c: "calmer u s s'" for u unfolding s' by (simp add: calmer_def same_clock_def object_sync_signaled_def set_werror_def)
  have "sync_wf s'" by (rule sync_wf_cong [of s]) (use g in \<open>simp_all add: s' set_werror_def good_def\<close>)
  moreover have "cookies_ok s'" using g cookies_cong [of s' s] by (simp add: s' set_werror_def good_def)
  moreover have "data_of q s' = data_of q s" for q by (simp add: s' set_werror_def data_of_def)
  ultimately show ?thesis using c quiet_calmer [of s s'] g s' unfolding others_calmer_def good_def by (simp add: set_werror_def)
next
  case True
  have wf: "sync_wf s" and ck: "cookies_ok s" using g by (simp_all add: good_def)
  define wait where "wait = \<lparr>wt_thread = t, wt_flags = flags, wt_abandoned = False, wt_select = op, wt_cookie = 0, wt_when = when,
                 wt_user = False, wt_objs = objs\<rparr>"
  define k where "k = length (takeWhile (\<lambda>p. ws_objs s p \<noteq> None) (wt_objs wait))"
  obtain x s3 where a: "add_queues (wt_objs wait) t (ws_next s) 0 (start_wait t wait s) = (x, s3)" by (metis surj_pair)
  define s4 where "s4 = upd_wait (ws_next s) (wt_objs_update (take k)) s3"
  have "wt_thread wait = t" "length (wt_objs wait) \<le> MAXIMUM_WAIT_OBJECTS" "wt_select wait = SELECT_WAIT_ALL \<longrightarrow> distinct (wt_objs wait)"
    using len dist by (simp_all add: wait_def)
  note S = started_wf [OF wf room this a k_def, folded s4_def]
  have c4: "cookies_ok s4" using ck S(6) by (simp add: cookies_ok_def wait_def)
  have g4: "good s4" using S(1,2) c4 g by (simp add: good_def)
  have oc: "others_calmer t s s4" using S(4) by (simp add: others_calmer_def)
  show ?thesis
  proof (cases x)
    case None
    then have e: "b = True" "s' = s4"
      using r S(5,9) a by (auto simp: wait_on_eq [OF True] Let_def wait_def)
    have "take k (wt_objs wait) = objs" using S(7) None by (auto simp: wait_def split: if_splits)
    then show ?thesis using e g4 S(3,5,6) oc by (simp add: wait_def)
  next
    case (Some i)
    then have i: "i = k" using S(7) by (simp split: if_splits)
    have err: "ws_error s4 = STATUS_OBJECT_TYPE_MISMATCH" using S(8) Some by simp
    have e: "b = False" "s' = snd (end_wait t STATUS_OBJECT_TYPE_MISMATCH s4)"
      using r err a Some i by (auto simp: wait_on_eq [OF True] Let_def wait_def s4_def)
    have "64 \<le> unat STATUS_OBJECT_TYPE_MISMATCH" by simp
    then obtain st s5 where E: "end_wait t STATUS_OBJECT_TYPE_MISMATCH s4 = (st, s5)" "sync_wf s5" "ws_ok s5 = ws_ok s4"
      "ws_waits s5 = (ws_waits s4)(ws_next s := None)" "\<forall>u. u \<noteq> t \<longrightarrow> calmer u s4 s5" "waits_of t s5 = waits_of t s"
      "\<forall>q. data_of q s5 = data_of q s4" "same_env s4 s5" "\<exists>ms. ws_threads s5 t = (ws_threads s4 t)\<lparr>th_waits := waits_of t s, th_mutexes := ms\<rparr>"
      using end_wait_big [OF S(1) S(5)] by blast
    have D: "data_of q s5 = data_of q s" for q using E(7) S(3) by simp
    have oc': "others_calmer t s s'" using E e oc by (simp add: others_calmer_def) (metis calmer_trans)
    have n: "ws_waits s (ws_next s) = None" 
      using chains_wfD(2) [of s "ws_next s"] wf unfolding sync_wf_def by (metis less_irrefl option.exhaust)
    have "ws_waits s5 = ws_waits s" using E(4) S(6) n by auto
    then have "cookies_ok s5" using ck cookies_cong [of s5 s] by simp
    then have g5: "good s5" using E(2,3) S(2) g by (simp add: good_def)
    have "quiet s5" if q: "quiet s"
    proof (rule quiet_others [OF q oc' [unfolded e E(1) snd_conv]])
      have c: "same_clock s s5" using E(8) S(10) same_clock_trans same_env_clock by blast
      obtain ms where "ws_threads s5 t = (ws_threads s t)\<lparr>th_mutexes := ms\<rparr>" using E(9) S(11) by auto
      then have "fst (check_wait t s5) = fst (check_wait t s)"
        by (rule check_wait_same) (use c D \<open>ws_waits s5 = ws_waits s\<close> in \<open>simp_all add: signaled_iff\<close>)
      then show "fst (check_wait t s5) = None" using quietD [OF q] by simp
    qed
    then show ?thesis using e E g5 oc' S(3) by simp
  qed
qed

section \<open>Finishing a select\<close>

lemma cookies_shrink: "cookies_ok s \<Longrightarrow> ws_waits s' = (ws_waits s)(w := None) \<Longrightarrow> cookies_ok s'"
  by (simp add: cookies_ok_def)

lemma sync_wf_upd_wait:
  assumes wf: "sync_wf s" and f: "\<And>x. wt_thread (f x) = wt_thread x \<and> wt_objs (f x) = wt_objs x \<and> wt_select (f x) = wt_select x"
  shows "sync_wf (upd_wait w f s)"
proof -
  let ?s = "upd_wait w f s"
  have W: "ws_waits ?s v = map_option (\<lambda>x. if v = w then f x else x) (ws_waits s v)" for v by (cases "ws_waits s v") auto
  have dom: "ws_waits ?s v \<noteq> None \<longleftrightarrow> ws_waits s v \<noteq> None" for v by simp
  have "chains_wf ?s"
  proof -
    have "\<exists>x. ws_waits ?s v = Some x \<and> wt_thread x = u" if "v \<in> set (waits_of u s)" for u v
      using chains_wfD(1) [of s v u] wf that f by (auto simp: sync_wf_def W)
    moreover have "v \<in> set (waits_of (wt_thread x) s) \<and> v < ws_next s" if x: "ws_waits ?s v = Some x" for v x
    proof -
      obtain y where "ws_waits s v = Some y" "wt_thread x = wt_thread y" using x f unfolding W by (auto split: if_splits)
      then show ?thesis using chains_wfD(2) [of s v y] wf by (simp add: sync_wf_def)
    qed
    ultimately show ?thesis using wf unfolding sync_wf_def chains_wf_def dom by simp
  qed
  moreover have "queues_wf ?s"
  proof -
    have "entry_of e p ?s = entry_of e p s" for e p
      unfolding entry_of_def W using f by (cases "ws_waits s (we_wait e)") auto
    moreover have "length (wt_objs x) \<le> MAXIMUM_WAIT_OBJECTS \<and> (\<forall>p \<in> set (wt_objs x). ws_objs s p \<noteq> None) \<and>
        (wt_select x = SELECT_WAIT_ALL \<longrightarrow> distinct (wt_objs x))" if x: "ws_waits ?s v = Some x" for v x
    proof -
      obtain y where "ws_waits s v = Some y" "wt_objs x = wt_objs y" "wt_select x = wt_select y"
        using x f unfolding W by (auto split: if_splits)
      then show ?thesis using wf unfolding sync_wf_def queues_wf_def by metis
    qed
    ultimately show ?thesis using wf unfolding sync_wf_def queues_wf_def by simp
  qed
  moreover have "objs_wf ?s"
  proof (rule objs_wf_cong [of s])
    have "{v. ws_waits ?s v \<noteq> None} = {v. ws_waits s v \<noteq> None}" using dom by blast
    then show "live_waits ?s \<le> live_waits s" by (simp add: live_waits_def)
  qed (use wf in \<open>simp_all add: sync_wf_def data_of_def\<close>)
  ultimately show ?thesis by (simp add: sync_wf_def)
qed

lemma check_wait_armed:
  assumes "waits_of t s = w # ws" "ws_waits s w = Some wait" "fst (check_wait t s) = None"
    "ws_threads s' = ws_threads s" "ws_objs s' = ws_objs s" "same_clock s s'"
    "ws_waits s' w = Some (wait\<lparr>wt_user := a, wt_cookie := c\<rparr>)"
  shows "fst (check_wait t s') = None"
proof -
  have sg: "object_sync_signaled q t s' = object_sync_signaled q t s" for q using assms(5) by (simp add: object_sync_signaled_def)
  have fs: "first_signaled ps i t s' = first_signaled ps i t s" for ps i by (induction ps arbitrary: i) (simp_all add: sg)
  have ws: "wait_signaled (wait\<lparr>wt_user := a, wt_cookie := c\<rparr>) t s' = wait_signaled wait t s" by (simp add: wait_signaled_def fs sg)
  have su: "is_thread_suspended t s' = is_thread_suspended t s"
    using assms(4,6) by (simp add: is_thread_suspended_def same_clock_def Let_def)
  have ex: "wait_expired (wait\<lparr>wt_user := a, wt_cookie := c\<rparr>) s' = wait_expired wait s"
    using assms(6) by (simp add: wait_expired_def same_clock_def)
  show ?thesis using assms(1,2,3,4,7) ws su ex by (auto simp: check_wait_def Let_def split: if_splits option.splits)
qed

lemma good_cong:
  assumes "good s" "ws_objs s' = ws_objs s" "ws_waits s' = ws_waits s" "ws_next s' = ws_next s" "ws_threads s' = ws_threads s"
    "ws_ok s' = ws_ok s"
  shows "good s'"
  using assms sync_wf_cong [of s s'] cookies_cong [of s' s] by (simp add: good_def)

lemma select_finish_spec:
  assumes g: "good s" and ch: "waits_of t s = w # ws" and ck: "cookie \<noteq> 0" and r: "select_finish cx t cookie s = (b, s')"
  shows "good s' \<and> others_calmer t s s' \<and>
    (if b then waits_of t s' = ws
     else waits_of t s' = w # ws \<and> wait_cookie w s' = cookie \<and> ws_error s' = STATUS_PENDING \<and> fst (check_wait t s') = None)"
proof -
  have wf: "sync_wf s" and ok: "ws_ok s" and cks: "cookies_ok s" using g by (simp_all add: good_def)
  obtain wait where wt: "ws_waits s w = Some wait" using sync_wf_head [OF wf ch] .
  obtain x s1 where c: "check_wait t s = (x, s1)" by (metis surj_pair)
  show ?thesis
  proof (cases x)
    case (Some st)
    obtain st' s2 where e: "end_wait t st s1 = (st', s2)" by (metis surj_pair)
    have s': "b = True" "s' = set_werror st' s2" using r c Some e by (simp_all add: select_finish_def)
    have "s2 = (if False then send_thread_wakeup t 0 st' s2 else s2)" by simp
    note S = wake_step [OF wf ch wt c [unfolded Some] e this]
    have "good s2" using S(1,2) ok cookies_shrink [OF cks S(9)] by (simp add: good_def)
    then have "good s'" unfolding s' by (rule good_cong) (simp_all add: set_werror_def)
    moreover have "calmer u s s'" if "u \<noteq> t" for u
      using S(4) [OF that] by (simp add: calmer_def s' set_werror_def same_clock_def object_sync_signaled_def)
    ultimately show ?thesis using s' S(3) by (simp add: others_calmer_def set_werror_def)
  next
    case None
    have s1: "s1 = s" using check_wait_None [OF wf ch] c None by simp
    have n: "fst (check_wait t s) = None" using c None by simp
    let ?a = "wt_when wait \<noteq> TIMEOUT_INFINITE"
    show ?thesis
    proof (cases "?a \<and> \<not> wc_ok cx (ws_allocs s)")
      case True
      let ?s = "set_werror STATUS_NO_MEMORY (s\<lparr>ws_allocs := ws_allocs s + 1\<rparr>)"
      have s': "b = True" "s' = snd (end_wait t STATUS_NO_MEMORY ?s)"
        using r c None s1 ch wt True by (auto simp: select_finish_def)
      have w1: "sync_wf ?s" by (rule sync_wf_cong [OF wf]) (simp_all add: set_werror_def)
      have c1: "waits_of t ?s = w # ws" using ch by (simp add: set_werror_def)
      have "64 \<le> unat STATUS_NO_MEMORY" by simp
      then obtain st s2 where E: "end_wait t STATUS_NO_MEMORY ?s = (st, s2)" "sync_wf s2" "ws_ok s2 = ws_ok ?s"
        "ws_waits s2 = (ws_waits ?s)(w := None)" "\<forall>u. u \<noteq> t \<longrightarrow> calmer u ?s s2" "waits_of t s2 = ws"
        using end_wait_big [OF w1 c1] by blast
      have "ws_waits s2 = (ws_waits s)(w := None)" using E(4) by (simp add: set_werror_def)
      then have "good s2" using E(2,3) ok cookies_shrink [OF cks] by (simp add: good_def set_werror_def)
      moreover have "calmer u s ?s" for u by (simp add: calmer_def set_werror_def same_clock_def object_sync_signaled_def)
      ultimately show ?thesis using s' E(1,5,6) calmer_trans by (simp add: others_calmer_def) (metis calmer_trans)
    next
      case False
      define s2 where "s2 = (if ?a then upd_wait w (wt_user_update (\<lambda>_. True)) (s\<lparr>ws_allocs := ws_allocs s + 1\<rparr>) else s)"
      have s': "b = False" "s' = set_werror STATUS_PENDING (upd_wait w (wt_cookie_update (\<lambda>_. cookie)) s2)"
        using r c None s1 ch wt False by (auto simp: select_finish_def s2_def)
      have O: "ws_threads s' = ws_threads s" "ws_objs s' = ws_objs s" "ws_ok s' = ws_ok s" "same_clock s s'" "ws_next s' = ws_next s"
        by (simp_all add: s' s2_def set_werror_def same_clock_def)
      have "\<exists>a. ws_waits s' = (ws_waits s)(w \<mapsto> wait\<lparr>wt_user := a, wt_cookie := cookie\<rparr>)"
        using wt by (intro exI [of _ "?a \<or> wt_user wait"]) (auto simp: s' s2_def set_werror_def)
      then obtain a where W: "ws_waits s' = (ws_waits s)(w \<mapsto> wait\<lparr>wt_user := a, wt_cookie := cookie\<rparr>)" by blast
      have "sync_wf s'"
      proof (rule sync_wf_cong)
        show "sync_wf (upd_wait w (\<lambda>x. x\<lparr>wt_user := a, wt_cookie := cookie\<rparr>) s)" by (rule sync_wf_upd_wait [OF wf]) simp
      qed (use O W wt in simp_all)
      moreover have "cookies_ok s'" using cks ck W by (simp add: cookies_ok_def)
      moreover have "calmer u s s'" if "u \<noteq> t" for u
      proof -
        have "w \<notin> set (waits_of u s)" using chains_wfD(1) [of s w] wf ch that unfolding sync_wf_def by (metis list.set_intros(1) option.inject)
        then have "\<forall>x \<in> set (waits_of u s). ws_waits s' x = ws_waits s x" using W by auto
        then show ?thesis using O by (simp add: calmer_def object_sync_signaled_def)
      qed
      moreover have "fst (check_wait t s') = None" by (rule check_wait_armed [OF ch wt n O(1,2,4)]) (simp add: W)
      ultimately show ?thesis using O(1,3) ok s' W ch by (simp add: good_def others_calmer_def wait_cookie_def set_werror_def)
    qed
  qed
qed

section \<open>Signaling an object by handle\<close>

lemma event_signal_good:
  assumes "good s" "data_of p s = Some (Event_Sync e)"
  shows "good (event_sync_signal p b s)"
proof -
  have wf: "sync_wf s" using assms(1) by (simp add: good_def)
  let ?s = "set_data p (Event_Sync (e\<lparr>es_signaled := b\<rparr>)) s"
  have w: "sync_wf ?s" by (rule sync_wf_set_data [OF wf assms(2)]) simp_all
  have "cookies_ok ?s" using assms(1) cookies_cong [of ?s s] by (simp add: good_def)
  then have "cookies_ok (event_sync_signal p b s)" unfolding event_sync_signal_eq [OF assms(2)] using cookies_wake_up [OF _ w] by (cases b) simp_all
  then show ?thesis using event_sync_signal_wf [OF wf assms(2)] assms(1) by (simp add: good_def)
qed

lemma release_semaphore_good:
  assumes "good s" "data_of p s = Some (Semaphore_Sync sem)" "release_semaphore p count s = (b, prev, s')"
  shows "good s'"
proof -
  have wf: "sync_wf s" and ck: "cookies_ok s" using assms(1) by (simp_all add: good_def)
  let ?s = "set_data p (Semaphore_Sync (sem\<lparr>sem_count := sem_count sem + count\<rparr>)) s"
  have c1: "cookies_ok ?s" using ck cookies_cong [of ?s s] by simp
  have "cookies_ok s'"
  proof (cases "unat (sem_count sem) + unat count > unat (sem_max sem)")
    case True
    then have "ws_waits s' = ws_waits s" using assms(3) unfolding release_semaphore_eq [OF assms(2)] by (auto simp: set_werror_def)
    then show ?thesis using ck cookies_cong [of s' s] by simp
  next
    case False
    have u: "unat (sem_count sem + count) = unat (sem_count sem) + unat count"
      using False unat_less_2p [of "sem_max sem"] by (subst unat_plus_simple [symmetric]) (simp add: no_olen_add_nat)
    have "sync_wf ?s" by (rule sync_wf_set_data [OF wf assms(2)]) (use False u in \<open>simp_all add: word_le_nat_alt\<close>)
    then show ?thesis using assms(3) c1 False cookies_wake_up [OF c1] unfolding release_semaphore_eq [OF assms(2)]
      by (auto simp: Let_def split: if_splits)
  qed
  then show ?thesis using release_semaphore_wf [OF wf assms(2,3)] assms(1) by (simp add: good_def)
qed

lemma do_release_good:
  assumes "good s" "data_of p s = Some (Mutex_Sync m)" "do_release p t count s = (b, s')" "count \<le> ms_count m"
  shows "good s'"
proof -
  have wf: "sync_wf s" and ck: "cookies_ok s" using assms(1) by (simp_all add: good_def)
  let ?s = "upd_thread t (th_mutexes_update (remove1 p)) (set_data p (Mutex_Sync (m\<lparr>ms_count := 0, ms_owner := None\<rparr>)) s)"
  have c1: "cookies_ok ?s" using ck cookies_cong [of ?s s] by simp
  have "cookies_ok s'"
  proof (cases "ms_owner m = Some t \<and> ms_count m = count")
    case True
    then have "sync_wf ?s" by (intro sync_wf_disown [OF wf assms(2)]) simp
    then show ?thesis using assms(3) cookies_wake_up [OF c1] True unfolding do_release_eq [OF assms(2)]
      by (auto simp: cookies_ok_def set_werror_def split: if_splits) (use ck in \<open>auto simp: cookies_ok_def\<close>)
  next
    case False
    then have "ws_waits s' = ws_waits s"
      using assms(3) unfolding do_release_eq [OF assms(2)] by (auto simp: set_werror_def split: if_splits)
    then show ?thesis using ck cookies_cong [of s' s] by simp
  qed
  then show ?thesis using do_release_wf [OF wf assms(2,4,3)] assms(1) by (simp add: good_def)
qed

end
