(* ===== verification/Sync_Runs.thy ===== *)
theory Sync_Runs
  imports Sync_Select
begin

unbundle bit_operations_syntax

text \<open>
  Runs of the server as far as synchronization goes: every request, timeout, suspension and thread death is a step; the
  invariant holds in every state that is reached, and a step that is not the passing of time leaves no thread behind whose
  wait could end.
\<close>

section \<open>The select request\<close>

lemma do_release1_good:
  assumes g: "good s" and d: "data_of p s = Some (Mutex_Sync m)" and r: "do_release p t 1 s = (b, s')"
  shows "good s'" "quiet s \<Longrightarrow> quiet s'"
proof -
  have wf: "sync_wf s" using g by (simp add: good_def)
  have "good s' \<and> (quiet s \<longrightarrow> quiet s')"
  proof (cases "ms_count m = 0")
    case True
    then have s': "s' = set_werror STATUS_MUTANT_NOT_OWNED s" using r unfolding do_release_eq [OF d] by simp
    have "good s'" unfolding s' by (rule good_cong [OF g]) (simp_all add: set_werror_def)
    moreover have "quiet s'" if "quiet s"
      by (rule quiet_calmer [OF that]) (simp add: s' calmer_def same_clock_def object_sync_signaled_def set_werror_def)
    ultimately show ?thesis by blast
  next
    case False
    then have c: "1 \<le> ms_count m" by (simp add: word_le_nat_alt Suc_le_eq unat_gt_0)
    show ?thesis using do_release_good [OF g d r c] do_release_wf(3) [OF wf d c r] by simp
  qed
  then show "good s'" "quiet s \<Longrightarrow> quiet s'" by simp_all
qed

lemma set_werror_good: "good s \<Longrightarrow> good (set_werror e s)"
  by (rule good_cong) (simp_all add: set_werror_def)

lemma set_werror_quiet: "quiet s \<Longrightarrow> quiet (set_werror e s)"
  by (erule quiet_calmer) (simp add: calmer_def same_clock_def object_sync_signaled_def set_werror_def)

lemma signal_object_good:
  assumes g: "good s" and r: "signal_object cx t h s = (b, s')"
  shows "good s'"
proof (cases "wc_signal_obj cx h")
  case (Inl e)
  then show ?thesis using r set_werror_good [OF g] by (auto simp: signal_object_def)
next
  case (Inr pa)
  obtain p a where pa: "pa = (p, a)" by (cases pa)
  show ?thesis
  proof (cases "data_of p s")
    case None
    then show ?thesis using r Inr pa set_werror_good [OF g] unfolding signal_object_def data_of_def [symmetric] by auto
  next
    case (Some d)
    show ?thesis
    proof (cases d)
      case (Event_Sync e)
      then show ?thesis using r Inr pa Some set_werror_good [OF g] event_signal_good [OF g, of p e]
        unfolding signal_object_def data_of_def [symmetric] event_signal_def by (auto split: if_splits)
    next
      case (Mutex_Sync m)
      then show ?thesis using r Inr pa Some set_werror_good [OF g] do_release1_good(1) [OF g, of p m t]
        unfolding signal_object_def data_of_def [symmetric] mutex_signal_def by (auto split: if_splits)
    next
      case (Semaphore_Sync sem)
      then show ?thesis using r Inr pa Some set_werror_good [OF g] release_semaphore_good [OF g, of p sem]
        unfolding signal_object_def data_of_def [symmetric] semaphore_signal_def by (auto split: if_splits prod.splits)
    qed
  qed
qed

text \<open>A handle lookup fails with an error code, not with an index of an object.\<close>

definition lookup_errors :: "wcontext \<Rightarrow> bool" where
  "lookup_errors cx \<longleftrightarrow> (\<forall>h e. wc_signal_obj cx h = Inl e \<longrightarrow> MAXIMUM_WAIT_OBJECTS \<le> unat e)"

lemma signal_object_False:
  assumes cx: "lookup_errors cx" and r: "signal_object cx t h s = (False, s')" and ok: "ws_ok s'"
  shows "\<exists>e. s' = set_werror e s \<and> 64 \<le> unat e"
proof (cases "wc_signal_obj cx h")
  case (Inl e)
  then show ?thesis using r cx by (auto simp: signal_object_def lookup_errors_def MAXIMUM_WAIT_OBJECTS_def)
next
  case (Inr pa)
  then show ?thesis using r ok
    by (auto simp: signal_object_def event_signal_def mutex_signal_def semaphore_signal_def do_release_def release_semaphore_def Let_def
        split: prod.splits option.splits sync_data.splits if_splits)
qed

lemma get_wait_objs_length: "get_wait_objs cx hs = Inr ps \<Longrightarrow> length ps = length hs"
  by (induction hs arbitrary: ps) (auto split: sum.splits)

lemma check_wait_idle: "waits_of t s = [] \<Longrightarrow> fst (check_wait t s) = None"
  by (simp add: check_wait_def)

text \<open>Starting a wait and checking it at once.\<close>

definition wait_then :: "wcontext \<Rightarrow> nat \<Rightarrow> u64 \<Rightarrow> bool \<times> wstate \<Rightarrow> bool \<times> wstate" where
  "wait_then cx t cookie r = (case r of (False, s1) \<Rightarrow> (True, s1) | (True, s1) \<Rightarrow> select_finish cx t cookie s1)"

lemma wait_then_spec:
  assumes g: "good s" and room: "mutex_room s" and len: "length objs \<le> MAXIMUM_WAIT_OBJECTS"
    and dist: "op = SELECT_WAIT_ALL \<longrightarrow> distinct objs" and ck: "cookie \<noteq> 0"
    and r: "wait_then cx t cookie (wait_on cx t op objs flags when s) = (b, s')"
  shows "good s'" "waits_of t s = [] \<Longrightarrow> quiet s \<Longrightarrow> quiet s'"
proof -
  obtain x s1 where w: "wait_on cx t op objs flags when s = (x, s1)" by (metis surj_pair)
  note W = wait_on_spec [OF g room len dist w]
  have "good s' \<and> (waits_of t s = [] \<longrightarrow> quiet s \<longrightarrow> quiet s')"
  proof (cases x)
    case False
    then show ?thesis using W r w by (simp add: wait_then_def)
  next
    case True
    then obtain w' where ch: "waits_of t s1 = w' # waits_of t s" using W by auto
    have f: "select_finish cx t cookie s1 = (b, s')" using r w True by (simp add: wait_then_def)
    have g1: "good s1" and oc: "others_calmer t s s1" using W by simp_all
    note F = select_finish_spec [OF g1 ch ck f]
    have oc': "others_calmer t s s'" using F oc others_calmer_trans by blast
    have "fst (check_wait t s') = None" if "waits_of t s = []"
      using F that check_wait_idle [of s' t] by (cases b) simp_all
    then show ?thesis using F quiet_others [OF _ oc'] by blast
  qed
  then show "good s'" "waits_of t s = [] \<Longrightarrow> quiet s \<Longrightarrow> quiet s'" by simp_all
qed

text \<open>The objects of a select that waits for all of them are different.\<close>

definition select_distinct :: "wcontext \<Rightarrow> select_opcode option \<Rightarrow> u32 list \<Rightarrow> bool" where
  "select_distinct cx op ws \<longleftrightarrow>
     (op = Some SELECT_WAIT_ALL \<longrightarrow> (\<forall>n. case get_wait_objs cx (take n ws) of Inl _ \<Rightarrow> True | Inr objs \<Rightarrow> distinct objs))"

lemma wait_handles_spec:
  assumes g: "good s" and room: "mutex_room s" and len: "length hs \<le> MAXIMUM_WAIT_OBJECTS"
    and dist: "op = SELECT_WAIT_ALL \<longrightarrow> (case get_wait_objs cx hs of Inl _ \<Rightarrow> True | Inr objs \<Rightarrow> distinct objs)" and ck: "cookie \<noteq> 0"
    and r: "wait_then cx t cookie (wait_on_handles cx t op hs flags when s) = (b, s')"
  shows "good s'" "waits_of t s = [] \<Longrightarrow> quiet s \<Longrightarrow> quiet s'"
proof -
  have "good s' \<and> (waits_of t s = [] \<longrightarrow> quiet s \<longrightarrow> quiet s')"
  proof (cases "get_wait_objs cx hs")
    case (Inl e)
    then have "s' = set_werror e s" using r len by (simp add: wait_on_handles_def wait_then_def)
    then show ?thesis using set_werror_good [OF g] set_werror_quiet by simp
  next
    case (Inr objs)
    have l: "length objs \<le> MAXIMUM_WAIT_OBJECTS" using get_wait_objs_length [OF Inr] len by simp
    have d: "op = SELECT_WAIT_ALL \<longrightarrow> distinct objs" using dist Inr by simp
    have "wait_then cx t cookie (wait_on cx t op objs flags when s) = (b, s')" using r len Inr by (simp add: wait_on_handles_def)
    then show ?thesis using wait_then_spec [OF g room l d ck] by blast
  qed
  then show "good s'" "waits_of t s = [] \<Longrightarrow> quiet s \<Longrightarrow> quiet s'" by simp_all
qed

lemma select_on_wait:
  assumes "op \<in> {SELECT_WAIT, SELECT_WAIT_ALL}"
  shows "select_on cx t (Some op) op_size ws cookie flags when s =
    (if op_size < 4 \<or> (op_size - 4) div 4 > of_nat MAXIMUM_WAIT_OBJECTS then Some (True, set_werror STATUS_INVALID_PARAMETER s)
     else Some (wait_then cx t cookie (wait_on_handles cx t op (take (unat ((op_size - 4) div 4)) ws) flags when s)))"
  using assms by (auto simp: select_on_def wait_then_def Let_def)

lemma select_wait_good:
  assumes g: "good s" and room: "mutex_room s" and ck: "cookie \<noteq> 0" and op: "op \<in> {SELECT_WAIT, SELECT_WAIT_ALL}"
    and dist: "select_distinct cx (Some op) ws" and r: "select_on cx t (Some op) op_size ws cookie flags when s = Some (b, s')"
  shows "good s' \<and> (waits_of t s = [] \<longrightarrow> quiet s \<longrightarrow> quiet s')"
proof (cases "op_size < 4 \<or> (op_size - 4) div 4 > of_nat MAXIMUM_WAIT_OBJECTS")
  case True
  then have "s' = set_werror STATUS_INVALID_PARAMETER s" using r unfolding select_on_wait [OF op] by simp
  then show ?thesis using set_werror_good [OF g] set_werror_quiet by simp
next
  case False
  let ?hs = "take (unat ((op_size - 4) div 4)) ws"
  have r': "wait_then cx t cookie (wait_on_handles cx t op ?hs flags when s) = (b, s')"
    using r False unfolding select_on_wait [OF op] by simp
  have "unat ((op_size - 4) div 4) \<le> unat (64 :: u32)"
    using False by (simp only: MAXIMUM_WAIT_OBJECTS_def word_less_nat_alt not_less de_Morgan_disj) simp
  then have len: "length ?hs \<le> MAXIMUM_WAIT_OBJECTS" by (simp add: MAXIMUM_WAIT_OBJECTS_def)
  have d: "op = SELECT_WAIT_ALL \<longrightarrow> (case get_wait_objs cx ?hs of Inl _ \<Rightarrow> True | Inr objs \<Rightarrow> distinct objs)"
    using dist by (simp add: select_distinct_def)
  show ?thesis using wait_handles_spec [OF g room len d ck r'] by blast
qed

lemma end_wait_good:
  assumes g: "good s" and w: "waits_of t s \<noteq> []" and st: "64 \<le> unat st"
  shows "good (snd (end_wait t st s))"
proof -
  have wf: "sync_wf s" using g by (simp add: good_def)
  obtain v vs where ch: "waits_of t s = v # vs" using w by (cases "waits_of t s") auto
  obtain st' s' where E: "end_wait t st s = (st', s')" "sync_wf s'" "ws_ok s' = ws_ok s" "ws_waits s' = (ws_waits s)(v := None)"
    using end_wait_big [OF wf ch st] by blast
  then show ?thesis using g cookies_shrink [of s s' v] by (simp add: good_def)
qed

lemma select_on_good:
  assumes g: "good s" and cx: "lookup_errors cx" and room: "mutex_room s" and ck: "cookie \<noteq> 0" and dist: "select_distinct cx op ws"
    and r: "select_on cx t op op_size ws cookie flags when s = Some (b, s')"
  shows "good s' \<and> (waits_of t s = [] \<and> op \<noteq> Some SELECT_SIGNAL_AND_WAIT \<longrightarrow> quiet s \<longrightarrow> quiet s')"
proof (cases op)
  case None
  then have "s' = set_werror STATUS_INVALID_PARAMETER s" using r by (simp add: select_on_def)
  then show ?thesis using set_werror_good [OF g] set_werror_quiet by simp
next
  case (Some o')
  show ?thesis
  proof (cases o')
    case SELECT_NONE
    have l: "length [] \<le> MAXIMUM_WAIT_OBJECTS" by simp
    have d: "SELECT_NONE = SELECT_WAIT_ALL \<longrightarrow> distinct []" by simp
    have "wait_then cx t cookie (wait_on cx t SELECT_NONE [] flags when s) = (b, s')"
      using r Some SELECT_NONE by (simp add: select_on_def wait_then_def)
    then show ?thesis using wait_then_spec [OF g room l d ck] by blast
  next
    case SELECT_SIGNAL_AND_WAIT
    obtain x s1 where w: "wait_on_handles cx t SELECT_SIGNAL_AND_WAIT [ws ! 0] flags when s = (x, s1)" by (metis surj_pair)
    have g1: "good s1" "x \<Longrightarrow> waits_of t s1 \<noteq> []"
    proof -
      have "good s1 \<and> (x \<longrightarrow> waits_of t s1 \<noteq> [])"
      proof (cases "get_wait_objs cx [ws ! 0]")
        case (Inl e)
        then show ?thesis using w set_werror_good [OF g] by (auto simp: wait_on_handles_def MAXIMUM_WAIT_OBJECTS_def split: sum.splits)
      next
        case (Inr objs)
        have l: "length objs \<le> MAXIMUM_WAIT_OBJECTS" using get_wait_objs_length [OF Inr] by (simp add: MAXIMUM_WAIT_OBJECTS_def)
        have d: "SELECT_SIGNAL_AND_WAIT = SELECT_WAIT_ALL \<longrightarrow> distinct objs" by simp
        have "wait_on cx t SELECT_SIGNAL_AND_WAIT objs flags when s = (x, s1)"
          using w Inr unfolding wait_on_handles_def by (simp add: MAXIMUM_WAIT_OBJECTS_def)
        from wait_on_spec [OF g room l d this] show ?thesis by auto
      qed
      then show "good s1" "x \<Longrightarrow> waits_of t s1 \<noteq> []" by simp_all
    qed
    have fin: "good s''" if "good s2" "waits_of t s2 \<noteq> []" "select_finish cx t cookie s2 = (b, s'')" for s2 s''
      using select_finish_spec [OF that(1) _ ck that(3)] that(2) by (cases "waits_of t s2") auto
    have e: "good (snd (end_wait t st s2))" if "good s2" "waits_of t s2 \<noteq> []" "64 \<le> unat st" for s2 st
      using end_wait_good that by blast
    show ?thesis
    proof (cases x)
      case False
      then show ?thesis using r w g1 Some SELECT_SIGNAL_AND_WAIT by (simp add: select_on_def)
    next
      case x: True
      show ?thesis
      proof (cases "ws ! 1 = 0")
        case True
        then have "select_finish cx t cookie s1 = (b, s')" using r w x Some SELECT_SIGNAL_AND_WAIT by (simp add: select_on_def)
        then show ?thesis using fin g1 x Some SELECT_SIGNAL_AND_WAIT by simp
      next
        case h: False
        obtain y s2 where sg: "signal_object cx t (ws ! 1) s1 = (y, s2)" by (metis surj_pair)
        have g2: "good s2" by (rule signal_object_good [OF g1(1) sg])
        show ?thesis
        proof (cases y)
          case True
          then show ?thesis using r w x h sg g2 fin [OF g2] Some SELECT_SIGNAL_AND_WAIT by (auto simp: select_on_def split: if_splits)
        next
          case False
          then have sgF: "signal_object cx t (ws ! 1) s1 = (False, s2)" using sg by simp
          have "ws_ok s2" using g2 by (simp add: good_def)
          from signal_object_False [OF cx sgF this] obtain e' where s2: "s2 = set_werror e' s1" "64 \<le> unat e'" by blast
          have "s' = snd (end_wait t e' s2)"
            using r w x h sg False Some SELECT_SIGNAL_AND_WAIT s2 by (simp add: select_on_def set_werror_def)
          moreover have "waits_of t s2 \<noteq> []" using g1(2) [OF x] s2 by (simp add: set_werror_def)
          ultimately show ?thesis using e [OF g2] s2(2) Some SELECT_SIGNAL_AND_WAIT by simp
        qed
      qed
    qed
  qed (use r Some select_wait_good [OF g room ck _ dist [unfolded Some]] in \<open>auto simp: select_on_def\<close>)
qed

section \<open>Timeouts and suspension\<close>

lemma upd_thread_good:
  assumes "good s" "\<And>th. th_waits (f th) = th_waits th \<and> th_mutexes (f th) = th_mutexes th"
  shows "good (upd_thread t f s)"
proof -
  have "sync_wf (upd_thread t f s)" using assms sync_wf_cong [of s "upd_thread t f s"] by (simp add: good_def)
  then show ?thesis using assms(1) cookies_cong [of "upd_thread t f s" s] by (simp add: good_def)
qed

lemma send_wakeup_good: "good s \<Longrightarrow> good (send_thread_wakeup t c st s)"
  using sync_wf_cong [of s "send_thread_wakeup t c st s"] cookies_cong [of "send_thread_wakeup t c st s" s]
    send_wakeup_effect [where s = s and t = t and c = c and st = st] send_wakeup_waits [where s = s and t = t and c = c and st = st]
  by (simp add: good_def same_env_def)

lemma wake_thread_good:
  assumes "good s"
  shows "good (snd (wake_thread t s))"
proof -
  obtain n s' where w: "wake_thread t s = (n, s')" by (metis surj_pair)
  have wf: "sync_wf s" using assms by (simp add: good_def)
  have "cookies_ok s'" using assms cookies_mono [of s s'] wakes_waits [OF wake_thread_wakes [OF wf w]] by (simp add: good_def)
  then show ?thesis using wake_thread_spec [OF wf w] assms w by (simp add: good_def)
qed

text \<open>The timeout of a wait that is armed ends the wait, if it is the current one of a thread that runs.\<close>

lemma thread_timeout_good:
  assumes g: "good s" and w: "ws_waits s w = Some wait" "wt_user wait"
  shows "good (thread_timeout w s)"
proof -
  have wf: "sync_wf s" and ck: "wt_cookie wait \<noteq> 0" using g w by (auto simp: good_def cookies_ok_def)
  let ?t = "wt_thread wait"
  define s1 where "s1 = upd_wait w (wt_user_update (\<lambda>_. False)) s"
  have "sync_wf s1" unfolding s1_def by (rule sync_wf_upd_wait [OF wf]) simp
  moreover have "cookies_ok s1" using g w by (auto simp: s1_def cookies_ok_def good_def)
  ultimately have g1: "good s1" using g by (simp add: good_def s1_def)
  show ?thesis
  proof (cases "(case waits_of ?t s1 of [] \<Rightarrow> True | w' # _ \<Rightarrow> w' \<noteq> w) \<or> is_thread_suspended ?t s1")
    case True
    then show ?thesis using g1 w by (auto simp: thread_timeout_def Let_def s1_def [symmetric])
  next
    case False
    then have n: "waits_of ?t s1 \<noteq> []" by (auto split: list.splits)
    have "64 \<le> unat STATUS_TIMEOUT" by simp
    then have "good (snd (end_wait ?t STATUS_TIMEOUT s1))" using end_wait_good [OF g1 n] by blast
    then have "good (snd (wake_thread ?t (send_thread_wakeup ?t (wt_cookie wait) STATUS_TIMEOUT (snd (end_wait ?t STATUS_TIMEOUT s1)))))"
      using send_wakeup_good wake_thread_good by blast
    then show ?thesis using False w ck by (simp add: thread_timeout_def Let_def s1_def [symmetric])
  qed
qed

lemma alloc_good: "good s \<Longrightarrow> good (s\<lparr>ws_allocs := n\<rparr>)"
  by (erule good_cong) simp_all

lemma suspend_thread_good:
  assumes "good s"
  shows "good (snd (suspend_thread ok t s))"
proof -
  have "good (stop_thread ok t s)"
    using assms alloc_good [OF assms] set_werror_good upd_thread_good unfolding stop_thread_def Let_def by simp
  then show ?thesis using assms set_werror_good upd_thread_good unfolding suspend_thread_def Let_def by simp
qed

lemma resume_thread_good: "good s \<Longrightarrow> good (snd (resume_thread t s))"
  using wake_thread_good upd_thread_good [of s] unfolding resume_thread_def Let_def by simp

lemma resume_thread_quiet:
  assumes g: "good s" and q: "quiet s"
  shows "quiet (snd (resume_thread t s))"
proof (cases "th_suspend (ws_threads s t) > 0")
  case False
  then show ?thesis using q by (simp add: resume_thread_def)
next
  case True
  define s1 where "s1 = upd_thread t (th_suspend_update (\<lambda>n. n - 1)) s"
  have c1: "calmer u s s1" if "u \<noteq> t" for u using that by (simp add: calmer_def same_clock_def object_sync_signaled_def s1_def)
  show ?thesis
  proof (cases "is_thread_suspended t s1")
    case su: True
    have "is_thread_suspended t s"
      using su True by (auto simp: is_thread_suspended_def s1_def Let_def split: if_splits option.splits)
    then have "fst (check_wait t s1) = None"
      using quietD [OF q, of t] su by (auto simp: check_wait_def Let_def s1_def split: list.splits option.splits if_splits)
    then have "quiet s1" using quiet_others [OF q, of t s1] c1 by (simp add: others_calmer_def)
    then show ?thesis using True su by (simp add: resume_thread_def Let_def s1_def)
  next
    case False
    obtain n s2 where w: "wake_thread t s1 = (n, s2)" by (metis surj_pair)
    have wf1: "sync_wf s1" using upd_thread_good [OF g, of "th_suspend_update (\<lambda>n. n - 1)" t] by (simp add: s1_def good_def)
    note W = wake_thread_spec [OF wf1 w]
    have "others_calmer t s s2" unfolding others_calmer_def using W c1 calmer_trans by blast
    then have "quiet s2" using quiet_others [OF q] W by blast
    then show ?thesis using True False w by (simp add: resume_thread_def Let_def s1_def)
  qed
qed

section \<open>New objects\<close>

lemma new_sync_good:
  assumes g: "good s" and l: "live_waits s < 2 ^ 32" and sem: "\<And>x. d = Semaphore_Sync x \<Longrightarrow> sem_count x \<le> sem_max x"
    and mx: "\<And>m. d = Mutex_Sync m \<Longrightarrow> ms_owner m = None \<and> ms_count m = 0"
    and r: "new_sync d s = (p, s')"
  shows "good s'" "quiet s \<Longrightarrow> quiet s'" "data_of p s' = Some d"
proof -
  have wf: "sync_wf s" using g by (simp add: good_def)
  have ow: "objs_wf s" and qw: "queues_wf s" using wf by (simp_all add: sync_wf_def)
  have p: "p = ws_next s" and s': "s' = s\<lparr>ws_objs := (ws_objs s)(p \<mapsto> \<lparr>so_data = d, so_queue = []\<rparr>), ws_next := ws_next s + 1\<rparr>"
    using r by (auto simp: new_sync_def)
  have n: "ws_objs s p = None"
  proof (rule ccontr)
    assume "ws_objs s p \<noteq> None"
    then obtain e where "data_of p s = Some e" by (auto simp: data_of_def)
    then show False using data_wf_D(2) [OF ow] p by blast
  qed
  have D: "data_of q s' = (if q = p then Some d else data_of q s)" for q by (simp add: s' data_of_def)
  have T: "ws_threads s' = ws_threads s" "ws_waits s' = ws_waits s" "ws_ok s' = ws_ok s" "ws_next s' = Suc (ws_next s)" by (simp_all add: s')
  have lw: "live_waits s' = live_waits s" by (simp add: live_waits_def T)
  have np: "p \<notin> set (mutexes_of u s)" for u using owned_iff [OF wf, of p u] n by (simp add: data_of_def)
  have Q: "queue_of q s' = queue_of q s" for q using n by (simp add: s' queue_of_def)
  have "objs_wf s'" unfolding objs_wf_def
  proof (intro conjI allI impI ballI)
    fix q e assume e: "data_of q s' = Some e"
    show "q < ws_next s'" using e D data_wf_D(2) [OF ow, of q] p T by (auto simp: less_Suc_eq split: if_splits)
    show "data_wf q e s'"
    proof (cases "q = p")
      case True
      then have "e = d" using e D by simp
      then show ?thesis using True mx sem l np T lw by (cases d) auto
    next
      case False
      then have "data_wf q e s" using data_wf_D(1) [OF ow, of q e] e D by simp
      then show ?thesis using data_wf_cong [of s' s q e] T lw by simp
    qed
  next
    fix u show "distinct (mutexes_of u s')" using ow T by (simp add: objs_wf_def)
  next
    fix u q assume "q \<in> set (mutexes_of u s')"
    then show "\<exists>m. data_of q s' = Some (Mutex_Sync m)" using owned_iff [OF wf, of q u] np T D by auto
  qed
  moreover have "chains_wf s'" using wf unfolding sync_wf_def chains_wf_def T by (simp add: less_Suc_eq)
  moreover have "queues_wf s'"
  proof -
    have o: "ws_objs s q \<noteq> None \<Longrightarrow> ws_objs s' q \<noteq> None" for q by (simp add: s')
    show ?thesis using qw o unfolding queues_wf_def entry_of_def Q T by blast
  qed
  ultimately have w': "sync_wf s'" by (simp add: sync_wf_def)
  then show "good s'" using g cookies_cong [of s' s] T by (simp add: good_def)
  show "data_of p s' = Some d" using D by simp
  show "quiet s'" if q: "quiet s" unfolding quiet_def
  proof
    fix u
    have sg: "object_sync_signaled x u s' = object_sync_signaled x u s" if "x \<noteq> p" for x using that D by (simp add: signaled_iff)
    show "fst (check_wait u s') = None"
    proof (cases "waits_of u s")
      case Nil
      then show ?thesis using check_wait_idle [of s' u] T by simp
    next
      case (Cons w ws)
      obtain wait where wt: "ws_waits s w = Some wait" "\<forall>x \<in> set (wt_objs wait). ws_objs s x \<noteq> None" using sync_wf_head [OF wf Cons] .
      have pn: "x \<noteq> p" if "x \<in> set (wt_objs wait)" for x using wt(2) n that by auto
      have "wait_signaled wait u s' = None" if "wait_signaled wait u s = None"
        using that sg pn unfolding wait_signaled_None by (auto split: if_splits)
      moreover have "wait_expired wait s' = wait_expired wait s" by (simp add: wait_expired_def s')
      moreover have "is_thread_suspended u s' = is_thread_suspended u s" by (simp add: is_thread_suspended_def Let_def s')
      ultimately show ?thesis using quietD [OF q, of u] Cons wt(1) T
        by (auto simp: check_wait_def Let_def split: if_splits option.splits)
    qed
  qed
qed

lemma sync_wf_own:
  fixes t :: nat
  assumes wf: "sync_wf s" and d: "data_of p s = Some (Mutex_Sync m)" and o: "ms_owner m = None" and l: "live_waits s + 1 < 2 ^ 32"
  defines "s' \<equiv> upd_thread t (th_mutexes_update (\<lambda>l. p # l)) (set_data p (Mutex_Sync (m\<lparr>ms_count := 1, ms_owner := Some t\<rparr>)) s)"
  shows "sync_wf s'"
proof -
  let ?d = "Mutex_Sync (m\<lparr>ms_count := 1, ms_owner := Some t\<rparr>)"
  have ow: "objs_wf s" using wf by (simp add: sync_wf_def)
  have D: "data_of q s' = (if q = p then Some ?d else data_of q s)" for q
    using data_exists [OF d] data_of_set_data [of q p ?d s] by (simp add: s'_def data_of_def)
  have M: "mutexes_of u s' = (if u = t then p # mutexes_of t s else mutexes_of u s)" for u by (simp add: s'_def)
  have np: "p \<notin> set (mutexes_of u s)" for u using owned_iff [OF wf, of p u] d o by simp
  have W: "ws_waits s' = ws_waits s" "ws_next s' = ws_next s" "waits_of u s' = waits_of u s" for u by (simp_all add: s'_def)
  have Q: "queue_of q s' = queue_of q s" for q by (simp add: s'_def)
  have N: "ws_objs s' q \<noteq> None \<longleftrightarrow> ws_objs s q \<noteq> None" for q unfolding s'_def upd_thread_simps set_data_None ..
  have lw: "live_waits s' = live_waits s" by (simp add: live_waits_def W)
  have "objs_wf s'" unfolding objs_wf_def
  proof (intro conjI allI impI ballI)
    fix q e assume e: "data_of q s' = Some e"
    show "q < ws_next s'" using e D d data_wf_D(2) [OF ow, of q] W by (auto split: if_splits)
    show "data_wf q e s'"
    proof (cases "q = p")
      case True
      then show ?thesis using e D M np lw l by auto
    next
      case False
      then have "data_wf q e s" using data_wf_D(1) [OF ow, of q e] e D by simp
      then show ?thesis using False M lw by (cases e) auto
    qed
  next
    fix u show "distinct (mutexes_of u s')" using ow M np by (simp add: objs_wf_def)
  next
    fix u q assume "q \<in> set (mutexes_of u s')"
    then show "\<exists>m. data_of q s' = Some (Mutex_Sync m)" using owned_iff [OF wf, of q u] D M by (auto split: if_splits)
  qed
  moreover have "chains_wf s'" using wf by (simp add: sync_wf_def chains_wf_def W)
  moreover have "queues_wf s'" using wf unfolding sync_wf_def queues_wf_def entry_of_def W Q N by simp
  ultimately show ?thesis by (simp add: sync_wf_def)
qed

lemma grab_new:
  assumes g: "good s" and d: "data_of p s = Some (Mutex_Sync m)" and o: "ms_owner m = None" "ms_count m = 0" and l: "live_waits s + 1 < 2 ^ 32"
  shows "good (do_grab p m t s)" "quiet s \<Longrightarrow> quiet (do_grab p m t s)"
proof -
  let ?d = "Mutex_Sync (m\<lparr>ms_count := 1, ms_owner := Some t\<rparr>)"
  have wf: "sync_wf s" using g by (simp add: good_def)
  have e: "do_grab p m t s = upd_thread t (th_mutexes_update (\<lambda>l. p # l)) (set_data p ?d s)" using o by (simp add: do_grab_def Let_def)
  have "sync_wf (do_grab p m t s)" unfolding e by (rule sync_wf_own [OF wf d o(1) l])
  moreover have "cookies_ok (do_grab p m t s)" using g cookies_cong [of "do_grab p m t s" s] by (simp add: e good_def)
  ultimately show "good (do_grab p m t s)" using g by (simp add: good_def e)
  assume q: "quiet s"
  have "quiet (set_data p ?d s)"
    by (rule quiet_set_data_calmer [OF q d]) (simp add: data_signaled_def mutex_sync_signaled_def o)
  then show "quiet (do_grab p m t s)" unfolding e quiet_def check_wait_mutexes .
qed

text \<open>What a new object may start with.\<close>

definition new_data_ok :: "sync_data \<Rightarrow> bool" where
  "new_data_ok d = (case d of Event_Sync _ \<Rightarrow> True | Mutex_Sync m \<Rightarrow> ms_owner m = None \<and> ms_count m = 0
     | Semaphore_Sync x \<Rightarrow> sem_count x \<le> sem_max x)"

lemma alloc_sync_good:
  assumes g: "good s" and l: "live_waits s < 2 ^ 32" and d: "new_data_ok d" and r: "alloc_sync ok d s = (x, s')"
  shows "good s'" "quiet s \<Longrightarrow> quiet s'" "x = Some p \<Longrightarrow> data_of p s' = Some d" "live_waits s' = live_waits s"
proof -
  let ?s = "s\<lparr>ws_allocs := ws_allocs s + 1\<rparr>"
  have g0: "good ?s" by (rule alloc_good [OF g])
  have q0: "quiet ?s" if "quiet s"
    by (rule quiet_calmer [OF that]) (simp add: calmer_def same_clock_def object_sync_signaled_def)
  have l0: "live_waits ?s = live_waits s" by (simp add: live_waits_def)
  have "good s' \<and> (quiet s \<longrightarrow> quiet s') \<and> (x = Some p \<longrightarrow> data_of p s' = Some d) \<and> live_waits s' = live_waits s"
  proof (cases "ok (ws_allocs s)")
    case False
    then have e: "x = None" "s' = set_werror STATUS_NO_MEMORY ?s" using r by (simp_all add: alloc_sync_def Let_def)
    then show ?thesis using set_werror_good [OF g0] set_werror_quiet q0 by (simp add: live_waits_def set_werror_def)
  next
    case True
    obtain y s1 where n: "new_sync d ?s = (y, s1)" by (metis surj_pair)
    have e: "x = Some y" "s' = s1" using r True n by (simp_all add: alloc_sync_def Let_def)
    have dd: "\<And>z. d = Semaphore_Sync z \<Longrightarrow> sem_count z \<le> sem_max z" "\<And>m. d = Mutex_Sync m \<Longrightarrow> ms_owner m = None \<and> ms_count m = 0"
      using d by (simp_all add: new_data_ok_def)
    note N = new_sync_good [OF g0 _ dd n]
    have "live_waits s1 = live_waits s" using n by (auto simp: new_sync_def live_waits_def)
    then show ?thesis using N e l l0 q0 by auto
  qed
  then show "good s'" "quiet s \<Longrightarrow> quiet s'" "x = Some p \<Longrightarrow> data_of p s' = Some d" "live_waits s' = live_waits s" by simp_all
qed

lemma create_mutex_sync_good:
  assumes g: "good s" and l: "live_waits s + 1 < 2 ^ 32" and r: "create_mutex_sync ok t owned s = (x, s')"
  shows "good s' \<and> (quiet s \<longrightarrow> quiet s')"
proof -
  let ?m = "\<lparr>ms_owner = None, ms_count = 0, ms_abandoned = False\<rparr>"
  obtain y s1 where a: "alloc_sync ok (Mutex_Sync ?m) s = (y, s1)" by (metis surj_pair)
  have l': "live_waits s < 2 ^ 32" using l by simp
  note A = alloc_sync_good [OF g l' _ a]
  show ?thesis
  proof (cases y)
    case None
    then show ?thesis using A r a by (simp add: create_mutex_sync_def Let_def new_data_ok_def)
  next
    case (Some p)
    have d: "data_of p s1 = Some (Mutex_Sync ?m)" using A(3) [of p] Some by (simp add: new_data_ok_def)
    have l1: "live_waits s1 + 1 < 2 ^ 32" using A(4) l by (simp add: new_data_ok_def)
    have g1: "good s1" using A(1) by (simp add: new_data_ok_def)
    have q1: "quiet s \<Longrightarrow> quiet s1" using A(2) by (simp add: new_data_ok_def)
    have s': "s' = (if owned then do_grab p ?m t s1 else s1)" using r a Some by (simp add: create_mutex_sync_def Let_def)
    then show ?thesis using g1 q1 grab_new [OF g1 d _ _ l1, of t] by (cases owned) simp_all
  qed
qed

section \<open>Steps\<close>

lemma event_sync_signal_event:
  assumes "sync_wf s" "data_of p s = Some (Event_Sync e)"
  shows "\<exists>e'. data_of p (event_sync_signal p b s) = Some (Event_Sync e')"
proof -
  let ?s = "set_data p (Event_Sync (e\<lparr>es_signaled := b\<rparr>)) s"
  have w: "sync_wf ?s" by (rule sync_wf_set_data [OF assms]) simp_all
  have d: "data_of p ?s = Some (Event_Sync (e\<lparr>es_signaled := b\<rparr>))" using data_exists [OF assms(2)] by (simp add: data_of_set_data)
  have "\<exists>d. data_of p (wake_up p m ?s) = Some d \<and> (\<exists>e'. d = Event_Sync e')" for m
    by (rule wakes_data [OF wake_up_wakes [OF w] _ d]) auto
  then show ?thesis unfolding event_sync_signal_eq [OF assms(2)] using d by (cases b) auto
qed

text \<open>The typed lookups give objects of the type asked for.\<close>

definition lookup_types :: "wcontext \<Rightarrow> wstate \<Rightarrow> bool" where
  "lookup_types cx s \<longleftrightarrow>
     (\<forall>h a p. wc_event_obj cx h a = Inr p \<longrightarrow> (\<exists>e. data_of p s = Some (Event_Sync e))) \<and>
     (\<forall>h a p. wc_mutex_obj cx h a = Inr p \<longrightarrow> (\<exists>m. data_of p s = Some (Mutex_Sync m))) \<and>
     (\<forall>h a p. wc_semaphore_obj cx h a = Inr p \<longrightarrow> (\<exists>x. data_of p s = Some (Semaphore_Sync x)))"

lemma set_werror_both: "good s \<Longrightarrow> good (set_werror e s) \<and> (quiet s \<longrightarrow> quiet (set_werror e s))"
  using set_werror_good set_werror_quiet by blast

lemma event_pulse:
  assumes g: "good s" and d: "data_of p s = Some (Event_Sync e)"
  shows "good (reset_sync p (signal_sync p s)) \<and> (quiet s \<longrightarrow> quiet (reset_sync p (signal_sync p s)))"
proof -
  have wf: "sync_wf s" using g by (simp add: good_def)
  obtain e' where e': "data_of p (event_sync_signal p True s) = Some (Event_Sync e')" using event_sync_signal_event [OF wf d] by blast
  have g1: "good (event_sync_signal p True s)" by (rule event_signal_good [OF g d])
  have w1: "sync_wf (event_sync_signal p True s)" using g1 by (simp add: good_def)
  show ?thesis unfolding reset_sync_def signal_sync_def
    using event_signal_good [OF g1 e'] event_sync_signal_quiet [OF w1 _ e'] event_sync_signal_quiet [OF wf _ d] by blast
qed

lemma req_event_op_good:
  assumes g: "good s" and ty: "lookup_types cx s" and r: "req_event_op cx h op s = (b, s')"
  shows "good s' \<and> (quiet s \<longrightarrow> quiet s')"
proof (cases "wc_event_obj cx h EVENT_MODIFY_STATE")
  case (Inl e)
  then show ?thesis using r set_werror_both [OF g] by (auto simp: req_event_op_def)
next
  case (Inr p)
  then obtain e where d: "data_of p s = Some (Event_Sync e)" using ty unfolding lookup_types_def by blast
  have wf: "sync_wf s" using g by (simp add: good_def)
  have G: "good (event_sync_signal p v s) \<and> (quiet s \<longrightarrow> quiet (event_sync_signal p v s))" for v
    using event_signal_good [OF g d] event_sync_signal_quiet [OF wf _ d] by blast
  have s': "s' = (case op of Some PULSE_EVENT \<Rightarrow> reset_sync p (signal_sync p s) | Some SET_EVENT \<Rightarrow> signal_sync p s
       | Some RESET_EVENT \<Rightarrow> reset_sync p s | None \<Rightarrow> set_werror STATUS_INVALID_PARAMETER s)"
    using r Inr d unfolding req_event_op_def data_of_def [symmetric] by simp
  show ?thesis unfolding s' using G event_pulse [OF g d] set_werror_both [OF g]
    by (auto simp: signal_sync_def [symmetric] split: option.split event_op.split) (simp_all add: signal_sync_def reset_sync_def)
qed

lemma req_release_mutex_good:
  assumes g: "good s" and ty: "lookup_types cx s" and r: "req_release_mutex cx h t s = (n, s')"
  shows "good s' \<and> (quiet s \<longrightarrow> quiet s')"
proof (cases "wc_mutex_obj cx h 0")
  case (Inl e)
  then show ?thesis using r set_werror_both [OF g] by (auto simp: req_release_mutex_def)
next
  case (Inr p)
  then obtain m where d: "data_of p s = Some (Mutex_Sync m)" using ty unfolding lookup_types_def by blast
  obtain b where "do_release p t 1 s = (b, s')"
    using r Inr d unfolding req_release_mutex_def data_of_def [symmetric] by (cases "do_release p t 1 s") auto
  then show ?thesis using do_release1_good [OF g d] by blast
qed

lemma req_release_semaphore_good:
  assumes g: "good s" and ty: "lookup_types cx s" and r: "req_release_semaphore cx h count s = (n, s')"
  shows "good s' \<and> (quiet s \<longrightarrow> quiet s')"
proof (cases "wc_semaphore_obj cx h SEMAPHORE_MODIFY_STATE")
  case (Inl e)
  then show ?thesis using r set_werror_both [OF g] by (auto simp: req_release_semaphore_def)
next
  case (Inr p)
  then obtain x where d: "data_of p s = Some (Semaphore_Sync x)" using ty unfolding lookup_types_def by blast
  obtain b q where r': "release_semaphore p count s = (b, q, s')" using r Inr by (auto simp: req_release_semaphore_def split: prod.splits)
  have wf: "sync_wf s" using g by (simp add: good_def)
  show ?thesis using release_semaphore_good [OF g d r'] release_semaphore_wf(3) [OF wf d r'] by blast
qed

text \<open>
  The requests after which no wait is left that could end.  The thread that selects is not in a wait already (\<open>select\<close>);
  objects waited for together are different ones, and no mutex has been taken so often that its count could wrap
  around.
\<close>

inductive sync_request :: "wcontext \<Rightarrow> wstate \<Rightarrow> wstate \<Rightarrow> bool" for cx where
  req_event: "lookup_types cx s \<Longrightarrow> req_event_op cx h op s = (b, s') \<Longrightarrow> sync_request cx s s'"
| req_mutex: "lookup_types cx s \<Longrightarrow> req_release_mutex cx h t s = (n, s') \<Longrightarrow> sync_request cx s s'"
| req_semaphore: "lookup_types cx s \<Longrightarrow> req_release_semaphore cx h count s = (n, s') \<Longrightarrow> sync_request cx s s'"
| req_select: "select_on cx t op op_size ws cookie flags when s = Some (b, s') \<Longrightarrow> mutex_room s \<Longrightarrow> cookie \<noteq> 0 \<Longrightarrow>
    select_distinct cx op ws \<Longrightarrow> waits_of t s = [] \<Longrightarrow> op \<noteq> Some SELECT_SIGNAL_AND_WAIT \<Longrightarrow> sync_request cx s s'"
| req_new_event: "create_event_sync ok manual signaled s = (x, s') \<Longrightarrow> live_waits s < 2 ^ 32 \<Longrightarrow> sync_request cx s s'"
| req_new_mutex: "create_mutex_sync ok t owned s = (x, s') \<Longrightarrow> live_waits s + 1 < 2 ^ 32 \<Longrightarrow> sync_request cx s s'"
| req_new_semaphore: "create_semaphore_sync ok init mx s = (x, s') \<Longrightarrow> semaphore_args_ok init mx \<Longrightarrow> live_waits s < 2 ^ 32 \<Longrightarrow>
    sync_request cx s s'"
| req_resume: "resume_thread t s = (n, s') \<Longrightarrow> sync_request cx s s'"
| req_kill: "data_of p s = Some (Event_Sync e) \<Longrightarrow> kill_thread t p code s = Some s' \<Longrightarrow> sync_request cx s s'"

lemma sync_request_spec:
  assumes "sync_request cx s s'" "good s" "lookup_errors cx"
  shows "good s' \<and> (quiet s \<longrightarrow> quiet s')"
  using assms
proof cases
  case (req_select t op op_size ws cookie flags "when" b)
  show ?thesis using select_on_good [OF assms(2,3) req_select(2,3,4,1)] req_select(5,6) by blast
next
  case (req_new_event ok manual signaled x)
  have "new_data_ok (Event_Sync \<lparr>es_manual = manual, es_signaled = signaled\<rparr>)" by (simp add: new_data_ok_def)
  then show ?thesis using alloc_sync_good(1,2) [OF assms(2) req_new_event(2) _ req_new_event(1) [unfolded create_event_sync_def]] by blast
next
  case (req_new_semaphore ok init mx x)
  have "new_data_ok (Semaphore_Sync \<lparr>sem_count = init, sem_max = mx\<rparr>)"
    using req_new_semaphore(2) by (simp add: new_data_ok_def semaphore_args_ok_def not_less)
  then show ?thesis using alloc_sync_good(1,2) [OF assms(2) req_new_semaphore(3) _ req_new_semaphore(1) [unfolded create_semaphore_sync_def]]
    by blast
next
  case (req_resume t n)
  then show ?thesis using resume_thread_good [OF assms(2), of t] resume_thread_quiet [OF assms(2), of t] by simp
next
  case (req_kill p e t code)
  show ?thesis
  proof (cases "th_terminated (ws_threads s t)")
    case True
    then show ?thesis using req_kill assms(2) by (simp add: kill_thread_def)
  next
    case False
    then show ?thesis using kill_thread_spec [OF assms(2) req_kill(1) False, of code] req_kill(2) by auto
  qed
qed (rule req_event_op_good [OF assms(2)] req_release_mutex_good [OF assms(2)] req_release_semaphore_good [OF assms(2)]
    create_mutex_sync_good [OF assms(2)]; assumption)+

inductive sync_step :: "wcontext \<Rightarrow> wstate \<Rightarrow> wstate \<Rightarrow> bool" for cx where
  step_request: "sync_request cx s s' \<Longrightarrow> sync_step cx s s'"
| step_select: "select_on cx t op op_size ws cookie flags when s = Some (b, s') \<Longrightarrow> mutex_room s \<Longrightarrow> cookie \<noteq> 0 \<Longrightarrow>
    select_distinct cx op ws \<Longrightarrow> sync_step cx s s'"
| step_timeout: "ws_waits s w = Some wait \<Longrightarrow> wt_user wait \<Longrightarrow> sync_step cx s (thread_timeout w s)"
| step_suspend: "suspend_thread ok t s = (n, s') \<Longrightarrow> sync_step cx s s'"
| step_tick: "0 \<le> dt \<Longrightarrow> 0 \<le> dm \<Longrightarrow> sync_step cx s (s\<lparr>ws_now := ws_now s + dt, ws_mono := ws_mono s + dm\<rparr>)"

inductive sync_reach :: "wcontext \<Rightarrow> wstate \<Rightarrow> wstate \<Rightarrow> bool" for cx where
  reach_refl: "sync_reach cx s s"
| reach_step: "sync_reach cx s s1 \<Longrightarrow> sync_step cx s1 s2 \<Longrightarrow> sync_reach cx s s2"

lemma sync_step_good:
  assumes "sync_step cx s s'" "good s" "lookup_errors cx"
  shows "good s'"
  using assms(1)
proof cases
  case step_request
  then show ?thesis using sync_request_spec assms(2,3) by blast
next
  case (step_select t op op_size ws cookie flags "when" b)
  then show ?thesis using select_on_good [OF assms(2,3) step_select(2,3,4,1)] by blast
next
  case (step_timeout w wait)
  then show ?thesis using thread_timeout_good [OF assms(2)] by blast
next
  case (step_suspend ok t n)
  then show ?thesis using suspend_thread_good [OF assms(2), of ok t] by simp
next
  case (step_tick dt dm)
  then show ?thesis using good_cong [OF assms(2), of s'] by simp
qed

lemma sync_reach_good: "sync_reach cx s s' \<Longrightarrow> good s \<Longrightarrow> lookup_errors cx \<Longrightarrow> good s'"
  by (induction rule: sync_reach.induct) (auto intro: sync_step_good)

end
