(* ===== verification/Sync_Props.thy ===== *)
theory Sync_Props
  imports Sync_Runs
begin

unbundle bit_operations_syntax

text \<open>
  The properties of the synchronization component with their witnesses: a small state with two waiting threads, and two states in
  which the code does not do what it means to.
\<close>

section \<open>Example states\<close>

definition idle_thread :: thread where
  "idle_thread = \<lparr>th_waits = [], th_process = 5, th_suspend = 0, th_bypass = False, th_context = None, th_suspend_cookie = 0,
     th_system_apc = [], th_user_apc = [], th_mutexes = [], th_terminated = False\<rparr>"

text \<open>The server when it starts: no object, no wait.\<close>

definition sync_start :: wstate where
  "sync_start = \<lparr>ws_objs = Map.empty, ws_threads = (\<lambda>_. idle_thread), ws_waits = Map.empty, ws_psuspend = (\<lambda>_. 0), ws_now = 100,
     ws_mono = 100, ws_next = 20, ws_log = [], ws_error = 0, ws_allocs = 0, ws_ok = True\<rparr>"

definition demo_wait :: "nat \<Rightarrow> select_opcode \<Rightarrow> int \<Rightarrow> nat list \<Rightarrow> thread_wait" where
  "demo_wait t op when objs = \<lparr>wt_thread = t, wt_flags = 0, wt_abandoned = False, wt_select = op, wt_cookie = 7, wt_when = when,
     wt_user = False, wt_objs = objs\<rparr>"

definition demo_entry :: "nat \<Rightarrow> nat \<Rightarrow> nat \<Rightarrow> wait_queue_entry" where
  "demo_entry t w i = \<lparr>we_thread = t, we_wait = w, we_index = i\<rparr>"

text \<open>
  Thread 11 waits for both events 21 and 22, thread 12 for event 21 alone.  The timeout of thread 11 is \<open>when\<close>.
\<close>

definition two_waiters :: "int \<Rightarrow> wstate" where
  "two_waiters when = sync_start\<lparr>
     ws_objs := [21 \<mapsto> \<lparr>so_data = Event_Sync \<lparr>es_manual = False, es_signaled = False\<rparr>, so_queue = [demo_entry 11 31 0, demo_entry 12 32 0]\<rparr>,
                 22 \<mapsto> \<lparr>so_data = Event_Sync \<lparr>es_manual = True, es_signaled = False\<rparr>, so_queue = [demo_entry 11 31 (Suc 0)]\<rparr>],
     ws_waits := [31 \<mapsto> demo_wait 11 SELECT_WAIT_ALL when [21, 22], 32 \<mapsto> demo_wait 12 SELECT_WAIT TIMEOUT_INFINITE [21]],
     ws_threads := (ws_threads sync_start)(11 := idle_thread\<lparr>th_waits := [31]\<rparr>, 12 := idle_thread\<lparr>th_waits := [32]\<rparr>),
     ws_next := 40\<rparr>"

lemmas demo_defs = two_waiters_def sync_start_def idle_thread_def demo_wait_def demo_entry_def

lemma two_waiters_wf: "sync_wf (two_waiters when)"
proof -
  let ?s = "two_waiters when"
  have dom: "{w. ws_waits ?s w \<noteq> None} = {31, 32}" by (auto simp: demo_defs)
  have d: "data_of p ?s = (if p = 21 then Some (Event_Sync \<lparr>es_manual = False, es_signaled = False\<rparr>)
      else if p = 22 then Some (Event_Sync \<lparr>es_manual = True, es_signaled = False\<rparr>) else None)" for p
    by (simp add: data_of_def demo_defs)
  have "chains_wf ?s" unfolding chains_wf_def dom by (auto simp: demo_defs split: if_splits)
  moreover have "objs_wf ?s" unfolding objs_wf_def d by (auto simp: demo_defs split: if_splits)
  moreover have "queues_wf ?s"
  proof -
    have "e \<in> set (queue_of p ?s) \<longleftrightarrow> entry_of e p ?s" for e p
      by (cases e) (auto simp: entry_of_def queue_of_def demo_defs less_Suc_eq numeral_2_eq_2 nth_Cons' split: if_splits)
    then show ?thesis unfolding queues_wf_def by (auto simp: demo_defs MAXIMUM_WAIT_OBJECTS_def split: if_splits)
  qed
  ultimately show ?thesis by (simp add: sync_wf_def)
qed

lemma two_waiters_good: "good (two_waiters when)"
proof -
  have "cookies_ok (two_waiters when)" by (auto simp: cookies_ok_def demo_defs split: if_splits)
  then show ?thesis using two_waiters_wf by (simp add: good_def) (simp add: demo_defs)
qed

lemma check_other: "t \<noteq> 11 \<Longrightarrow> t \<noteq> 12 \<Longrightarrow> fst (check_wait t (two_waiters when)) = None"
  by (simp add: check_wait_def demo_defs)

lemma two_waiters_quiet: "quiet (two_waiters TIMEOUT_INFINITE)"
proof -
  have "fst (check_wait 11 (two_waiters TIMEOUT_INFINITE)) = None" "fst (check_wait 12 (two_waiters TIMEOUT_INFINITE)) = None"
    by (simp_all add: check_wait_def Let_def demo_defs is_thread_suspended_def wait_signaled_def wait_expired_def TIMEOUT_INFINITE_def
        object_sync_signaled_def data_signaled_def event_sync_signaled_def)
  then show ?thesis using check_other unfolding quiet_def by metis
qed

lemma sync_start_good: "good sync_start"
  by (simp add: good_def sync_wf_def chains_wf_def queues_wf_def objs_wf_def cookies_ok_def sync_start_def idle_thread_def
      entry_of_def queue_of_def data_of_def)

definition demo_cx :: wcontext where
  "demo_cx = \<lparr>wc_ok = (\<lambda>_. True), wc_wait_obj = (\<lambda>h. if h = 4 then Inr 21 else Inl STATUS_INVALID_HANDLE),
     wc_signal_obj = (\<lambda>h. Inl STATUS_INVALID_HANDLE),
     wc_event_obj = (\<lambda>h a. if h = 4 then Inr 21 else Inl STATUS_INVALID_HANDLE), wc_mutex_obj = (\<lambda>h a. Inl STATUS_INVALID_HANDLE),
     wc_semaphore_obj = (\<lambda>h a. Inl STATUS_INVALID_HANDLE)\<rparr>"

lemma demo_cx_errors: "lookup_errors demo_cx"
  by (simp add: lookup_errors_def demo_cx_def MAXIMUM_WAIT_OBJECTS_def)

section \<open>No wakeup is lost\<close>





section \<open>Semaphores\<close>

text \<open>
  C28: Releasing a semaphore succeeds exactly when the count, added without wrap-around, stays within the maximum; the
  previous count is returned in both cases, a failed release changes nothing but the error, and after a successful one the count is
  at most the sum and never above the maximum.
\<close>

theorem release_semaphore_bounds:
  assumes "sync_wf s" "data_of p s = Some (Semaphore_Sync sem)" "release_semaphore p count s = (b, prev, s')"
  shows "prev = sem_count sem \<and> (b \<longleftrightarrow> unat (sem_count sem) + unat count \<le> unat (sem_max sem)) \<and>
    (\<not> b \<longrightarrow> s' = set_werror STATUS_SEMAPHORE_LIMIT_EXCEEDED s) \<and>
    (b \<longrightarrow> (\<exists>sem'. data_of p s' = Some (Semaphore_Sync sem') \<and> sem_max sem' = sem_max sem \<and>
       unat (sem_count sem') \<le> unat (sem_count sem) + unat count \<and> sem_count sem' \<le> sem_max sem))"
  by (rule release_semaphore_spec [OF assms])

theorem release_semaphore_bounds_witness:
  "fst (release_semaphore 20 2 (snd (create_semaphore_sync (\<lambda>_. True) 2 3 sync_start))) = False \<and>
   fst (release_semaphore 20 1 (snd (create_semaphore_sync (\<lambda>_. True) 2 3 sync_start))) = True"
proof -
  let ?s = "snd (create_semaphore_sync (\<lambda>_. True) 2 3 sync_start)"
  have r: "sync_request demo_cx sync_start ?s"
    by (rule req_new_semaphore [of "\<lambda>_. True" 2 3 _ "fst (create_semaphore_sync (\<lambda>_. True) 2 3 sync_start)"])
      (simp_all add: semaphore_args_ok_def live_waits_def sync_start_def)
  have w: "sync_wf ?s" using sync_request_spec [OF r sync_start_good demo_cx_errors] by (simp add: good_def)
  have d: "data_of 20 ?s = Some (Semaphore_Sync \<lparr>sem_count = 2, sem_max = 3\<rparr>)"
    by (simp add: create_semaphore_sync_def alloc_sync_def new_sync_def sync_start_def data_of_def Let_def)
  obtain b1 p1 s1 b2 p2 s2 where r: "release_semaphore 20 2 ?s = (b1, p1, s1)" "release_semaphore 20 1 ?s = (b2, p2, s2)"
    by (metis surj_pair)
  show ?thesis using release_semaphore_bounds [OF w d r(1)] release_semaphore_bounds [OF w d r(2)] r by simp
qed

section \<open>Waiting for all objects\<close>

text \<open>
  C18: A thread that waits for all of its objects takes all of them or none: when its wait ends, either every object was
  signaled for the thread and each one has been taken once, or no object has changed.
\<close>

theorem wait_all_atomic:
  assumes "sync_wf s" "waits_of t s = w # ws" "ws_waits s w = Some wait" "wt_select wait = SELECT_WAIT_ALL"
    "check_wait t s = (Some st, s1)" "end_wait t st s1 = (st', s2)"
  shows "((\<forall>p \<in> set (wt_objs wait). object_sync_signaled p t s) \<and>
      (\<forall>q. data_of q s2 = (if q \<in> set (wt_objs wait) then map_option (\<lambda>d. consume d t) (data_of q s) else data_of q s))) \<or>
    (\<forall>q. data_of q s2 = data_of q s)"
proof -
  have "s2 = (if False then send_thread_wakeup t 0 st' s2 else s2)" by simp
  note S = wake_step [OF assms(1,2,3,5,6) this]
  show ?thesis
  proof (cases "unat st < length (wt_objs wait)")
    case True
    then have tk: "taken wait st = set (wt_objs wait)" using assms(4) by (auto simp: taken_def)
    then show ?thesis using S(5,10) unfolding takeable_def tk signaled_iff by (metis (no_types, lifting))
  next
    case False
    then have "taken wait st = {}" by (simp add: taken_def)
    then show ?thesis using S(5) by simp
  qed
qed

definition both_set :: wstate where
  "both_set = set_data 21 (Event_Sync \<lparr>es_manual = False, es_signaled = True\<rparr>)
     (set_data 22 (Event_Sync \<lparr>es_manual = True, es_signaled = True\<rparr>) (two_waiters TIMEOUT_INFINITE))"

lemma both_set_wf: "sync_wf both_set"
proof -
  let ?s = "two_waiters TIMEOUT_INFINITE"
  have d: "data_of 22 ?s = Some (Event_Sync \<lparr>es_manual = True, es_signaled = False\<rparr>)" by (simp add: data_of_def demo_defs)
  have w: "sync_wf (set_data 22 (Event_Sync \<lparr>es_manual = True, es_signaled = True\<rparr>) ?s)"
    by (rule sync_wf_set_data [OF two_waiters_wf d]) simp_all
  have "data_of 21 (set_data 22 (Event_Sync \<lparr>es_manual = True, es_signaled = True\<rparr>) ?s) = Some (Event_Sync \<lparr>es_manual = False, es_signaled = False\<rparr>)"
    by (simp add: data_of_set_data) (simp add: data_of_def demo_defs)
  then show ?thesis unfolding both_set_def by (rule sync_wf_set_data [OF w]) simp_all
qed

theorem wait_all_atomic_witness:
  "data_of 21 (snd (end_wait 11 0 both_set)) = Some (Event_Sync \<lparr>es_manual = False, es_signaled = False\<rparr>) \<and>
   data_of 22 (snd (end_wait 11 0 both_set)) = Some (Event_Sync \<lparr>es_manual = True, es_signaled = True\<rparr>)"
proof -
  have ch: "waits_of 11 both_set = 31 # []" by (simp add: both_set_def demo_defs)
  have wt: "ws_waits both_set 31 = Some (demo_wait 11 SELECT_WAIT_ALL TIMEOUT_INFINITE [21, 22])" by (simp add: both_set_def demo_defs)
  have op: "wt_select (demo_wait 11 SELECT_WAIT_ALL TIMEOUT_INFINITE [21, 22]) = SELECT_WAIT_ALL" by (simp add: demo_wait_def)
  have c: "check_wait 11 both_set = (Some 0, both_set)"
    by (simp add: check_wait_def Let_def both_set_def set_data_def demo_defs is_thread_suspended_def wait_signaled_def
        object_sync_signaled_def data_signaled_def event_sync_signaled_def)
  have d: "data_of 21 both_set = Some (Event_Sync \<lparr>es_manual = False, es_signaled = True\<rparr>)"
    "data_of 22 both_set = Some (Event_Sync \<lparr>es_manual = True, es_signaled = True\<rparr>)"
    by (simp_all add: both_set_def data_of_def set_data_def demo_defs)
  have n: "data_of 21 (snd (end_wait 11 0 both_set)) \<noteq> data_of 21 both_set" unfolding d
    by (simp add: end_wait_def Let_def both_set_def set_data_def demo_defs satisfy_wait_def object_sync_satisfied_def event_sync_satisfied_def
        remove_queue_def data_of_def)
  show ?thesis using wait_all_atomic [OF both_set_wf ch wt op c prod.collapse [symmetric]] n d
    by (auto simp: demo_wait_def event_sync_satisfied_def)
qed

section \<open>Thread death\<close>

text \<open>
  C19: Killing a thread always comes to an end: the loop over its mutexes stops with none left; the thread waits for nothing
  any more, and every mutex it owned is either free and marked as abandoned or owned by a thread that waited for it.  No
  assertion fails, and no thread that waited for the dead one or for its mutexes is left behind.
\<close>

theorem kill_thread_releases:
  assumes "good s" "data_of p s = Some (Event_Sync e)" "\<not> th_terminated (ws_threads s t)"
  shows "\<exists>s'. kill_thread t p code s = Some s' \<and> ws_ok s' \<and> waits_of t s' = [] \<and> mutexes_of t s' = [] \<and>
    (\<forall>q \<in> set (mutexes_of t s). \<exists>m. data_of q s' = Some (Mutex_Sync m) \<and>
       ms_owner m \<noteq> Some t \<and> (ms_owner m = None \<longrightarrow> ms_abandoned m)) \<and> (quiet s \<longrightarrow> quiet s')"
proof -
  obtain s' where k: "kill_thread t p code s = Some s'" "good s'" "waits_of t s' = []" "mutexes_of t s' = []"
    "\<forall>q \<in> set (mutexes_of t s). \<exists>d. data_of q s' = Some d \<and> orphan d" "quiet s \<longrightarrow> quiet s'"
    using kill_thread_spec [OF assms] by blast
  have wf: "sync_wf s'" using k(2) by (simp add: good_def)
  have "\<exists>m. data_of q s' = Some (Mutex_Sync m) \<and> ms_owner m \<noteq> Some t \<and> (ms_owner m = None \<longrightarrow> ms_abandoned m)"
    if q: "q \<in> set (mutexes_of t s)" for q
  proof -
    obtain d where d: "data_of q s' = Some d" "orphan d" using k(5) q by blast
    then obtain m where m: "d = Mutex_Sync m" "ms_owner m = None \<longrightarrow> ms_abandoned m" by (cases d) auto
    then show ?thesis using owned_iff [OF wf, of q t] k(4) d by auto
  qed
  then show ?thesis using k by (auto simp: good_def)
qed

theorem kill_thread_releases_witness:
  "\<exists>s'. kill_thread 12 21 0 (two_waiters TIMEOUT_INFINITE) = Some s' \<and> ws_ok s' \<and> waits_of 12 s' = []"
proof -
  have "data_of 21 (two_waiters TIMEOUT_INFINITE) = Some (Event_Sync \<lparr>es_manual = False, es_signaled = False\<rparr>)"
    "\<not> th_terminated (ws_threads (two_waiters TIMEOUT_INFINITE) 12)"
    by (simp_all add: data_of_def demo_defs)
  from kill_thread_releases [OF two_waiters_good this] show ?thesis by blast
qed

section \<open>Where the code falls short\<close>

lemmas wait_eval = wake_thread.simps end_wait_def check_wait_def is_thread_suspended_def wait_signaled_def wait_expired_def
  object_sync_signaled_def data_signaled_def event_sync_signaled_def satisfy_wait_def remove_queue_def set_data_def upd_obj_def
  upd_thread_def upd_wait_def send_thread_wakeup_def wait_cookie_def wait_abandoned_def Let_def

text \<open>The scan meets thread 11, whose wait has expired, and counts it as the one thread to wake.\<close>

lemma expired_first:
  "wake_scan (queue_of 21 (two_waiters 50)) (set_data 21 (Event_Sync \<lparr>es_manual = False, es_signaled = True\<rparr>) (two_waiters 50)) =
   (1, snd (wake_thread 11 (set_data 21 (Event_Sync \<lparr>es_manual = False, es_signaled = True\<rparr>) (two_waiters 50))))"
  by (simp add: queue_of_def demo_defs wait_eval)


definition dup_cx :: wcontext where
  "dup_cx = \<lparr>wc_ok = (\<lambda>_. True), wc_wait_obj = (\<lambda>h. Inr 20), wc_signal_obj = (\<lambda>h. Inl STATUS_INVALID_HANDLE),
     wc_event_obj = (\<lambda>h a. if h = 4 then Inr 21 else Inl STATUS_INVALID_HANDLE), wc_mutex_obj = (\<lambda>h a. Inl STATUS_INVALID_HANDLE),
     wc_semaphore_obj = (\<lambda>h a. Inl STATUS_INVALID_HANDLE)\<rparr>"


end
