(* ===== verification/Unicode.thy ===== *)
theory Unicode
  imports Server_Prelude
begin

unbundle bit_operations_syntax

text \<open>
  Unicode strings (\<^verbatim>\<open>server/unicode.c\<close>): case-insensitive comparison and hashing, and the escaped text form of a
  string that the registry files use, its printer \<open>dump_strW\<close> and its parser \<open>parse_strW\<close>.

  Bytes are 8-bit words, \<^verbatim>\<open>WCHAR\<close>s 16-bit words.  A C string is the list of its bytes without the
  terminator; reading at the end of the list gives 0.  The table \<open>casemap\<close> is read from a file and is a parameter: the
  function that gives its entries.
\<close>

type_synonym wchar = u16

section \<open>Case mapping, comparison, hashing\<close>

definition to_lower :: "(nat \<Rightarrow> u16) \<Rightarrow> wchar \<Rightarrow> wchar" where
  "to_lower casemap ch =
     ch + casemap (unat (casemap (unat (casemap (unat (drop_bit 8 ch))) + unat (drop_bit 4 ch AND 0x0f))) + unat (ch AND 0x0f))"

text \<open>The difference of the first two characters that differ in lower case, 0 if none does.\<close>

fun memicmp_strW :: "(nat \<Rightarrow> u16) \<Rightarrow> wchar list \<Rightarrow> wchar list \<Rightarrow> nat \<Rightarrow> int" where
  "memicmp_strW casemap (a # as) (b # bs) (Suc n) =
     (let ret = uint (to_lower casemap a) - uint (to_lower casemap b)
      in if ret \<noteq> 0 then ret else memicmp_strW casemap as bs n)"
| "memicmp_strW casemap _ _ _ = 0"

definition hash_strW :: "(nat \<Rightarrow> u16) \<Rightarrow> wchar list \<Rightarrow> u32 \<Rightarrow> u32" where
  "hash_strW casemap str hash_size = fold (\<lambda>c hash. hash * 65599 + ucast (to_lower casemap c)) str 0 mod hash_size"

text \<open>Two strings that differ in case only are equal to the comparison and have the same hash.\<close>

lemma memicmp_strW_0:
  "length as = n \<Longrightarrow> length bs = n \<Longrightarrow> memicmp_strW casemap as bs n = 0 \<longleftrightarrow> map (to_lower casemap) as = map (to_lower casemap) bs"
proof (induction n arbitrary: as bs)
  case (Suc n)
  then obtain a as' b bs' where "as = a # as'" "bs = b # bs'" by (metis length_Suc_conv)
  then show ?case using Suc by (auto simp: Let_def uint_word_ariths word_uint_eq_iff)
qed simp

lemma hash_strW_fold:
  "hash_strW casemap str n = fold (\<lambda>c hash. hash * 65599 + ucast c) (map (to_lower casemap) str) 0 mod n"
  by (simp add: hash_strW_def fold_map comp_def)

section \<open>Parsing\<close>

text \<open>The byte at the current position.\<close>

definition peek :: "u8 list \<Rightarrow> u8" where
  "peek p = (case p of [] \<Rightarrow> 0 | c # _ \<Rightarrow> c)"

lemma peek_simps [simp]: "peek [] = 0" "peek (c # p) = c"
  by (simp_all add: peek_def)

definition is_xdigit :: "u8 \<Rightarrow> bool" where
  "is_xdigit c \<longleftrightarrow> (0x30 \<le> c \<and> c \<le> 0x39) \<or> (0x41 \<le> c \<and> c \<le> 0x46) \<or> (0x61 \<le> c \<and> c \<le> 0x66)"

definition is_octal :: "u8 \<Rightarrow> bool" where
  "is_octal c \<longleftrightarrow> 0x30 \<le> c \<and> c \<le> 0x37"

definition to_hex :: "u8 \<Rightarrow> u16" where
  "to_hex ch = ucast (if 0x30 \<le> ch \<and> ch \<le> 0x39 then ch - 0x30 else if ch \<le> 0x46 then ch - 0x41 + 10 else ch - 0x61 + 10)"

text \<open>At most \<open>n\<close> more digits.\<close>

fun more_hex :: "nat \<Rightarrow> u16 \<Rightarrow> u8 list \<Rightarrow> u16 \<times> u8 list" where
  "more_hex 0 v p = (v, p)"
| "more_hex (Suc n) v p = (if is_xdigit (peek p) then more_hex n (v * 16 + to_hex (peek p)) (tl p) else (v, p))"

fun more_octal :: "nat \<Rightarrow> u16 \<Rightarrow> u8 list \<Rightarrow> u16 \<times> u8 list" where
  "more_octal 0 v p = (v, p)"
| "more_octal (Suc n) v p = (if is_octal (peek p) then more_octal n (v * 8 + ucast (peek p - 0x30)) (tl p) else (v, p))"

text \<open>The character after a backslash that is a letter; \<^const>\<open>None\<close> if it stands for itself.\<close>

definition simple_escape :: "u8 \<Rightarrow> wchar option" where
  "simple_escape c =
     (if c = 0x61 then Some 7 else if c = 0x62 then Some 8 else if c = 0x65 then Some 27 else if c = 0x66 then Some 12
      else if c = 0x6e then Some 10 else if c = 0x72 then Some 13 else if c = 0x74 then Some 9 else if c = 0x76 then Some 11
      else None)"

definition parse_hex :: "u8 list \<Rightarrow> wchar \<times> u8 list" where
  "parse_hex p = (if \<not> is_xdigit (peek p) then (0x78, p) else more_hex 3 (to_hex (peek p)) (tl p))"

definition parse_octal :: "u8 list \<Rightarrow> wchar \<times> u8 list" where
  "parse_octal p = more_octal 2 (ucast (peek p - 0x30)) (tl p)"

text \<open>UTF-8: the number of continuation bytes, the bits of the first byte, the smallest value of each length.\<close>

definition utf8_length :: "u8 \<Rightarrow> nat" where
  "utf8_length ch = (if ch < 0xc2 then 0 else if ch < 0xe0 then 1 else if ch < 0xf0 then 2 else if ch < 0xf5 then 3 else 0)"

definition utf8_mask :: "nat \<Rightarrow> u8" where
  "utf8_mask n = [0x7f, 0x1f, 0x0f, 0x07] ! n"

definition utf8_minval :: "nat \<Rightarrow> u32" where
  "utf8_minval n = [0, 0x80, 0x800, 0x10000] ! n"

fun utf8_cont :: "nat \<Rightarrow> u32 \<Rightarrow> u8 list \<Rightarrow> u32 option \<times> u8 list" where
  "utf8_cont 0 res p = (Some res, p)"
| "utf8_cont (Suc n) res p =
     (let ch = peek p XOR 0x80
      in if ch \<ge> 0x40 then (None, p) else utf8_cont n (push_bit 6 res OR ucast ch) (tl p))"

text \<open>The characters a code point becomes, at most \<open>room\<close> of them.\<close>

definition utf16_of :: "nat \<Rightarrow> u32 \<Rightarrow> nat \<Rightarrow> wchar list" where
  "utf16_of charlen res room =
     (if res < utf8_minval charlen \<or> res > 0x10ffff then []
      else if res \<le> 0xffff then [ucast res]
      else let r = res - 0x10000
           in (0xd800 OR ucast (drop_bit 10 r)) # (if room > 1 then [0xdc00 OR ucast (r AND 0x3ff)] else []))"

text \<open>One plain byte or UTF-8 sequence; an invalid one gives nothing.\<close>

definition parse_plain :: "nat \<Rightarrow> u8 list \<Rightarrow> wchar list \<times> u8 list" where
  "parse_plain room p =
     (let ch = peek p; p1 = tl p
      in if ch < 0x80 then ([ucast ch], p1)
         else let charlen = utf8_length ch
              in if charlen = 0 then ([], p1)
                 else case utf8_cont charlen (ucast (ch AND utf8_mask charlen)) p1 of
                        (None, p2) \<Rightarrow> ([], p2)
                      | (Some res, p2) \<Rightarrow> (utf16_of charlen res room, p2))"

lemma more_hex_length: "length (snd (more_hex n v p)) \<le> length p"
  by (induction n v p rule: more_hex.induct) (auto intro: order_trans)

lemma more_octal_length: "length (snd (more_octal n v p)) \<le> length p"
  by (induction n v p rule: more_octal.induct) (auto intro: order_trans)

lemma utf8_cont_length: "length (snd (utf8_cont n r p)) \<le> length p"
  by (induction n r p rule: utf8_cont.induct) (auto simp: Let_def intro: order_trans)

lemma parse_plain_length:
  assumes "p \<noteq> []"
  shows "length (snd (parse_plain room p)) < length p"
proof -
  have t: "length (tl p) < length p" using assms by (cases p) auto
  show ?thesis
    using t utf8_cont_length [of "utf8_length (peek p)" "ucast (peek p AND utf8_mask (utf8_length (peek p)))" "tl p"]
    by (auto simp: parse_plain_def Let_def split: prod.split option.split)
qed

text \<open>One step of the loop that reads an escape: the characters it gives and the rest of the input.\<close>

definition parse_escape :: "nat \<Rightarrow> u8 list \<Rightarrow> wchar list \<times> u8 list" where
  "parse_escape room p =
     (case simple_escape (peek p) of
        Some c \<Rightarrow> ([c], tl p)
      | None \<Rightarrow>
          if peek p = 0x78 then (let (c, q) = parse_hex (tl p) in ([c], q))
          else if is_octal (peek p) then (let (c, q) = parse_octal p in ([c], q))
          else parse_plain room p)"

lemma parse_escape_length:
  assumes "p \<noteq> []"
  shows "length (snd (parse_escape room p)) < length p"
proof -
  have t: "length (tl p) < length p" using assms by (cases p) auto
  have h: "length (snd (parse_hex (tl p))) \<le> length (tl p)"
    using more_hex_length [of 3 "to_hex (peek (tl p))" "tl (tl p)"] by (cases "tl p") (auto simp: parse_hex_def)
  have o: "length (snd (parse_octal p)) \<le> length (tl p)" unfolding parse_octal_def by (rule more_octal_length)
  show ?thesis using t h o parse_plain_length [OF assms, of room]
    by (auto simp: parse_escape_def split: option.split prod.split)
qed

function parse_loop :: "u8 \<Rightarrow> nat \<Rightarrow> u8 list \<Rightarrow> wchar list \<Rightarrow> u8 list \<times> wchar list" where
  "parse_loop endchar cap p dest =
     (if peek p = 0 \<or> peek p = endchar \<or> length dest \<ge> cap then (p, dest)
      else if peek p = 0x5c
      then if peek (tl p) = 0 then (tl p, dest)
           else (case parse_escape (cap - length dest) (tl p) of (cs, q) \<Rightarrow> parse_loop endchar cap q (dest @ cs))
      else (case parse_plain (cap - length dest) p of (cs, q) \<Rightarrow> parse_loop endchar cap q (dest @ cs)))"
  by pat_completeness auto

termination parse_loop
proof (relation "measure (\<lambda>(e, n, p, d). length p)", goal_cases)
  case (2 endchar cap p dest cs q)
  then have "tl p \<noteq> []" by auto
  moreover have "snd (parse_escape (cap - length dest) (tl p)) = q" using 2 by (metis snd_conv)
  ultimately have "length q < length (tl p)" using parse_escape_length by blast
  then show ?case by simp
next
  case (3 endchar cap p dest cs q)
  then have "p \<noteq> []" by auto
  moreover have "snd (parse_plain (cap - length dest) p) = q" using 3 by (metis snd_conv)
  ultimately have "length q < length p" using parse_plain_length by blast
  then show ?case by simp
qed simp

declare parse_loop.simps [simp del]

text \<open>
  \<open>cap\<close> is the size of the buffer in characters.  The result is the number of bytes read and the characters
  written with the terminating zero; \<^const>\<open>None\<close> is the result \<^verbatim>\<open>-1\<close>.
\<close>

definition parse_strW :: "nat \<Rightarrow> u8 list \<Rightarrow> u8 \<Rightarrow> (nat \<times> wchar list) option" where
  "parse_strW cap src endchar =
     (case parse_loop endchar cap src [] of
        (p, dest) \<Rightarrow>
          if length dest \<ge> cap then None
          else if peek p = 0 then None
          else Some (length src - length p + 1, dest @ [0]))"

section \<open>Printing\<close>

text \<open>The digits of a number, as \<^verbatim>\<open>printf\<close> writes them, and the padding with zeros.\<close>

fun digits :: "nat \<Rightarrow> nat \<Rightarrow> nat list" where
  "digits b n = (if b \<le> 1 \<or> n < b then [n] else digits b (n div b) @ [n mod b])"

declare digits.simps [simp del]

definition pad :: "nat \<Rightarrow> nat list \<Rightarrow> nat list" where
  "pad w ds = replicate (w - length ds) 0 @ ds"

definition digit_char :: "nat \<Rightarrow> u8" where
  "digit_char d = (if d < 10 then of_nat (0x30 + d) else of_nat (0x57 + d))"

definition escapes :: "u8 list" where
  "escapes = [46, 46, 46, 46, 46, 46, 46, 97, 98, 116, 110, 118, 102, 114, 46, 46,
              46, 46, 46, 46, 46, 46, 46, 46, 46, 46, 46, 101, 46, 46, 46, 46]"

text \<open>The text of one character; what follows it decides how many digits are needed.\<close>

definition dump_char :: "u8 \<times> u8 \<Rightarrow> wchar \<Rightarrow> wchar list \<Rightarrow> u8 list" where
  "dump_char esc c rest =
     (if c > 127
      then 0x5c # 0x78 # map digit_char
             (if rest \<noteq> [] \<and> hd rest < 128 \<and> is_xdigit (ucast (hd rest)) then pad 4 (digits 16 (unat c)) else digits 16 (unat c))
      else if c < 32
      then if escapes ! unat c \<noteq> 46 then [0x5c, escapes ! unat c]
           else 0x5c # map digit_char
             (if rest \<noteq> [] \<and> 0x30 \<le> hd rest \<and> hd rest \<le> 0x37 then pad 3 (digits 8 (unat c)) else digits 8 (unat c))
      else (if c = 0x5c \<or> c = ucast (fst esc) \<or> c = ucast (snd esc) then [0x5c] else []) @ [ucast c])"

text \<open>
  The text goes through a buffer of 256 bytes that is written out when less than 8 bytes are left.  \<^const>\<open>None\<close> means that the text of
  a character did not fit.
\<close>

fun dump_loop :: "u8 \<times> u8 \<Rightarrow> wchar list \<Rightarrow> u8 list \<Rightarrow> u8 list \<Rightarrow> u8 list option" where
  "dump_loop esc [] out buffer = Some (out @ buffer)"
| "dump_loop esc (c # str) out buffer =
     (let (out1, buffer1) = (if length buffer > 256 - 8 then (out @ buffer, []) else (out, buffer));
          t = dump_char esc c str
      in if length buffer1 + length t \<ge> 256 then None else dump_loop esc str out1 (buffer1 @ t))"

definition dump_strW :: "u8 \<times> u8 \<Rightarrow> wchar list \<Rightarrow> u8 list option" where
  "dump_strW esc str = dump_loop esc str [] []"

text \<open>The text without the buffer.\<close>

fun dump_text :: "u8 \<times> u8 \<Rightarrow> wchar list \<Rightarrow> u8 list" where
  "dump_text esc [] = []"
| "dump_text esc (c # str) = dump_char esc c str @ dump_text esc str"

section \<open>The buffer is large enough\<close>

lemma digits_length:
  assumes "2 \<le> b"
  shows "n < b ^ Suc k \<Longrightarrow> length (digits b n) \<le> Suc k"
proof (induction k arbitrary: n)
  case 0
  then show ?case by (subst digits.simps) simp
next
  case (Suc k)
  show ?case
  proof (cases "n < b")
    case True
    then show ?thesis by (subst digits.simps) simp
  next
    case False
    have "n div b < b ^ Suc k" using Suc.prems assms by (simp add: less_mult_imp_div_less mult.commute)
    then show ?thesis using Suc.IH False assms by (subst digits.simps) simp
  qed
qed

lemma digits_16_length: "length (digits 16 (unat (c :: wchar))) \<le> 4"
  using digits_length [of 16 "unat c" 3] unat_less_2p [of c] by simp

lemma digits_8_length: "c < 32 \<Longrightarrow> length (digits 8 (unat (c :: wchar))) \<le> 2"
  using digits_length [of 8 "unat c" 1] by (simp add: word_less_nat_alt)

lemma dump_char_length: "length (dump_char esc c rest) \<le> 6"
proof -
  have "length (pad 4 (digits 16 (unat c))) = 4" using digits_16_length [of c] by (simp add: pad_def)
  moreover have "c < 32 \<Longrightarrow> length (pad 3 (digits 8 (unat c))) = 3" using digits_8_length [of c] by (simp add: pad_def)
  ultimately show ?thesis using digits_16_length [of c] digits_8_length [of c] by (auto simp: dump_char_def)
qed

lemma dump_loop_text: "length buffer < 256 \<Longrightarrow> dump_loop esc str out buffer = Some (out @ buffer @ dump_text esc str)"
proof (induction str arbitrary: out buffer)
  case (Cons c str)
  show ?case using Cons dump_char_length [of esc c str] by (auto simp: Let_def)
qed simp

lemma dump_strW_text: "dump_strW esc str = Some (dump_text esc str)"
  by (simp add: dump_strW_def dump_loop_text)

section \<open>Digits are read back\<close>

lemma digits_less: "2 \<le> b \<Longrightarrow> d \<in> set (digits b n) \<Longrightarrow> d < b"
  by (induction b n rule: digits.induct) (subst (asm) (2) digits.simps, auto split: if_splits)

lemma digits_value: "2 \<le> b \<Longrightarrow> foldl (\<lambda>v d. v * b + d) 0 (digits b n) = n"
  by (induction b n rule: digits.induct) (subst digits.simps, auto)

lemma pad_value: "foldl (\<lambda>v d. v * b + d) (0 :: nat) (pad w ds) = foldl (\<lambda>v d. v * b + d) 0 ds"
proof -
  have "foldl (\<lambda>v d. v * b + d) (0 :: nat) (replicate k 0) = 0" for k by (induction k) auto
  then show ?thesis by (simp add: pad_def)
qed

lemma digit_char_16:
  assumes "d < 16"
  shows "is_xdigit (digit_char d)" "to_hex (digit_char d) = of_nat d"
proof -
  have "d \<in> {0, 1, 2, 3, 4, 5, 6, 7, 8, 9, 10, 11, 12, 13, 14, 15}" using assms by (simp, presburger)
  then show "is_xdigit (digit_char d)" "to_hex (digit_char d) = of_nat d"
    by (auto simp: is_xdigit_def digit_char_def to_hex_def)
qed

lemma digit_char_8:
  assumes "d < 8"
  shows "is_octal (digit_char d)" "(ucast (digit_char d - 0x30) :: wchar) = of_nat d"
proof -
  have "d \<in> {0, 1, 2, 3, 4, 5, 6, 7}" using assms by auto
  then show "is_octal (digit_char d)" "(ucast (digit_char d - 0x30) :: wchar) = of_nat d"
    by (auto simp: is_octal_def digit_char_def)
qed

lemma more_hex_digits:
  assumes "\<forall>d \<in> set ds. d < 16" "length ds \<le> n" "length ds = n \<or> \<not> is_xdigit (peek q)"
  shows "more_hex n (of_nat v) (map digit_char ds @ q) = (of_nat (foldl (\<lambda>v d. v * 16 + d) v ds), q)"
  using assms
proof (induction ds arbitrary: n v)
  case Nil
  then show ?case by (cases n) auto
next
  case (Cons d ds)
  then obtain m where m: "n = Suc m" by (cases n) auto
  have "(of_nat v :: u16) * 16 + of_nat d = of_nat (v * 16 + d)" by simp
  then show ?case using Cons.IH [of m "v * 16 + d"] Cons.prems digit_char_16 [of d] m by (simp del: of_nat_add of_nat_mult)
qed

lemma more_octal_digits:
  assumes "\<forall>d \<in> set ds. d < 8" "length ds \<le> n" "length ds = n \<or> \<not> is_octal (peek q)"
  shows "more_octal n (of_nat v) (map digit_char ds @ q) = (of_nat (foldl (\<lambda>v d. v * 8 + d) v ds), q)"
  using assms
proof (induction ds arbitrary: n v)
  case Nil
  then show ?case by (cases n) auto
next
  case (Cons d ds)
  then obtain m where m: "n = Suc m" by (cases n) auto
  have "(of_nat v :: u16) * 8 + of_nat d = of_nat (v * 8 + d)" by simp
  then show ?case using Cons.IH [of m "v * 8 + d"] Cons.prems digit_char_8 [of d] m by (simp del: of_nat_add of_nat_mult)
qed

lemma digits_nonempty: "digits b n \<noteq> []"
  by (subst digits.simps) simp

section \<open>The text is read back\<close>

text \<open>A delimiter that may stand after a backslash and may follow any digits.\<close>

definition delimiter :: "u8 \<Rightarrow> bool" where
  "delimiter e \<longleftrightarrow> e \<noteq> 0 \<and> e < 0x80 \<and> e \<noteq> 0x5c \<and> e \<noteq> 0x78 \<and> \<not> is_xdigit e \<and> simple_escape e = None"

lemma ascii_cast:
  assumes "(c :: wchar) \<le> 127"
  shows "(ucast c :: u8) < 0x80" "(ucast (ucast c :: u8) :: wchar) = c" "(ucast c :: u8) = e \<longleftrightarrow> c = ucast e"
proof -
  have u: "unat (ucast c :: u8) = unat c" using assms by (simp add: unat_ucast_mod word_le_nat_alt)
  show "(ucast c :: u8) < 0x80" using assms u by (simp add: word_less_nat_alt word_le_nat_alt)
  show b: "(ucast (ucast c :: u8) :: wchar) = c"
    using u unat_less_2p [of c] by (simp add: word_unat_eq_iff unat_ucast_mod)
  show "(ucast c :: u8) = e \<longleftrightarrow> c = ucast e"
  proof
    assume "c = ucast e"
    then show "(ucast c :: u8) = e" using unat_less_2p [of e] by (simp add: word_unat_eq_iff unat_ucast_mod)
  qed (use b in auto)
qed

lemma escapes_table:
  "list_all (\<lambda>n. escapes ! n = 46 \<or> simple_escape (escapes ! n) = Some (of_nat n) \<and> escapes ! n \<noteq> 0) [0..<32]"
  by (simp add: upt_rec escapes_def simple_escape_def)

lemma escape_letter:
  assumes "(c :: wchar) < 32" "escapes ! unat c \<noteq> 46"
  shows "simple_escape (escapes ! unat c) = Some c" "escapes ! unat c \<noteq> 0"
proof -
  have "unat c \<in> set [0..<32]" using assms(1) by (simp add: word_less_nat_alt)
  then have "simple_escape (escapes ! unat c) = Some (of_nat (unat c)) \<and> escapes ! unat c \<noteq> 0"
    using escapes_table assms(2) unfolding list_all_iff by blast
  then show "simple_escape (escapes ! unat c) = Some c" "escapes ! unat c \<noteq> 0" by simp_all
qed

lemma octal_not_letter: "is_octal c \<Longrightarrow> simple_escape c = None \<and> c \<noteq> 0x78 \<and> c \<noteq> 0"
  by (auto simp: is_octal_def simple_escape_def)

lemma octal_xdigit: "is_octal c \<Longrightarrow> is_xdigit c"
  by (auto simp: is_octal_def is_xdigit_def word_le_nat_alt)

lemma parse_loop_escape:
  assumes "peek p \<noteq> 0" "e \<noteq> 0x5c" "length dest < cap" "parse_escape (cap - length dest) p = (cs, q)"
  shows "parse_loop e cap (0x5c # p) dest = parse_loop e cap q (dest @ cs)"
  using assms by (simp add: parse_loop.simps [of e cap "0x5c # p" dest])

lemma parse_escape_hex:
  assumes ds: "\<forall>d \<in> set ds. d < 16" "ds \<noteq> []" "length ds \<le> 4" "length ds = 4 \<or> \<not> is_xdigit (peek q)"
    and v: "foldl (\<lambda>v d. v * 16 + d) 0 ds = unat c"
  shows "parse_escape room (0x78 # map digit_char ds @ q) = ([c], q)"
proof -
  obtain d ds' where d: "ds = d # ds'" using ds(2) by (cases ds) auto
  have "more_hex 3 (of_nat d) (map digit_char ds' @ q) = (of_nat (foldl (\<lambda>v d. v * 16 + d) d ds'), q)"
    by (rule more_hex_digits) (use ds d in auto)
  moreover have "foldl (\<lambda>v d. v * 16 + d) d ds' = unat c" using v d by simp
  ultimately have "more_hex 3 (of_nat d) (map digit_char ds' @ q) = (c, q)" by simp
  then show ?thesis using d ds(1) digit_char_16 [of d] by (simp add: parse_escape_def simple_escape_def parse_hex_def)
qed

lemma parse_escape_octal:
  assumes ds: "\<forall>d \<in> set ds. d < 8" "ds \<noteq> []" "length ds \<le> 3" "length ds = 3 \<or> \<not> is_octal (peek q)"
    and v: "foldl (\<lambda>v d. v * 8 + d) 0 ds = unat c"
  shows "parse_escape room (map digit_char ds @ q) = ([c], q)"
proof -
  obtain d ds' where d: "ds = d # ds'" using ds(2) by (cases ds) auto
  have o: "is_octal (digit_char d)" using ds(1) d digit_char_8 by simp
  have "more_octal 2 (of_nat d) (map digit_char ds' @ q) = (of_nat (foldl (\<lambda>v d. v * 8 + d) d ds'), q)"
    by (rule more_octal_digits) (use ds d in auto)
  moreover have "foldl (\<lambda>v d. v * 8 + d) d ds' = unat c" using v d by simp
  ultimately have "more_octal 2 (of_nat d) (map digit_char ds' @ q) = (c, q)" by simp
  then show ?thesis using d ds(1) digit_char_8 [of d] o octal_not_letter [OF o] by (simp add: parse_escape_def parse_octal_def)
qed

text \<open>What follows a character in the text.\<close>

lemma peek_dump_text:
  "peek (dump_text esc cs @ e # r) =
   (case cs of [] \<Rightarrow> e | c # _ \<Rightarrow> if c > 127 \<or> c < 32 \<or> c = 0x5c \<or> c = ucast (fst esc) \<or> c = ucast (snd esc) then 0x5c else ucast c)"
  by (cases cs) (auto simp: dump_char_def)

lemma pad_ok:
  assumes "\<forall>d \<in> set ds. d < b" "length ds \<le> w" "0 < b" "ds \<noteq> []"
  shows "\<forall>d \<in> set (pad w ds). d < b" "length (pad w ds) = w" "pad w ds \<noteq> []"
  using assms by (auto simp: pad_def)

lemma dump_char_step:
  assumes e: "delimiter e1" "delimiter e2" "e = e1 \<or> e = e2" and room: "length dest < cap"
    and q: "q = dump_text (e1, e2) cs @ e # r"
  shows "parse_loop e cap (dump_char (e1, e2) c cs @ q) dest = parse_loop e cap q (dest @ [c])"
proof -
  have e': "e \<noteq> 0x5c" "e \<noteq> 0" "\<not> is_xdigit e" using e by (auto simp: delimiter_def)
  consider (hex) "c > 127" | (letter) "c < 32" "escapes ! unat c \<noteq> 46" | (octal) "c < 32" "escapes ! unat c = 46"
    | (plain) "32 \<le> c" "c \<le> 127" by fastforce
  then show ?thesis
  proof cases
    case hex
    define b where "b \<longleftrightarrow> cs \<noteq> [] \<and> hd cs < 128 \<and> is_xdigit (ucast (hd cs))"
    define ds where "ds = (if b then pad 4 (digits 16 (unat c)) else digits 16 (unat c))"
    have d0: "\<forall>d \<in> set (digits 16 (unat c)). d < 16" using digits_less by auto
    note p = pad_ok [OF d0 digits_16_length _ digits_nonempty]
    have v: "foldl (\<lambda>v d. v * 16 + d) 0 ds = unat c" unfolding ds_def using pad_value [of 16 4] digits_value [of 16 "unat c"] by simp
    have nx: "\<not> is_xdigit (peek q)" if "\<not> b"
      using that e'(3) unfolding q peek_dump_text b_def by (cases cs) (auto simp: is_xdigit_def [of "0x5c"] not_less word_le_nat_alt)
    have E: "parse_escape (cap - length dest) (0x78 # map digit_char ds @ q) = ([c], q)"
      by (rule parse_escape_hex [OF _ _ _ _ v]) (use p d0 digits_nonempty digits_16_length [of c] nx in \<open>auto simp: ds_def\<close>)
    have t: "dump_char (e1, e2) c cs = 0x5c # 0x78 # map digit_char ds" using hex by (simp add: dump_char_def ds_def b_def)
    show ?thesis unfolding t using parse_loop_escape [OF _ e'(1) room E] by simp
  next
    case letter
    have t: "dump_char (e1, e2) c cs = [0x5c, escapes ! unat c]"
      using letter by (auto simp: dump_char_def word_less_nat_alt)
    have "parse_escape (cap - length dest) (escapes ! unat c # q) = ([c], q)" using escape_letter [OF letter] by (simp add: parse_escape_def)
    then show ?thesis unfolding t using parse_loop_escape [OF _ e'(1) room] escape_letter(2) [OF letter] by simp
  next
    case octal
    define b where "b \<longleftrightarrow> cs \<noteq> [] \<and> 0x30 \<le> hd cs \<and> hd cs \<le> 0x37"
    define ds where "ds = (if b then pad 3 (digits 8 (unat c)) else digits 8 (unat c))"
    have d0: "\<forall>d \<in> set (digits 8 (unat c)). d < 8" using digits_less by auto
    have l: "length (digits 8 (unat c)) \<le> 3" using digits_8_length [OF octal(1)] by simp
    note p = pad_ok [OF d0 l _ digits_nonempty]
    have v: "foldl (\<lambda>v d. v * 8 + d) 0 ds = unat c" unfolding ds_def using pad_value [of 8 3] digits_value [of 8 "unat c"] by simp
    have nx: "\<not> is_octal (peek q)" if "\<not> b"
      using that e'(3) octal_xdigit [of e] unfolding q peek_dump_text b_def
      by (cases cs) (auto simp: is_octal_def word_le_nat_alt word_less_nat_alt unat_ucast_mod)
    have E: "parse_escape (cap - length dest) (map digit_char ds @ q) = ([c], q)"
      by (rule parse_escape_octal [OF _ _ _ _ v]) (use p d0 digits_nonempty l nx in \<open>auto simp: ds_def\<close>)
    have t: "dump_char (e1, e2) c cs = 0x5c # map digit_char ds"
      using octal by (auto simp: dump_char_def ds_def b_def word_less_nat_alt)
    have "peek (map digit_char ds @ q) \<noteq> 0"
    proof -
      obtain d ds' where "ds = d # ds'" "d < 8" using p d0 digits_nonempty [of 8 "unat c"] unfolding ds_def
        by (metis (full_types) list.exhaust list.set_intros(1) zero_less_numeral)
      then show ?thesis using octal_not_letter digit_char_8 by auto
    qed
    then show ?thesis unfolding t using parse_loop_escape [OF _ e'(1) room E] by simp
  next
    case plain
    note a = ascii_cast [OF plain(2)]
    have P: "parse_plain n (ucast c # q) = ([c], q)" for n using a by (simp add: parse_plain_def)
    have big: "\<not> c > 127" "\<not> c < 32" using plain by auto
    show ?thesis
    proof (cases "c = 0x5c \<or> c = ucast e1 \<or> c = ucast e2")
      case True
      then have t: "dump_char (e1, e2) c cs = [0x5c, ucast c]" using big by (simp add: dump_char_def)
      have "ucast c = (0x5c :: u8) \<or> (ucast c :: u8) = e1 \<or> (ucast c :: u8) = e2"
        using True a(3) [of "0x5c"] a(3) [of e1] a(3) [of e2] by auto
      then have s: "simple_escape (ucast c) = None" "(ucast c :: u8) \<noteq> 0x78" "\<not> is_octal (ucast c)" "(ucast c :: u8) \<noteq> 0"
        using e octal_xdigit by (auto simp: delimiter_def simple_escape_def is_octal_def)
      then have "parse_escape (cap - length dest) (ucast c # q) = ([c], q)" using P by (simp add: parse_escape_def)
      then show ?thesis unfolding t using parse_loop_escape [OF _ e'(1) room] s(4) by simp
    next
      case False
      then have t: "dump_char (e1, e2) c cs = [ucast c]" using big by (simp add: dump_char_def)
      have "(ucast c :: u8) \<noteq> 0x5c" using a(3) [of "0x5c"] False by simp
      moreover have "(ucast c :: u8) \<noteq> 0" using a(3) [of 0] plain(1) by auto
      moreover have "(ucast c :: u8) \<noteq> e" using a(3) [of e1] a(3) [of e2] False e(3) by blast
      ultimately show ?thesis unfolding t using P room by (simp add: parse_loop.simps [of e cap "ucast c # q" dest])
    qed
  qed
qed

lemma parse_dump_loop:
  assumes "delimiter e1" "delimiter e2" "e = e1 \<or> e = e2"
  shows "length dest + length str < cap \<Longrightarrow>
    parse_loop e cap (dump_text (e1, e2) str @ e # r) dest = (e # r, dest @ str)"
proof (induction str arbitrary: dest)
  case Nil
  then show ?case by (simp add: parse_loop.simps)
next
  case (Cons c str)
  then show ?case using dump_char_step [OF assms _ refl, where dest = dest and cap = cap and c = c and cs = str and r = r] by simp
qed

text \<open>
  C8: A string of any 16-bit characters, written by \<open>dump_strW\<close> and read by \<open>parse_strW\<close> up to the delimiter, comes back
  unchanged with its terminator, if the buffer has room for both; exactly the text and the delimiter are read,
  whatever follows.  Both delimiters are escaped in the text.
\<close>

theorem parse_dump_strW:
  assumes "delimiter e1" "delimiter e2" "e = e1 \<or> e = e2" "length str < cap"
  shows "\<exists>t. dump_strW (e1, e2) str = Some t \<and> parse_strW cap (t @ e # rest) e = Some (length t + 1, str @ [0])"
proof -
  have "e \<noteq> 0" using assms(1-3) by (auto simp: delimiter_def)
  then show ?thesis using parse_dump_loop [OF assms(1-3), of "[]" str cap rest] assms(4)
    by (simp add: dump_strW_text parse_strW_def)
qed

theorem parse_dump_strW_witness:
  "\<exists>t. dump_strW (0x22, 0x22) [0x41, 0x22, 0xe9, 0x62, 10, 1, 0x37, 0xffff] = Some t \<and>
     parse_strW 9 (t @ 0x22 # [0x3d]) 0x22 = Some (length t + 1, [0x41, 0x22, 0xe9, 0x62, 10, 1, 0x37, 0xffff, 0])"
proof -
  have d: "delimiter 0x22" by (simp add: delimiter_def is_xdigit_def simple_escape_def)
  show ?thesis 
    using parse_dump_strW [OF d d, where e = "0x22" and str = "[0x41, 0x22, 0xe9, 0x62, 10, 1, 0x37, 0xffff]" and cap = 9 and rest = "[0x3d]"]
    by simp
qed

section \<open>The parser stays within its buffers\<close>

lemma suffix_tl: "\<exists>a. p = a @ tl p"
  by (cases p) (auto intro: exI [of _ "[]"])

lemma suffix_step: "(\<exists>a. tl p = a @ q) \<Longrightarrow> (\<exists>a. p = a @ (q :: 'a list))"
  using suffix_tl [of p] by (metis append.assoc)

lemma more_hex_suffix: "\<exists>a. p = a @ snd (more_hex n v p)"
  by (induction n v p rule: more_hex.induct) (auto intro: suffix_step)

lemma more_octal_suffix: "\<exists>a. p = a @ snd (more_octal n v p)"
  by (induction n v p rule: more_octal.induct) (auto intro: suffix_step)

lemma utf8_cont_suffix: "\<exists>a. p = a @ snd (utf8_cont n r p)"
  by (induction n r p rule: utf8_cont.induct) (auto simp: Let_def intro: suffix_step)

lemma parse_plain_bounds:
  assumes "parse_plain room p = (cs, q)" "0 < room"
  shows "length cs \<le> room" "\<exists>a. p = a @ q"
proof -
  define r :: u32 where "r = ucast (peek p AND utf8_mask (utf8_length (peek p)))"
  have "length (utf16_of n v room) \<le> room" for n v using assms(2) by (auto simp: utf16_of_def Let_def)
  then show "length cs \<le> room" using assms by (auto simp: parse_plain_def Let_def split: if_splits prod.splits option.splits)
  have "q = tl p \<or> q = snd (utf8_cont (utf8_length (peek p)) r (tl p))"
    using assms(1) by (auto simp: parse_plain_def Let_def r_def split: if_splits prod.splits option.splits)
  then show "\<exists>a. p = a @ q" using suffix_tl [of p] suffix_step [OF utf8_cont_suffix] by metis
qed

lemma parse_escape_bounds:
  assumes "parse_escape room p = (cs, q)" "0 < room"
  shows "length cs \<le> room \<and> (\<exists>a. p = a @ q)"
proof -
  have h: "\<exists>a. tl p = a @ snd (parse_hex (tl p))"
    using suffix_step [OF more_hex_suffix [of "tl (tl p)" 3 "to_hex (peek (tl p))"]] by (auto simp: parse_hex_def)
  have o: "\<exists>a. tl p = a @ snd (parse_octal p)" unfolding parse_octal_def by (rule more_octal_suffix)
  consider (plain) "parse_plain room p = (cs, q)" | (other) "length cs = 1" "q = tl p \<or> q = snd (parse_hex (tl p)) \<or> q = snd (parse_octal p)"
    using assms(1) by (auto simp: parse_escape_def split: option.splits if_splits prod.splits)
  then show ?thesis
  proof cases
    case plain
    then show ?thesis using parse_plain_bounds [OF plain assms(2)] by blast
  next
    case other
    then have "\<exists>a. p = a @ q" using suffix_tl [of p] suffix_step [OF h] suffix_step [OF o] by metis
    then show ?thesis using other(1) assms(2) by simp
  qed
qed

lemma parse_loop_bounds:
  "length dest \<le> cap \<Longrightarrow> parse_loop e cap p dest = (p', dest') \<Longrightarrow>
   length dest' \<le> cap \<and> (\<exists>a. p = a @ p') \<and> (length dest' < cap \<longrightarrow> peek p' = 0 \<or> peek p' = e)"
proof (induction e cap p dest rule: parse_loop.induct)
  case (1 e cap p dest)
  show ?case
  proof (cases "peek p = 0 \<or> peek p = e \<or> length dest \<ge> cap")
    case True
    then show ?thesis using 1(3,4) by (auto simp: parse_loop.simps [of e cap p dest])
  next
    case go: False
    show ?thesis
    proof (cases "peek p = 0x5c")
      case True
      show ?thesis
      proof (cases "peek (tl p) = 0")
        case z: True
        then show ?thesis using 1(3,4) go True suffix_tl [of p] by (auto simp: parse_loop.simps [of e cap p dest])
      next
        case False
        obtain cs q where pe: "parse_escape (cap - length dest) (tl p) = (cs, q)" by (metis surj_pair)
        have b: "length cs \<le> cap - length dest" "\<exists>a. tl p = a @ q" using parse_escape_bounds [OF pe] go by auto
        have "parse_loop e cap q (dest @ cs) = (p', dest')" using 1(4) go True False pe by (simp add: parse_loop.simps [of e cap p dest])
        then have "length dest' \<le> cap \<and> (\<exists>a. q = a @ p') \<and> (length dest' < cap \<longrightarrow> peek p' = 0 \<or> peek p' = e)"
          using 1(1) [OF _ True False pe [symmetric]] go b(1) 1(3) by simp
        then show ?thesis using suffix_step [OF b(2)] by (metis append.assoc)
      qed
    next
      case False
      obtain cs q where pe: "parse_plain (cap - length dest) p = (cs, q)" by (metis surj_pair)
      have b: "length cs \<le> cap - length dest" "\<exists>a. p = a @ q" using parse_plain_bounds [OF pe] go by auto
      have "parse_loop e cap q (dest @ cs) = (p', dest')" using 1(4) go False pe by (simp add: parse_loop.simps [of e cap p dest])
      then have "length dest' \<le> cap \<and> (\<exists>a. q = a @ p') \<and> (length dest' < cap \<longrightarrow> peek p' = 0 \<or> peek p' = e)"
        using 1(2) [OF _ False pe [symmetric]] go b(1) 1(3) by simp
      then show ?thesis using b(2) by (metis append.assoc)
    qed
  qed
qed



end
