(* ===== verification/Name_Hash.thy ===== *)
theory Name_Hash
  imports Unicode
begin

text \<open>
  Names that are found through a hash table of chains, as the atom tables and the object namespaces keep them.  The
  interface is a locale: an equivalence on names and a hash that respects it.  It is interpreted for the
  server's strings, equal up to case, with the hash of \<^verbatim>\<open>server/unicode.c\<close>.
\<close>

text \<open>The test both components make: equal length and no difference in lower case.\<close>

definition same_name :: "(nat \<Rightarrow> u16) \<Rightarrow> wchar list \<Rightarrow> wchar list \<Rightarrow> bool" where
  "same_name casemap a b \<longleftrightarrow> length a = length b \<and> memicmp_strW casemap a b (length b) = 0"

lemma same_name_iff: "same_name casemap a b \<longleftrightarrow> map (to_lower casemap) a = map (to_lower casemap) b"
  unfolding same_name_def using memicmp_strW_0 [of a "length b" b casemap] by (metis length_map)

locale hash_chain =
  fixes eqv :: "'k \<Rightarrow> 'k \<Rightarrow> bool" and hash :: "'k \<Rightarrow> nat"
  assumes eqv_refl: "eqv a a" and eqv_sym: "eqv a b \<Longrightarrow> eqv b a" and eqv_trans: "eqv a b \<Longrightarrow> eqv b c \<Longrightarrow> eqv a c"
    and hash_eqv: "eqv a b \<Longrightarrow> hash a = hash b"
begin

text \<open>
  \<open>key i\<close> is the name of entry \<open>i\<close>, if there is one; \<open>chain h\<close> lists the entries of bucket \<open>h\<close>.
\<close>

definition chained :: "('i \<Rightarrow> 'k option) \<Rightarrow> (nat \<Rightarrow> 'i list) \<Rightarrow> bool" where
  "chained key chain \<longleftrightarrow> (\<forall>h i. i \<in> set (chain h) \<longleftrightarrow> (\<exists>k. key i = Some k \<and> hash k = h)) \<and> (\<forall>h. distinct (chain h))"

definition unique_keys :: "('i \<Rightarrow> 'k option) \<Rightarrow> bool" where
  "unique_keys key \<longleftrightarrow> (\<forall>i j a b. key i = Some a \<and> key j = Some b \<and> eqv a b \<longrightarrow> i = j)"

definition matches :: "('i \<Rightarrow> 'k option) \<Rightarrow> 'k \<Rightarrow> 'i \<Rightarrow> bool" where
  "matches key k i \<longleftrightarrow> (case key i of None \<Rightarrow> False | Some a \<Rightarrow> eqv a k)"

text \<open>Searching the bucket of the name finds the entry with that name, wherever it is in the table.\<close>

lemma find_chain:
  assumes "chained key chain" "unique_keys key"
  shows "find (matches key k) (chain (hash k)) = Some i \<longleftrightarrow> (\<exists>a. key i = Some a \<and> eqv a k)"
proof
  assume "find (matches key k) (chain (hash k)) = Some i"
  then have "matches key k i" by (auto simp: find_Some_iff)
  then show "\<exists>a. key i = Some a \<and> eqv a k" by (auto simp: matches_def split: option.splits)
next
  assume "\<exists>a. key i = Some a \<and> eqv a k"
  then obtain a where a: "key i = Some a" "eqv a k" by blast
  then have "i \<in> set (chain (hash k))" using assms(1) hash_eqv [OF a(2)] by (auto simp: chained_def)
  moreover have m: "matches key k i" using a by (simp add: matches_def)
  ultimately obtain j where j: "find (matches key k) (chain (hash k)) = Some j" by (cases "find (matches key k) (chain (hash k))") (auto simp: find_None_iff)
  then have "matches key k j" by (auto simp: find_Some_iff)
  then obtain b where b: "key j = Some b" "eqv b k" by (auto simp: matches_def split: option.splits)
  have "j = i" using assms(2) a b eqv_sym eqv_trans unfolding unique_keys_def by blast
  then show "find (matches key k) (chain (hash k)) = Some i" using j by simp
qed

lemma find_chain_None:
  assumes "chained key chain" "unique_keys key"
  shows "find (matches key k) (chain (hash k)) = None \<longleftrightarrow> (\<forall>i a. key i = Some a \<longrightarrow> \<not> eqv a k)"
proof
  assume "find (matches key k) (chain (hash k)) = None"
  then show "\<forall>i a. key i = Some a \<longrightarrow> \<not> eqv a k" using find_chain [OF assms, of k] by (metis option.distinct(1))
next
  assume "\<forall>i a. key i = Some a \<longrightarrow> \<not> eqv a k"
  then show "find (matches key k) (chain (hash k)) = None" using find_chain [OF assms]
    by (cases "find (matches key k) (chain (hash k))") auto
qed

lemma chained_insert:
  assumes "chained key chain" "key i = None"
  shows "chained (key(i \<mapsto> k)) (chain(hash k := i # chain (hash k)))"
proof -
  have "i \<notin> set (chain h)" for h using assms by (auto simp: chained_def)
  then show ?thesis using assms by (auto simp: chained_def)
qed

lemma chained_delete:
  assumes "chained key chain" "key i = Some k"
  shows "chained (key(i := None)) (chain(hash k := remove1 i (chain (hash k))))"
  using assms by (auto simp: chained_def distinct_remove1)

lemma unique_insert:
  assumes "unique_keys key" "\<forall>i a. key i = Some a \<longrightarrow> \<not> eqv a k"
  shows "unique_keys (key(i \<mapsto> k))"
  using assms unfolding unique_keys_def by (auto split: if_splits dest: eqv_sym)

lemma unique_delete: "unique_keys key \<Longrightarrow> unique_keys (key(i := None))"
  by (auto simp: unique_keys_def split: if_splits)

end

interpretation names: hash_chain "same_name casemap" "\<lambda>s. unat (hash_strW casemap s n)" for casemap n
  by unfold_locales (simp_all add: same_name_iff hash_strW_fold)

end
