(* ===== verification/Atoms.thy ===== *)
theory Atoms
  imports Name_Hash
begin

unbundle bit_operations_syntax

text \<open>
  Atom tables (\<^verbatim>\<open>server/atom.c\<close>): strings with a reference count, numbered from \<^verbatim>\<open>0xc000\<close> and found by name through a
  hash table; names \<^verbatim>\<open>#nnn\<close> stand for integers.

  An entry is named by its index in the table; the chains of the hash table list these indices.  A failed
  allocation is the argument \<open>ok\<close>.
\<close>

section \<open>Tables\<close>

definition HASH_SIZE :: nat where "HASH_SIZE = 37"
definition MIN_STR_ATOM :: nat where "MIN_STR_ATOM = 0xc000"
definition MAX_ATOMS :: nat where "MAX_ATOMS = 0x4000"
definition MAX_ATOM_LEN :: nat where "MAX_ATOM_LEN = 255"
definition MAXINTATOM :: u32 where "MAXINTATOM = 0xc000"

record atom_entry =
  ae_count :: u32
  ae_atom :: u32
  ae_hash :: nat
  ae_str :: "wchar list"

record atom_table =
  at_count :: nat
  at_atoms :: "nat \<Rightarrow> atom_entry option"
  at_entries :: "nat \<Rightarrow> nat list"

definition create_atom_table :: atom_table where
  "create_atom_table = \<lparr>at_count = 1, at_atoms = Map.empty, at_entries = (\<lambda>_. [])\<rparr>"

text \<open>The index of an atom that is in use.\<close>

definition get_atom_entry :: "atom_table \<Rightarrow> u32 \<Rightarrow> (nat \<times> atom_entry) result" where
  "get_atom_entry table atom =
     (if MIN_STR_ATOM \<le> unat atom \<and> unat atom < MIN_STR_ATOM + at_count table
      then case at_atoms table (unat atom - MIN_STR_ATOM) of
             None \<Rightarrow> Inl STATUS_INVALID_HANDLE
           | Some entry \<Rightarrow> Inr (unat atom - MIN_STR_ATOM, entry)
      else Inl STATUS_INVALID_HANDLE)"

text \<open>The first free index from \<open>i\<close> on, at most \<open>at_count\<close>.\<close>

function free_index :: "atom_table \<Rightarrow> nat \<Rightarrow> nat" where
  "free_index table i = (if i < at_count table \<and> at_atoms table i \<noteq> None then free_index table (Suc i) else i)"
  by pat_completeness auto

termination free_index
  by (relation "measure (\<lambda>(table, i). at_count table - i)") auto

declare free_index.simps [simp del]

text \<open>The entry gets its number; \<^const>\<open>None\<close> when the table is full.\<close>

definition add_atom_entry :: "atom_table \<Rightarrow> atom_entry \<Rightarrow> (nat \<times> atom_table) option" where
  "add_atom_entry table entry =
     (let i = free_index table 1
      in if i = MAX_ATOMS then None
         else Some (i, table\<lparr>at_count := (if i = at_count table then at_count table + 1 else at_count table),
                             at_atoms := (at_atoms table)(i \<mapsto> entry\<lparr>ae_atom := of_nat (i + MIN_STR_ATOM)\<rparr>)\<rparr>))"

section \<open>Names\<close>

text \<open>The value of a name \<^verbatim>\<open>#nnn\<close>, 0 if it has not this form or is out of range.\<close>

fun int_atom_digits :: "wchar list \<Rightarrow> u32 \<Rightarrow> u32" where
  "int_atom_digits [] ret = ret"
| "int_atom_digits (c # cs) ret =
     (if c < 0x30 \<or> c > 0x39 then 0
      else let ret' = ret * 10 + ucast c - 0x30 in if ret' \<ge> MAXINTATOM then 0 else int_atom_digits cs ret')"

definition get_int_atom_value :: "wchar list \<Rightarrow> u32" where
  "get_int_atom_value name = (case name of [] \<Rightarrow> 0 | c # cs \<Rightarrow> if c \<noteq> 0x23 then 0 else int_atom_digits cs 0)"

definition entry_matches :: "(nat \<Rightarrow> u16) \<Rightarrow> atom_table \<Rightarrow> wchar list \<Rightarrow> nat \<Rightarrow> bool" where
  "entry_matches casemap table str i =
     (case at_atoms table i of None \<Rightarrow> False | Some entry \<Rightarrow> same_name casemap (ae_str entry) str)"

definition find_atom_entry :: "(nat \<Rightarrow> u16) \<Rightarrow> atom_table \<Rightarrow> wchar list \<Rightarrow> nat \<Rightarrow> (nat \<times> atom_entry) option" where
  "find_atom_entry casemap table str hash =
     (case find (entry_matches casemap table str) (at_entries table hash) of
        None \<Rightarrow> None
      | Some i \<Rightarrow> map_option (Pair i) (at_atoms table i))"

definition atom_hash :: "(nat \<Rightarrow> u16) \<Rightarrow> wchar list \<Rightarrow> nat" where
  "atom_hash casemap str = unat (hash_strW casemap str (of_nat HASH_SIZE))"

text \<open>The checks that adding and finding have in common: the error, the integer atom, or the hash.\<close>

datatype atom_kind = Atom_Error ntstatus | Int_Atom u32 | Str_Atom nat

definition atom_key :: "(nat \<Rightarrow> u16) \<Rightarrow> wchar list \<Rightarrow> atom_kind" where
  "atom_key casemap str =
     (if str = [] then Atom_Error STATUS_OBJECT_NAME_INVALID
      else if length str > MAX_ATOM_LEN then Atom_Error STATUS_INVALID_PARAMETER
      else if get_int_atom_value str \<noteq> 0 then Int_Atom (get_int_atom_value str)
      else Str_Atom (atom_hash casemap str))"

section \<open>Operations\<close>

definition change_count :: "nat \<Rightarrow> (u32 \<Rightarrow> u32) \<Rightarrow> atom_table \<Rightarrow> atom_table" where
  "change_count i f table = table\<lparr>at_atoms := (at_atoms table)(i := map_option (ae_count_update f) (at_atoms table i))\<rparr>"

definition add_atom :: "(nat \<Rightarrow> u16) \<Rightarrow> bool \<Rightarrow> wchar list \<Rightarrow> atom_table \<Rightarrow> u32 result \<times> atom_table" where
  "add_atom casemap ok str table =
     (case atom_key casemap str of
        Atom_Error e \<Rightarrow> (Inl e, table)
      | Int_Atom a \<Rightarrow> (Inr a, table)
      | Str_Atom hash \<Rightarrow>
          (case find_atom_entry casemap table str hash of
             Some (i, entry) \<Rightarrow> (Inr (ae_atom entry), change_count i (\<lambda>n. n + 1) table)
           | None \<Rightarrow>
               if \<not> ok then (Inl STATUS_NO_MEMORY, table)
               else case add_atom_entry table \<lparr>ae_count = 1, ae_atom = 0, ae_hash = hash, ae_str = str\<rparr> of
                      None \<Rightarrow> (Inl STATUS_NO_MEMORY, table)
                    | Some (i, table1) \<Rightarrow>
                        (Inr (of_nat (i + MIN_STR_ATOM)),
                         table1\<lparr>at_entries := (at_entries table1)(hash := i # at_entries table1 hash)\<rparr>)))"

definition delete_atom :: "u32 \<Rightarrow> atom_table \<Rightarrow> unit result \<times> atom_table" where
  "delete_atom atom table =
     (case get_atom_entry table atom of
        Inl e \<Rightarrow> (Inl e, table)
      | Inr (i, entry) \<Rightarrow>
          if ae_count entry - 1 \<noteq> 0 then (Inr (), change_count i (\<lambda>n. n - 1) table)
          else (Inr (),
                table\<lparr>at_entries := (at_entries table)(ae_hash entry := remove1 i (at_entries table (ae_hash entry))),
                      at_atoms := (at_atoms table)(i := None)\<rparr>))"

definition find_atom :: "(nat \<Rightarrow> u16) \<Rightarrow> wchar list \<Rightarrow> atom_table \<Rightarrow> u32 result" where
  "find_atom casemap str table =
     (case atom_key casemap str of
        Atom_Error e \<Rightarrow> Inl e
      | Int_Atom a \<Rightarrow> Inr a
      | Str_Atom hash \<Rightarrow>
          (case find_atom_entry casemap table str hash of
             None \<Rightarrow> Inl STATUS_OBJECT_NAME_NOT_FOUND
           | Some (i, entry) \<Rightarrow> Inr (ae_atom entry)))"

definition grab_atom :: "u32 \<Rightarrow> atom_table \<Rightarrow> u32 result \<times> atom_table" where
  "grab_atom atom table =
     (if unat atom \<ge> MIN_STR_ATOM
      then case get_atom_entry table atom of
             Inl e \<Rightarrow> (Inl e, table)
           | Inr (i, entry) \<Rightarrow> (Inr atom, change_count i (\<lambda>n. n + 1) table)
      else (Inr atom, table))"

definition release_atom :: "u32 \<Rightarrow> atom_table \<Rightarrow> unit result \<times> atom_table" where
  "release_atom atom table = (if unat atom \<ge> MIN_STR_ATOM then delete_atom atom table else (Inr (), table))"

text \<open>
  The reply to a query: the name with the number of its bytes that are sent, its full length in bytes, and the count, which is -1 if there
  is no such atom.
\<close>

definition get_atom_information :: "u32 \<Rightarrow> nat \<Rightarrow> atom_table \<Rightarrow> (wchar list \<times> nat \<times> nat) result \<times> int" where
  "get_atom_information atom max_size table =
     (case get_atom_entry table atom of
        Inl e \<Rightarrow> (Inl e, -1)
      | Inr (i, entry) \<Rightarrow>
          let len = 2 * length (ae_str entry) in (Inr (ae_str entry, min len max_size, len), sint (ae_count entry)))"

definition get_user_atom_name :: "u32 \<Rightarrow> nat \<Rightarrow> atom_table \<Rightarrow> (wchar list \<times> nat \<times> nat) result" where
  "get_user_atom_name atom max_size table =
     (case get_atom_entry table atom of
        Inl e \<Rightarrow> Inl e
      | Inr (i, entry) \<Rightarrow> let len = 2 * length (ae_str entry) in Inr (ae_str entry, min len max_size, len))"

text \<open>The names each table starts with.\<close>

definition add_atom_asciiz :: "(nat \<Rightarrow> u16) \<Rightarrow> string \<Rightarrow> atom_table \<Rightarrow> atom_table" where
  "add_atom_asciiz casemap name table = snd (add_atom casemap True (map (\<lambda>c. of_nat (of_char c)) name) table)"

definition global_atoms :: "string list" where
  "global_atoms = [''StdExit'', ''StdNewDocument'', ''StdOpenDocument'', ''StdEditDocument'', ''StdNewfromTemplate'', ''StdCloseDocument'',
     ''StdShowItem'', ''StdDoVerbItem'', ''System'', ''OLEsystem'', ''StdDocumentName'', ''Protocols'', ''Topics'', ''Formats'', ''Status'',
     ''EditEnvItems'', ''True'', ''False'', ''Change'', ''Save'', ''Close'', ''MSDraw'', ''CC32SubclassInfo'']"

definition set_global_atom_table :: "(nat \<Rightarrow> u16) \<Rightarrow> atom_table \<Rightarrow> atom_table" where
  "set_global_atom_table casemap table = fold (add_atom_asciiz casemap) global_atoms table"

definition user_atoms :: "string list" where
  "user_atoms = [''USER32'', ''ObjectLink'', ''OwnerLink'', ''Native'', ''Binary'', ''FileName'', ''FileNameW'', ''NetworkName'', ''DataObject'',
     ''Embedded Object'', ''Embed Source'', ''Custom Link Source'', ''Link Source'', ''Object Descriptor'', ''Link Source Descriptor'',
     ''OleDraw'', ''PBrush'', ''MSDraw'', ''Ole Private Data'', ''Screen Picture'', ''OleClipboardPersistOnFlush'', ''MoreOlePrivateData'',
     ''Button'', ''Edit'', ''Static'', ''ListBox'', ''ScrollBar'', ''ComboBox'']"

definition set_user_atom_table :: "(nat \<Rightarrow> u16) \<Rightarrow> atom_table \<Rightarrow> atom_table" where
  "set_user_atom_table casemap table = fold (add_atom_asciiz casemap) user_atoms table"

section \<open>The invariant\<close>

abbreviation atom_name :: "atom_table \<Rightarrow> nat \<Rightarrow> wchar list option" where
  "atom_name t i \<equiv> map_option ae_str (at_atoms t i)"

definition entry_wf :: "(nat \<Rightarrow> u16) \<Rightarrow> atom_table \<Rightarrow> nat \<Rightarrow> atom_entry \<Rightarrow> bool" where
  "entry_wf casemap t i e \<longleftrightarrow> 1 \<le> i \<and> i < at_count t \<and> ae_atom e = of_nat (i + MIN_STR_ATOM) \<and> ae_count e \<noteq> 0 \<and>
     atom_key casemap (ae_str e) = Str_Atom (ae_hash e)"

definition atoms_wf :: "(nat \<Rightarrow> u16) \<Rightarrow> atom_table \<Rightarrow> bool" where
  "atoms_wf casemap t \<longleftrightarrow> 1 \<le> at_count t \<and> at_count t \<le> MAX_ATOMS \<and>
     (\<forall>i e. at_atoms t i = Some e \<longrightarrow> entry_wf casemap t i e) \<and>
     names.chained casemap (of_nat HASH_SIZE) (atom_name t) (at_entries t) \<and> names.unique_keys casemap (atom_name t)"

lemma atom_key_hash: "atom_key casemap str = Str_Atom h \<Longrightarrow> h = atom_hash casemap str"
  by (auto simp: atom_key_def split: if_splits)

lemma atom_key_same: "atom_key casemap a = Str_Atom h \<Longrightarrow> atom_key casemap b = Str_Atom h' \<Longrightarrow> same_name casemap a b \<Longrightarrow> h = h'"
  using names.hash_eqv [of casemap a b "of_nat HASH_SIZE"] atom_key_hash by (auto simp: atom_hash_def)

lemma create_wf: "atoms_wf casemap create_atom_table"
  by (simp add: atoms_wf_def create_atom_table_def MAX_ATOMS_def names.chained_def names.unique_keys_def)

lemma find_atom_entry_Some:
  assumes wf: "atoms_wf casemap t"
  shows "find_atom_entry casemap t str (atom_hash casemap str) = Some (i, e) \<longleftrightarrow> at_atoms t i = Some e \<and> same_name casemap (ae_str e) str"
proof -
  have m: "entry_matches casemap t str = names.matches casemap (atom_name t) str"
    by (auto simp: entry_matches_def names.matches_def fun_eq_iff split: option.split)
  have "find (entry_matches casemap t str) (at_entries t (atom_hash casemap str)) = Some i \<longleftrightarrow>
      (\<exists>a. atom_name t i = Some a \<and> same_name casemap a str)" for i
    unfolding m atom_hash_def by (rule names.find_chain) (use wf in \<open>auto simp: atoms_wf_def\<close>)
  then have "find (entry_matches casemap t str) (at_entries t (atom_hash casemap str)) = Some i \<longleftrightarrow>
      (\<exists>e. at_atoms t i = Some e \<and> same_name casemap (ae_str e) str)" for i by auto
  moreover have "find_atom_entry casemap t str (atom_hash casemap str) = Some (i, e) \<longleftrightarrow>
      find (entry_matches casemap t str) (at_entries t (atom_hash casemap str)) = Some i \<and> at_atoms t i = Some e"
    by (auto simp: find_atom_entry_def split: option.splits)
  ultimately show ?thesis by auto
qed

lemma find_atom_entry_None:
  assumes wf: "atoms_wf casemap t"
  shows "find_atom_entry casemap t str (atom_hash casemap str) = None \<longleftrightarrow>
    (\<forall>i e. at_atoms t i = Some e \<longrightarrow> \<not> same_name casemap (ae_str e) str)"
  using find_atom_entry_Some [OF wf] by (metis not_None_eq surj_pair)

lemma free_index_spec:
  assumes "i \<le> at_count t"
  shows "i \<le> free_index t i \<and> free_index t i \<le> at_count t \<and> (\<forall>j. i \<le> j \<and> j < free_index t i \<longrightarrow> at_atoms t j \<noteq> None) \<and>
    (free_index t i < at_count t \<longrightarrow> at_atoms t (free_index t i) = None)"
  using assms
proof (induction t i rule: free_index.induct)
  case (1 t i)
  show ?case
  proof (cases "i < at_count t \<and> at_atoms t i \<noteq> None")
    case True
    have e: "free_index t i = free_index t (Suc i)" using True by (subst free_index.simps) simp
    have I: "Suc i \<le> free_index t (Suc i) \<and> free_index t (Suc i) \<le> at_count t \<and>
      (\<forall>j. Suc i \<le> j \<and> j < free_index t (Suc i) \<longrightarrow> at_atoms t j \<noteq> None) \<and>
      (free_index t (Suc i) < at_count t \<longrightarrow> at_atoms t (free_index t (Suc i)) = None)" using 1 True by simp
    have "at_atoms t j \<noteq> None" if "i \<le> j" "j < free_index t (Suc i)" for j using I True that by (cases "j = i") auto
    then show ?thesis unfolding e using I by (metis Suc_leD)
  next
    case False
    then have "free_index t i = i" by (subst free_index.simps) auto
    then show ?thesis using 1(2) False by auto
  qed
qed

section \<open>Atoms as a map\<close>

text \<open>What a client sees: the name and the count of every atom in use.\<close>

definition atom_map :: "atom_table \<Rightarrow> u32 \<Rightarrow> (wchar list \<times> nat) option" where
  "atom_map t a = (case get_atom_entry t a of Inl _ \<Rightarrow> None | Inr (i, e) \<Rightarrow> Some (ae_str e, unat (ae_count e)))"

lemma get_atom_entry_Inr:
  assumes "atoms_wf casemap t"
  shows "get_atom_entry t a = Inr (i, e) \<longleftrightarrow> unat a = i + MIN_STR_ATOM \<and> at_atoms t i = Some e"
proof
  assume "get_atom_entry t a = Inr (i, e)"
  then show "unat a = i + MIN_STR_ATOM \<and> at_atoms t i = Some e" by (auto simp: get_atom_entry_def split: if_splits option.splits)
next
  assume r: "unat a = i + MIN_STR_ATOM \<and> at_atoms t i = Some e"
  then have "entry_wf casemap t i e" using assms by (simp add: atoms_wf_def)
  then show "get_atom_entry t a = Inr (i, e)" using r by (auto simp: get_atom_entry_def entry_wf_def)
qed

lemma atom_map_Some:
  assumes "atoms_wf casemap t"
  shows "atom_map t a = Some (n, c) \<longleftrightarrow>
    (\<exists>e. MIN_STR_ATOM \<le> unat a \<and> at_atoms t (unat a - MIN_STR_ATOM) = Some e \<and> n = ae_str e \<and> c = unat (ae_count e))"
proof
  assume "atom_map t a = Some (n, c)"
  then show "\<exists>e. MIN_STR_ATOM \<le> unat a \<and> at_atoms t (unat a - MIN_STR_ATOM) = Some e \<and> n = ae_str e \<and> c = unat (ae_count e)"
    by (auto simp: atom_map_def get_atom_entry_def split: sum.splits prod.splits if_splits option.splits)
next
  assume "\<exists>e. MIN_STR_ATOM \<le> unat a \<and> at_atoms t (unat a - MIN_STR_ATOM) = Some e \<and> n = ae_str e \<and> c = unat (ae_count e)"
  then show "atom_map t a = Some (n, c)" using get_atom_entry_Inr [OF assms, of a "unat a - MIN_STR_ATOM"] by (force simp: atom_map_def)
qed

lemma create_map: "atom_map create_atom_table = Map.empty"
  by (simp add: fun_eq_iff atom_map_def get_atom_entry_def create_atom_table_def)

lemma atom_map_entry:
  assumes wf: "atoms_wf casemap t" and e: "at_atoms t i = Some e"
  shows "unat (ae_atom e) = i + MIN_STR_ATOM" "atom_map t (ae_atom e) = Some (ae_str e, unat (ae_count e))"
proof -
  have w: "entry_wf casemap t i e" using wf e by (simp add: atoms_wf_def)
  have "i < 0x4000" using w wf by (simp add: entry_wf_def atoms_wf_def MAX_ATOMS_def)
  then show u: "unat (ae_atom e) = i + MIN_STR_ATOM"
    using w by (simp add: entry_wf_def MIN_STR_ATOM_def unat_of_nat take_bit_nat_eq_self del: of_nat_add)
  show "atom_map t (ae_atom e) = Some (ae_str e, unat (ae_count e))" using u e by (simp add: atom_map_Some [OF wf])
qed

text \<open>The map follows the table: a table that differs in one entry gives a map that differs in one atom.\<close>

lemma atom_map_upd:
  assumes "atoms_wf casemap t" "atoms_wf casemap t'" "at_atoms t' = (at_atoms t)(i := x)" "unat a = i + MIN_STR_ATOM"
  shows "atom_map t' = (atom_map t)(a := map_option (\<lambda>e. (ae_str e, unat (ae_count e))) x)"
proof
  fix b
  have r: "atom_map s b = (if MIN_STR_ATOM \<le> unat b
      then map_option (\<lambda>e. (ae_str e, unat (ae_count e))) (at_atoms s (unat b - MIN_STR_ATOM)) else None)"
    if "atoms_wf casemap s" for s
    using atom_map_Some [OF that, of b] by (cases "atom_map s b"; cases "at_atoms s (unat b - MIN_STR_ATOM)") auto
  have "unat b - MIN_STR_ATOM = i \<and> MIN_STR_ATOM \<le> unat b \<longleftrightarrow> b = a" using assms(4) by (auto simp: word_unat_eq_iff)
  then show "atom_map t' b = ((atom_map t)(a := map_option (\<lambda>e. (ae_str e, unat (ae_count e))) x)) b"
    using assms(4) by (auto simp: r [OF assms(1)] r [OF assms(2)] assms(3))
qed

lemma change_count_wf:
  assumes wf: "atoms_wf casemap t" and f: "\<And>e. at_atoms t i = Some e \<Longrightarrow> f (ae_count e) \<noteq> 0"
  shows "atoms_wf casemap (change_count i f t)"
proof -
  have "atom_name (change_count i f t) = atom_name t" by (auto simp: change_count_def fun_eq_iff option.map_comp o_def)
  moreover have "entry_wf casemap (change_count i f t) j e" if "at_atoms (change_count i f t) j = Some e" for j e
    using that wf f by (auto simp: change_count_def atoms_wf_def entry_wf_def split: if_splits)
  ultimately show ?thesis using wf by (simp add: atoms_wf_def) (simp add: change_count_def)
qed

lemma change_count_map:
  assumes "atoms_wf casemap t" "at_atoms t i = Some e" "f (ae_count e) \<noteq> 0"
  shows "atom_map (change_count i f t) = (atom_map t)(ae_atom e \<mapsto> (ae_str e, unat (f (ae_count e))))"
proof -
  have "atoms_wf casemap (change_count i f t)" using assms by (intro change_count_wf) auto
  then show ?thesis using atom_map_upd [OF assms(1) _ _ atom_map_entry(1) [OF assms(1,2)], of "change_count i f t" "Some (ae_count_update f e)"]
    assms(2) by (simp add: change_count_def)
qed

lemma add_entry_wf:
  assumes wf: "atoms_wf casemap t" and k: "atom_key casemap str = Str_Atom h"
    and new: "\<forall>i e. at_atoms t i = Some e \<longrightarrow> \<not> same_name casemap (ae_str e) str"
    and i: "1 \<le> i" "i \<le> at_count t" "i < MAX_ATOMS" "at_atoms t i = None"
    and t': "t' = t\<lparr>at_count := (if i = at_count t then at_count t + 1 else at_count t),
      at_atoms := (at_atoms t)(i \<mapsto> \<lparr>ae_count = 1, ae_atom = of_nat (i + MIN_STR_ATOM), ae_hash = h, ae_str = str\<rparr>),
      at_entries := (at_entries t)(h := i # at_entries t h)\<rparr>"
  shows "atoms_wf casemap t'"
proof -
  have n: "atom_name t' = (atom_name t)(i \<mapsto> str)" by (auto simp: t' fun_eq_iff)
  have h: "h = unat (hash_strW casemap str (of_nat HASH_SIZE))" using atom_key_hash [OF k] by (simp add: atom_hash_def)
  have c: "names.chained casemap (of_nat HASH_SIZE) (atom_name t') (at_entries t')"
    unfolding n using names.chained_insert [of casemap "of_nat HASH_SIZE" "atom_name t" "at_entries t" i str] wf i(4) by (simp add: t' h atoms_wf_def)
  have u: "names.unique_keys casemap (atom_name t')" unfolding n by (rule names.unique_insert) (use wf new in \<open>auto simp: atoms_wf_def\<close>)
  have "entry_wf casemap t' j e" if "at_atoms t' j = Some e" for j e
    using that wf i k by (auto simp: t' atoms_wf_def entry_wf_def less_Suc_eq split: if_splits)
  then show ?thesis using c u wf i by (simp add: atoms_wf_def) (simp add: t')
qed

lemma delete_entry_wf:
  assumes wf: "atoms_wf casemap t" and e: "at_atoms t i = Some e"
    and t': "t' = t\<lparr>at_entries := (at_entries t)(ae_hash e := remove1 i (at_entries t (ae_hash e))), at_atoms := (at_atoms t)(i := None)\<rparr>"
  shows "atoms_wf casemap t'"
proof -
  have n: "atom_name t' = (atom_name t)(i := None)" by (auto simp: t' fun_eq_iff)
  have "entry_wf casemap t i e" using wf e by (simp add: atoms_wf_def)
  then have h: "ae_hash e = unat (hash_strW casemap (ae_str e) (of_nat HASH_SIZE))" using atom_key_hash by (simp add: entry_wf_def atom_hash_def)
  have c: "names.chained casemap (of_nat HASH_SIZE) (atom_name t') (at_entries t')"
    unfolding n using names.chained_delete [of casemap "of_nat HASH_SIZE" "atom_name t" "at_entries t" i "ae_str e"] wf e by (simp add: t' h atoms_wf_def)
  have u: "names.unique_keys casemap (atom_name t')" unfolding n by (rule names.unique_delete) (use wf in \<open>simp add: atoms_wf_def\<close>)
  have "entry_wf casemap t' j e" if "at_atoms t' j = Some e" for j e
    using that wf by (auto simp: t' atoms_wf_def entry_wf_def split: if_splits)
  then show ?thesis using c u wf by (simp add: atoms_wf_def) (simp add: t')
qed

section \<open>Correctness\<close>

definition string_atom :: "u32 \<Rightarrow> bool" where
  "string_atom a \<longleftrightarrow> 0xc001 \<le> a \<and> a \<le> 0xffff"

lemma string_atom_iff: "string_atom a \<longleftrightarrow> MIN_STR_ATOM < unat a \<and> unat a < MIN_STR_ATOM + MAX_ATOMS"
  by (auto simp: string_atom_def MIN_STR_ATOM_def MAX_ATOMS_def word_le_nat_alt)

lemma atom_map_string: "atoms_wf casemap t \<Longrightarrow> atom_map t a = Some (n, c) \<Longrightarrow> string_atom a \<and> c \<noteq> 0"
proof -
  assume wf: "atoms_wf casemap t" and "atom_map t a = Some (n, c)"
  then obtain e where e: "MIN_STR_ATOM \<le> unat a" "at_atoms t (unat a - MIN_STR_ATOM) = Some e" "c = unat (ae_count e)"
    by (auto simp: atom_map_Some)
  then have "entry_wf casemap t (unat a - MIN_STR_ATOM) e" using wf by (simp add: atoms_wf_def)
  moreover have "at_count t \<le> MAX_ATOMS" using wf by (simp add: atoms_wf_def)
  ultimately show ?thesis using e by (simp add: string_atom_iff entry_wf_def unat_eq_0) linarith
qed

lemma atom_map_None:
  assumes wf: "atoms_wf casemap t" and "MIN_STR_ATOM \<le> unat a"
  shows "atom_map t a = None \<longleftrightarrow> at_atoms t (unat a - MIN_STR_ATOM) = None"
  using atom_map_Some [OF wf, of a] assms(2) by (cases "atom_map t a"; cases "at_atoms t (unat a - MIN_STR_ATOM)") auto

lemma add_atom_entry_free:
  assumes wf: "atoms_wf casemap t" and r: "add_atom_entry t entry = Some (i, t1)"
  shows "1 \<le> i" "i \<le> at_count t" "i < MAX_ATOMS" "at_atoms t i = None" "\<forall>j. 1 \<le> j \<and> j < i \<longrightarrow> at_atoms t j \<noteq> None"
    "t1 = t\<lparr>at_count := (if i = at_count t then at_count t + 1 else at_count t),
      at_atoms := (at_atoms t)(i \<mapsto> entry\<lparr>ae_atom := of_nat (i + MIN_STR_ATOM)\<rparr>)\<rparr>"
proof -
  have c: "1 \<le> at_count t" "at_count t \<le> MAX_ATOMS" using wf by (auto simp: atoms_wf_def)
  have i: "i = free_index t 1" "i \<noteq> MAX_ATOMS" using r by (auto simp: add_atom_entry_def Let_def split: if_splits)
  note F = free_index_spec [OF c(1), folded i(1)]
  show "1 \<le> i" "i \<le> at_count t" "i < MAX_ATOMS" "\<forall>j. 1 \<le> j \<and> j < i \<longrightarrow> at_atoms t j \<noteq> None" using F c i(2) by auto
  show "at_atoms t i = None"
  proof (cases "at_atoms t i")
    case (Some e)
    then have "i < at_count t" using wf by (auto simp: atoms_wf_def entry_wf_def)
    then show ?thesis using F by simp
  qed
  show "t1 = t\<lparr>at_count := (if i = at_count t then at_count t + 1 else at_count t),
      at_atoms := (at_atoms t)(i \<mapsto> entry\<lparr>ae_atom := of_nat (i + MIN_STR_ATOM)\<rparr>)\<rparr>"
    using r i by (auto simp: add_atom_entry_def Let_def split: if_splits)
qed

lemma add_atom_entry_full:
  assumes wf: "atoms_wf casemap t" and r: "add_atom_entry t entry = None" and a: "string_atom a"
  shows "atom_map t a \<noteq> None"
proof -
  have c: "1 \<le> at_count t" using wf by (simp add: atoms_wf_def)
  have "free_index t 1 = MAX_ATOMS" using r by (auto simp: add_atom_entry_def Let_def split: if_splits)
  then have "at_atoms t j \<noteq> None" if "1 \<le> j" "j < MAX_ATOMS" for j using free_index_spec [OF c] that by auto
  then show ?thesis using a by (auto simp: atom_map_None [OF wf] string_atom_iff)
qed

lemma add_atom_entry_map:
  assumes wf: "atoms_wf casemap t" and k: "atom_key casemap str = Str_Atom h"
    and new: "\<forall>i e. at_atoms t i = Some e \<longrightarrow> \<not> same_name casemap (ae_str e) str"
    and r: "add_atom_entry t \<lparr>ae_count = 1, ae_atom = 0, ae_hash = h, ae_str = str\<rparr> = Some (i, t1)"
    and t': "t' = t1\<lparr>at_entries := (at_entries t1)(h := i # at_entries t1 h)\<rparr>" and a: "a = of_nat (i + MIN_STR_ATOM)"
  shows "atoms_wf casemap t'" "atom_map t' = (atom_map t)(a \<mapsto> (str, 1))" "string_atom a" "atom_map t a = None"
    "\<forall>b. string_atom b \<and> b < a \<longrightarrow> atom_map t b \<noteq> None"
proof -
  note E = add_atom_entry_free [OF wf r]
  show wf': "atoms_wf casemap t'" using E by (intro add_entry_wf [OF wf k new E(1-4)]) (simp add: t')
  have u: "unat a = i + MIN_STR_ATOM" using E(3)
    by (simp add: a MIN_STR_ATOM_def MAX_ATOMS_def unat_of_nat take_bit_nat_eq_self del: of_nat_add)
  show "atom_map t' = (atom_map t)(a \<mapsto> (str, 1))" using atom_map_upd [OF wf wf' _ u] E(6) by (simp add: t')
  show "string_atom a" using E(1,3) u by (simp add: string_atom_iff)
  show "atom_map t a = None" using E(4) u by (simp add: atom_map_None [OF wf])
  show "\<forall>b. string_atom b \<and> b < a \<longrightarrow> atom_map t b \<noteq> None"
  proof (intro allI impI)
    fix b
    assume "string_atom b \<and> b < a"
    then have b: "MIN_STR_ATOM < unat b" "unat b < i + MIN_STR_ATOM" using u by (auto simp: string_atom_iff word_less_nat_alt)
    then have "1 \<le> unat b - MIN_STR_ATOM" "unat b - MIN_STR_ATOM < i" by linarith+
    then show "atom_map t b \<noteq> None" using E(5) b by (simp add: atom_map_None [OF wf])
  qed
qed

lemma string_atom_c001: "string_atom 0xc001"
  by (simp add: string_atom_def)

lemma atom_key_A: "atom_key casemap [0x41] = Str_Atom (atom_hash casemap [0x41])"
  by (simp add: atom_key_def get_int_atom_value_def MAX_ATOM_LEN_def)

text \<open>A name is in the map if an atom has it, in whatever case.\<close>

definition atom_named :: "(nat \<Rightarrow> u16) \<Rightarrow> atom_table \<Rightarrow> wchar list \<Rightarrow> u32 \<Rightarrow> wchar list \<Rightarrow> nat \<Rightarrow> bool" where
  "atom_named casemap t str a n c \<longleftrightarrow> atom_map t a = Some (n, c) \<and> same_name casemap n str"

lemma atom_named_entry:
  assumes wf: "atoms_wf casemap t"
  shows "atom_named casemap t str a n c \<longleftrightarrow>
    (\<exists>i e. at_atoms t i = Some e \<and> same_name casemap (ae_str e) str \<and> a = ae_atom e \<and> n = ae_str e \<and> c = unat (ae_count e))"
proof
  assume "atom_named casemap t str a n c"
  then obtain e where e: "MIN_STR_ATOM \<le> unat a" "at_atoms t (unat a - MIN_STR_ATOM) = Some e" "n = ae_str e" "c = unat (ae_count e)"
    "same_name casemap n str" by (auto simp: atom_named_def atom_map_Some [OF wf])
  have "a = ae_atom e" using atom_map_entry(1) [OF wf e(2)] e(1) by (simp add: word_unat_eq_iff)
  then show "\<exists>i e. at_atoms t i = Some e \<and> same_name casemap (ae_str e) str \<and> a = ae_atom e \<and> n = ae_str e \<and> c = unat (ae_count e)" using e by blast
next
  assume "\<exists>i e. at_atoms t i = Some e \<and> same_name casemap (ae_str e) str \<and> a = ae_atom e \<and> n = ae_str e \<and> c = unat (ae_count e)"
  then show "atom_named casemap t str a n c" using atom_map_entry(2) [OF wf] by (auto simp: atom_named_def)
qed

lemma find_named:
  assumes wf: "atoms_wf casemap t" and k: "atom_key casemap str = Str_Atom h"
  shows "find_atom_entry casemap t str h = Some (i, e) \<Longrightarrow>
      at_atoms t i = Some e \<and> atom_named casemap t str (ae_atom e) (ae_str e) (unat (ae_count e))"
    and "find_atom_entry casemap t str h = None \<longleftrightarrow> (\<forall>a n c. \<not> atom_named casemap t str a n c)"
  unfolding atom_key_hash [OF k] atom_named_entry [OF wf] find_atom_entry_Some [OF wf] find_atom_entry_None [OF wf] by auto

lemma add_atom_spec:
  assumes wf: "atoms_wf casemap t" and small: "\<forall>a n c. atom_map t a = Some (n, c) \<longrightarrow> c + 1 < 2 ^ 32"
    and r: "add_atom casemap ok str t = (res, t')"
  shows "atoms_wf casemap t' \<and>
    (case atom_key casemap str of
       Atom_Error e \<Rightarrow> res = Inl e \<and> t' = t
     | Int_Atom a \<Rightarrow> res = Inr a \<and> t' = t
     | Str_Atom h \<Rightarrow>
         (\<exists>a n c. atom_named casemap t str a n c \<and> res = Inr a \<and> atom_map t' = (atom_map t)(a \<mapsto> (n, c + 1))) \<or>
         (\<forall>a n c. \<not> atom_named casemap t str a n c) \<and>
           (if ok \<and> (\<exists>a. string_atom a \<and> atom_map t a = None)
            then \<exists>a. string_atom a \<and> atom_map t a = None \<and> (\<forall>b. string_atom b \<and> b < a \<longrightarrow> atom_map t b \<noteq> None) \<and>
                   res = Inr a \<and> atom_map t' = (atom_map t)(a \<mapsto> (str, 1))
            else res = Inl STATUS_NO_MEMORY \<and> t' = t))"
proof (cases "atom_key casemap str")
  case (Str_Atom h)
  show ?thesis
  proof (cases "find_atom_entry casemap t str h")
    case (Some p)
    obtain i e where p: "p = (i, e)" by (cases p)
    note F = find_named(1) [OF wf Str_Atom, of i e]
    have F1: "at_atoms t i = Some e" "atom_named casemap t str (ae_atom e) (ae_str e) (unat (ae_count e))" using F Some p by auto
    have s: "unat (ae_count e) + 1 < 2 ^ 32" using small F1(2) by (auto simp: atom_named_def)
    then have u: "unat (ae_count e + 1) = unat (ae_count e) + 1" by (simp add: unat_word_ariths)
    then have nz: "ae_count e + 1 \<noteq> 0" by (metis add_eq_0_iff_both_eq_0 unat_0 zero_neq_one)
    have res: "res = Inr (ae_atom e)" "t' = change_count i (\<lambda>n. n + 1) t" using r Str_Atom Some p by (auto simp: add_atom_def)
    have w: "atoms_wf casemap t'" unfolding res(2) by (rule change_count_wf [OF wf]) (use F1(1) nz in auto)
    have m: "atom_map t' = (atom_map t)(ae_atom e \<mapsto> (ae_str e, unat (ae_count e) + 1))"
      using change_count_map [OF wf F1(1), of "\<lambda>n. n + 1"] nz u by (simp add: res)
    show ?thesis using w m res(1) F1(2) Str_Atom by auto
  next
    case None
    then have new: "\<forall>a n c. \<not> atom_named casemap t str a n c" using find_named(2) [OF wf Str_Atom] by blast
    have new': "\<forall>i e. at_atoms t i = Some e \<longrightarrow> \<not> same_name casemap (ae_str e) str" using new by (auto simp: atom_named_entry [OF wf])
    let ?e = "\<lparr>ae_count = 1, ae_atom = 0, ae_hash = h, ae_str = str\<rparr>"
    consider "\<not> ok" | "ok" "add_atom_entry t ?e = None" | i t1 where "ok" "add_atom_entry t ?e = Some (i, t1)"
      by (cases "add_atom_entry t ?e") auto
    then show ?thesis
    proof cases
      case 1
      then show ?thesis using r Str_Atom None wf new by (simp add: add_atom_def)
    next
      case 2
      then have "res = Inl STATUS_NO_MEMORY" "t' = t" using r Str_Atom None by (auto simp: add_atom_def)
      then show ?thesis using Str_Atom wf new add_atom_entry_full [OF wf 2(2)] by auto
    next
      case 3
      then have res: "res = Inr (of_nat (i + MIN_STR_ATOM))" "t' = t1\<lparr>at_entries := (at_entries t1)(h := i # at_entries t1 h)\<rparr>"
        using r Str_Atom None by (auto simp: add_atom_def)
      note A = add_atom_entry_map [OF wf Str_Atom new' 3(2) res(2) refl]
      show ?thesis using A new 3(1) Str_Atom res(1) by auto
    qed
  qed
qed (use r wf in \<open>auto simp: add_atom_def\<close>)

text \<open>
  C9: Adding a string to an atom table refines adding it to a map of atoms to names and counts.  An empty or too long name is
  refused and a name \<^verbatim>\<open>#nnn\<close> is its integer, with the table unchanged.  A name the table has, in whatever case, gives its
  atom with the count increased.  A new name gets the lowest free atom from \<^verbatim>\<open>0xc001\<close> on with count 1, and is refused exactly
  when memory or atoms have run out.  The table stays well-formed.  (The count is assumed not to be at the limit of its 32 bits.)
\<close>

theorem add_atom_refines:
  assumes wf: "atoms_wf casemap t" and small: "\<forall>a n c. atom_map t a = Some (n, c) \<longrightarrow> c + 1 < 2 ^ 32"
    and r: "add_atom casemap ok str t = (res, t')"
  shows "atoms_wf casemap t' \<and>
    (case atom_key casemap str of
       Atom_Error e \<Rightarrow> res = Inl e \<and> t' = t
     | Int_Atom a \<Rightarrow> res = Inr a \<and> t' = t
     | Str_Atom h \<Rightarrow>
         (\<exists>a n c. atom_named casemap t str a n c \<and> res = Inr a \<and> atom_map t' = (atom_map t)(a \<mapsto> (n, c + 1))) \<or>
         (\<forall>a n c. \<not> atom_named casemap t str a n c) \<and>
           (if ok \<and> (\<exists>a. string_atom a \<and> atom_map t a = None)
            then \<exists>a. string_atom a \<and> atom_map t a = None \<and> (\<forall>b. string_atom b \<and> b < a \<longrightarrow> atom_map t b \<noteq> None) \<and>
                   res = Inr a \<and> atom_map t' = (atom_map t)(a \<mapsto> (str, 1))
            else res = Inl STATUS_NO_MEMORY \<and> t' = t))"
  using assms by (rule add_atom_spec)

theorem add_atom_refines_witness:
  "atoms_wf (\<lambda>_. 0) (snd (add_atom (\<lambda>_. 0) True [0x41] create_atom_table)) \<and>
   fst (add_atom (\<lambda>_. 0) True [0x41] create_atom_table) = Inr 0xc001"
proof -
  have small: "\<forall>a n c. atom_map create_atom_table a = Some (n, c) \<longrightarrow> c + 1 < 2 ^ 32" by (simp only: create_map) simp
  note W = add_atom_refines [OF create_wf small surjective_pairing, of "\<lambda>_. 0" True "[0x41]"]
  have "atom_key (\<lambda>_. 0) [0x41] = Str_Atom (atom_hash (\<lambda>_. 0) [0x41])" by (simp add: atom_key_A)
  then obtain a where a: "string_atom a" "\<forall>b. \<not> (string_atom b \<and> b < a)" "fst (add_atom (\<lambda>_. 0) True [0x41] create_atom_table) = Inr a"
    using W exI [of string_atom, OF string_atom_c001] by (auto simp: create_map atom_named_def split: if_splits)
  have "\<not> (0xc001 :: u32) < a" using a(2) string_atom_c001 by blast
  then have "a = 0xc001" using a(1) unfolding string_atom_def by (meson leI order_antisym)
  then show ?thesis using W a(3) by simp
qed

lemma delete_atom_unknown:
  assumes "atoms_wf casemap t" "atom_map t a = None"
  shows "delete_atom a t = (Inl STATUS_INVALID_HANDLE, t)"
  using assms(2) by (auto simp: atom_map_def delete_atom_def get_atom_entry_def split: if_splits option.splits)

lemma delete_atom_known:
  assumes wf: "atoms_wf casemap t" and a: "atom_map t a = Some (n, c)"
  shows "\<exists>t'. delete_atom a t = (Inr (), t') \<and> atoms_wf casemap t' \<and>
    atom_map t' = (if c = 1 then (atom_map t)(a := None) else (atom_map t)(a \<mapsto> (n, c - 1)))"
proof -
  obtain e where e: "MIN_STR_ATOM \<le> unat a" "at_atoms t (unat a - MIN_STR_ATOM) = Some e" "n = ae_str e" "c = unat (ae_count e)"
    using a by (auto simp: atom_map_Some [OF wf])
  let ?i = "unat a - MIN_STR_ATOM"
  have g: "get_atom_entry t a = Inr (?i, e)" using e by (simp add: get_atom_entry_Inr [OF wf])
  have ea: "ae_atom e = a" using atom_map_entry(1) [OF wf e(2)] e(1) by (simp add: word_unat_eq_iff)
  have c0: "ae_count e \<noteq> 0" using wf e(2) by (auto simp: atoms_wf_def entry_wf_def)
  show ?thesis
  proof (cases "ae_count e = 1")
    case True
    let ?t = "t\<lparr>at_entries := (at_entries t)(ae_hash e := remove1 ?i (at_entries t (ae_hash e))), at_atoms := (at_atoms t)(?i := None)\<rparr>"
    have w: "atoms_wf casemap ?t" by (rule delete_entry_wf [OF wf e(2) refl])
    have "atom_map ?t = (atom_map t)(a := None)" using atom_map_upd [OF wf w, of ?i None a] e(1) by simp
    then show ?thesis using w True g e(4) by (simp add: delete_atom_def)
  next
    case False
    then have nz: "ae_count e - 1 \<noteq> 0" by simp
    have u: "unat (ae_count e - 1) = unat (ae_count e) - 1" using c0 by (simp add: unat_minus_one)
    have "c \<noteq> 1" using False e(4) by (metis unat_1 word_unat_eq_iff)
    moreover have "atoms_wf casemap (change_count ?i (\<lambda>n. n - 1) t)" by (rule change_count_wf [OF wf]) (use e(2) nz in auto)
    moreover have "atom_map (change_count ?i (\<lambda>n. n - 1) t) = (atom_map t)(a \<mapsto> (n, c - 1))"
      using change_count_map [OF wf e(2), of "\<lambda>n. n - 1"] nz u e(3,4) ea by simp
    ultimately show ?thesis using g nz by (simp add: delete_atom_def)
  qed
qed

lemma find_atom_named:
  assumes wf: "atoms_wf casemap t" and k: "atom_key casemap str = Str_Atom h" and n: "atom_named casemap t str a n c"
  shows "find_atom casemap str t = Inr a"
proof -
  obtain i e where e: "at_atoms t i = Some e" "same_name casemap (ae_str e) str" "a = ae_atom e" using n by (auto simp: atom_named_entry [OF wf])
  have "find_atom_entry casemap t str h = Some (i, e)" using e by (simp add: atom_key_hash [OF k] find_atom_entry_Some [OF wf])
  then show ?thesis using k e(3) by (simp add: find_atom_def)
qed

text \<open>
  C22: Adding an atom and deleting it again leaves every atom with the name and the count it had; in between the atom is found under its
  name in every spelling that differs only in case.  Deleting an atom that is not in use is an error and changes nothing.
\<close>

theorem add_delete_atom:
  assumes wf: "atoms_wf casemap t" and small: "\<forall>a n c. atom_map t a = Some (n, c) \<longrightarrow> c + 1 < 2 ^ 32"
    and k: "atom_key casemap str = Str_Atom h" and r: "add_atom casemap ok str t = (Inr a, t1)"
  shows "(\<exists>t2. delete_atom a t1 = (Inr (), t2) \<and> atoms_wf casemap t2 \<and> atom_map t2 = atom_map t) \<and>
    (\<forall>str' h'. same_name casemap str str' \<longrightarrow> atom_key casemap str' = Str_Atom h' \<longrightarrow> find_atom casemap str' t1 = Inr a) \<and>
    (\<forall>b. atom_map t1 b = None \<longrightarrow> delete_atom b t1 = (Inl STATUS_INVALID_HANDLE, t1))"
proof -
  have S: "atoms_wf casemap t1 \<and> ((\<exists>n c. atom_named casemap t str a n c \<and> atom_map t1 = (atom_map t)(a \<mapsto> (n, c + 1))) \<or>
      atom_map t a = None \<and> atom_map t1 = (atom_map t)(a \<mapsto> (str, 1)))"
    using add_atom_spec [OF wf small r] k by (auto split: if_splits)
  then have wf1: "atoms_wf casemap t1" by blast
  have "\<exists>n c. atom_map t1 a = Some (n, c) \<and> same_name casemap n str \<and>
      (if c = 1 then (atom_map t1)(a := None) else (atom_map t1)(a \<mapsto> (n, c - 1))) = atom_map t"
    using S
  proof (elim conjE disjE exE)
    fix n c
    assume n: "atom_named casemap t str a n c" and m: "atom_map t1 = (atom_map t)(a \<mapsto> (n, c + 1))"
    have "c \<noteq> 0" using n atom_map_string [OF wf] by (auto simp: atom_named_def)
    then show ?thesis using n m by (auto simp: atom_named_def fun_eq_iff)
  next
    assume "atom_map t a = None" "atom_map t1 = (atom_map t)(a \<mapsto> (str, 1))"
    then show ?thesis by (auto simp: fun_eq_iff same_name_iff)
  qed
  then obtain n c where n: "atom_map t1 a = Some (n, c)" "same_name casemap n str"
    "(if c = 1 then (atom_map t1)(a := None) else (atom_map t1)(a \<mapsto> (n, c - 1))) = atom_map t" by blast
  have "find_atom casemap str' t1 = Inr a" if "same_name casemap str str'" "atom_key casemap str' = Str_Atom h'" for str' h'
    by (rule find_atom_named [OF wf1 that(2), of a n c]) (use n that(1) in \<open>simp add: atom_named_def same_name_iff\<close>)
  then show ?thesis using delete_atom_known [OF wf1 n(1)] delete_atom_unknown [OF wf1] n(3) by auto
qed

theorem add_delete_atom_witness:
  "\<exists>t2. delete_atom 0xc001 (snd (add_atom (\<lambda>_. 0) True [0x41] create_atom_table)) = (Inr (), t2) \<and>
     atom_map t2 = atom_map create_atom_table"
proof -
  have small: "\<forall>a n c. atom_map create_atom_table a = Some (n, c) \<longrightarrow> c + 1 < 2 ^ 32" by (simp only: create_map) simp
  note W = add_delete_atom [OF create_wf small, of "\<lambda>_. 0" "[0x41]" _ True "0xc001" "snd (add_atom (\<lambda>_. 0) True [0x41] create_atom_table)"]
  have "free_index create_atom_table 1 = 1" by (subst free_index.simps) (simp add: create_atom_table_def)
  then have "fst (add_atom (\<lambda>_. 0) True [0x41] create_atom_table) = Inr 0xc001"
    by (simp add: add_atom_def atom_key_A find_atom_entry_def add_atom_entry_def MAX_ATOMS_def MIN_STR_ATOM_def create_atom_table_def)
  then have r: "add_atom (\<lambda>_. 0) True [0x41] create_atom_table = (Inr 0xc001, snd (add_atom (\<lambda>_. 0) True [0x41] create_atom_table))"
    by (metis prod.collapse)
  show ?thesis using W [OF atom_key_A r] by blast
qed

section \<open>All tables are well-formed\<close>

definition counts_le :: "atom_table \<Rightarrow> nat \<Rightarrow> bool" where
  "counts_le t k \<longleftrightarrow> (\<forall>a n c. atom_map t a = Some (n, c) \<longrightarrow> c \<le> k)"

lemma counts_le_upd:
  assumes "counts_le t k" "atom_map t' = (atom_map t)(a := x)" "\<And>n c. x = Some (n, c) \<Longrightarrow> c \<le> Suc k"
  shows "counts_le t' (Suc k)"
  using assms by (fastforce simp: counts_le_def split: if_splits)

lemma counts_le_Suc: "counts_le t k \<Longrightarrow> counts_le t (Suc k)"
  by (auto simp: counts_le_def intro: le_SucI)

lemma add_atom_wf:
  assumes wf: "atoms_wf casemap t" and k: "counts_le t k" "k + 1 < 2 ^ 32"
  shows "atoms_wf casemap (snd (add_atom casemap ok str t)) \<and> counts_le (snd (add_atom casemap ok str t)) (Suc k)"
proof -
  obtain res t' where r: "add_atom casemap ok str t = (res, t')" by (cases "add_atom casemap ok str t")
  have small: "\<forall>a n c. atom_map t a = Some (n, c) \<longrightarrow> c + 1 < 2 ^ 32"
  proof (intro allI impI)
    fix a n c
    assume "atom_map t a = Some (n, c)"
    then have "c \<le> k" using k(1) unfolding counts_le_def by blast
    then show "c + 1 < 2 ^ 32" using k(2) by linarith
  qed
  note S = add_atom_spec [OF wf small r]
  have "t' = t \<or> (\<exists>a n c. atom_map t' = (atom_map t)(a \<mapsto> (n, c)) \<and> c \<le> Suc k)"
  proof (cases "atom_key casemap str")
    case (Str_Atom h)
    then consider (old) a n c where "atom_named casemap t str a n c" "atom_map t' = (atom_map t)(a \<mapsto> (n, c + 1))"
      | (new) a where "atom_map t' = (atom_map t)(a \<mapsto> (str, 1))" | (full) "t' = t" using S by (auto split: if_splits)
    then show ?thesis
    proof cases
      case old
      have "c + 1 \<le> Suc k" using old(1) k(1) by (auto simp: counts_le_def atom_named_def)
      then show ?thesis using old(2) by blast
    next
      case new
      then show ?thesis by (metis One_nat_def Suc_le_mono le0)
    qed blast
  qed (use S in auto)
  then have "counts_le t' (Suc k)" using k(1) counts_le_Suc counts_le_upd [OF k(1), of t'] by auto
  then show ?thesis using S r by simp
qed

lemma delete_atom_wf:
  assumes wf: "atoms_wf casemap t" and k: "counts_le t k"
  shows "atoms_wf casemap (snd (delete_atom a t)) \<and> counts_le (snd (delete_atom a t)) (Suc k)"
proof (cases "atom_map t a")
  case None
  then show ?thesis using delete_atom_unknown [OF wf] wf counts_le_Suc [OF k] by simp
next
  case (Some p)
  obtain n c where p: "p = (n, c)" by (cases p)
  obtain t' where t': "delete_atom a t = (Inr (), t')" "atoms_wf casemap t'"
    "atom_map t' = (atom_map t)(a := (if c = 1 then None else Some (n, c - 1)))"
    using delete_atom_known [OF wf, of a n c] Some p by (auto split: if_splits)
  have "c \<le> k" using Some p k unfolding counts_le_def by blast
  then have "counts_le t' (Suc k)" by (intro counts_le_upd [OF k t'(3)]) (auto split: if_splits)
  then show ?thesis using t' by simp
qed

lemma grab_atom_wf:
  assumes wf: "atoms_wf casemap t" and k: "counts_le t k" "k + 1 < 2 ^ 32"
  shows "atoms_wf casemap (snd (grab_atom a t)) \<and> counts_le (snd (grab_atom a t)) (Suc k)"
proof (cases "MIN_STR_ATOM \<le> unat a \<and> (\<exists>i e. get_atom_entry t a = Inr (i, e))")
  case True
  then obtain i e where g: "get_atom_entry t a = Inr (i, e)" by blast
  then have e: "at_atoms t i = Some e" by (simp add: get_atom_entry_Inr [OF wf])
  have c: "unat (ae_count e) \<le> k" using atom_map_entry(2) [OF wf e] k(1) unfolding counts_le_def by blast
  then have "unat (ae_count e) + 1 < 2 ^ 32" using k(2) by linarith
  then have u: "unat (ae_count e + 1) = unat (ae_count e) + 1" by (simp add: unat_word_ariths)
  then have nz: "ae_count e + 1 \<noteq> 0" by (metis add_eq_0_iff_both_eq_0 unat_0 zero_neq_one)
  have w: "atoms_wf casemap (change_count i (\<lambda>n. n + 1) t)" by (rule change_count_wf [OF wf]) (use e nz in auto)
  have "counts_le (change_count i (\<lambda>n. n + 1) t) (Suc k)"
    by (rule counts_le_upd [OF k(1) change_count_map [OF wf e, of "\<lambda>n. n + 1", OF nz]]) (use u c in auto)
  then show ?thesis using w g True by (simp add: grab_atom_def)
next
  case False
  then have "snd (grab_atom a t) = t" by (auto simp: grab_atom_def split: sum.splits)
  then show ?thesis using wf counts_le_Suc [OF k(1)] by simp
qed

datatype atom_op = Op_Add bool "wchar list" | Op_Delete u32 | Op_Grab u32 | Op_Release u32

fun atom_step :: "(nat \<Rightarrow> u16) \<Rightarrow> atom_op \<Rightarrow> atom_table \<Rightarrow> atom_table" where
  "atom_step casemap (Op_Add ok str) t = snd (add_atom casemap ok str t)"
| "atom_step casemap (Op_Delete a) t = snd (delete_atom a t)"
| "atom_step casemap (Op_Grab a) t = snd (grab_atom a t)"
| "atom_step casemap (Op_Release a) t = snd (release_atom a t)"

lemma atom_step_wf:
  assumes wf: "atoms_wf casemap t" and k: "counts_le t k" "k + 1 < 2 ^ 32"
  shows "atoms_wf casemap (atom_step casemap op t) \<and> counts_le (atom_step casemap op t) (Suc k)"
  using add_atom_wf [OF assms] delete_atom_wf [OF wf k(1)] grab_atom_wf [OF assms] wf counts_le_Suc [OF k(1)]
  by (cases op) (auto simp: release_atom_def)

lemma atom_run_wf:
  "atoms_wf casemap t \<Longrightarrow> counts_le t k \<Longrightarrow> k + length ops < 2 ^ 32 \<Longrightarrow> atoms_wf casemap (fold (atom_step casemap) ops t)"
proof (induction ops arbitrary: t k)
  case (Cons op ops)
  then show ?case using atom_step_wf [of casemap t k op] Cons.IH [of "atom_step casemap op t" "Suc k"] by simp
qed simp

lemma fold_asciiz: "fold (add_atom_asciiz casemap) ns t = fold (atom_step casemap) (map (\<lambda>n. Op_Add True (map (\<lambda>c. of_nat (of_char c)) n)) ns) t"
  by (induction ns arbitrary: t) (simp_all add: add_atom_asciiz_def)

text \<open>
  C20: The global and the user atom table are well-formed from their creation on, after any sequence of adding, deleting, grabbing and
  releasing atoms that is too short to wrap a 32-bit count: every entry in use is below the table's count and carries its own atom number,
  a count that is not 0, a valid name and its hash; every entry is in the chain of its hash and in no other; and no two entries have
  names that differ only in case.
\<close>

theorem atom_tables_wf:
  assumes "length ops < 2 ^ 31"
  shows "atoms_wf casemap (fold (atom_step casemap) ops (set_global_atom_table casemap create_atom_table)) \<and>
    atoms_wf casemap (fold (atom_step casemap) ops (set_user_atom_table casemap create_atom_table))"
proof -
  have c: "counts_le create_atom_table 0" by (simp add: counts_le_def create_map)
  have "atoms_wf casemap (fold (atom_step casemap) ops (fold (add_atom_asciiz casemap) ns create_atom_table))" if "length ns < 100" for ns
    unfolding fold_asciiz fold_append [symmetric, THEN fun_cong, unfolded comp_apply]
    by (rule atom_run_wf [OF create_wf c]) (use assms that in simp)
  moreover have "length global_atoms < 100" "length user_atoms < 100" by (simp_all add: global_atoms_def user_atoms_def)
  ultimately show ?thesis by (simp add: set_global_atom_table_def set_user_atom_table_def)
qed

theorem atom_tables_wf_witness:
  "atoms_wf (\<lambda>_. 0) (fold (atom_step (\<lambda>_. 0)) [Op_Add True [0x41], Op_Grab 0xc001, Op_Delete 0xc002, Op_Release 0xc001]
     (set_global_atom_table (\<lambda>_. 0) create_atom_table))"
  using atom_tables_wf [of "[Op_Add True [0x41], Op_Grab 0xc001, Op_Delete 0xc002, Op_Release 0xc001]"] by (simp del: fold.simps)

end
