(* ===== verification/Name_Order.thy ===== *)
theory Name_Order
  imports Unicode "HOL-Library.List_Lexorder"
begin

text \<open>
  Arrays that are sorted by name and searched by bisection, as a registry key keeps its subkeys and its values
  (\<^verbatim>\<open>find_subkey\<close> and \<^verbatim>\<open>find_value\<close> of \<^verbatim>\<open>server/registry.c\<close>, which are the same loop).  The interface is a
  locale: a comparison that agrees with a linear order of the names.  It is interpreted for the comparison the loop makes.
\<close>

section \<open>The comparison\<close>

text \<open>In lower case up to the shorter length, then by length in bytes.\<close>

definition name_cmp :: "(nat \<Rightarrow> u16) \<Rightarrow> wchar list \<Rightarrow> wchar list \<Rightarrow> int" where
  "name_cmp casemap a b =
     (let res = memicmp_strW casemap a b (min (length a) (length b))
      in if res = 0 then 2 * int (length a) - 2 * int (length b) else res)"

text \<open>The loop; \<open>f i\<close> compares the name at \<open>i\<close> with the one that is looked for.\<close>

function name_search :: "(nat \<Rightarrow> int) \<Rightarrow> int \<Rightarrow> int \<Rightarrow> bool \<times> nat" where
  "name_search f mn mx =
     (if mn \<le> mx
      then let i = (mn + mx) div 2; res = f (nat i)
           in if res = 0 then (True, nat i)
              else if res > 0 then name_search f mn (i - 1)
              else name_search f (i + 1) mx
      else (False, nat mn))"
  by pat_completeness auto

termination name_search
  by (relation "measure (\<lambda>(f, mn, mx). nat (mx - mn + 1))") auto

declare name_search.simps [simp del]

text \<open>The loop only reads the array between its bounds.\<close>

lemma name_search_cong:
  "(\<And>i. i \<le> nat mx \<Longrightarrow> 0 \<le> mx \<Longrightarrow> f i = g i) \<Longrightarrow> 0 \<le> mn \<Longrightarrow> name_search f mn mx = name_search g mn mx"
proof (induction f mn mx rule: name_search.induct)
  case (1 f mn mx)
  show ?case
  proof (cases "mn \<le> mx")
    case True
    let ?i = "(mn + mx) div 2"
    have i: "mn \<le> ?i" "?i \<le> mx" using True by auto
    have fg: "f (nat ?i) = g (nat ?i)" by (rule 1(3)) (use i 1(4) in linarith)+
    have l: "f (nat ?i) > 0 \<Longrightarrow> name_search f mn (?i - 1) = name_search g mn (?i - 1)"
      using True by (intro 1(1)) (use 1(3,4) i in auto)
    have r: "f (nat ?i) < 0 \<Longrightarrow> name_search f (?i + 1) mx = name_search g (?i + 1) mx"
      using True by (intro 1(2)) (use 1(3,4) i in auto)
    show ?thesis by (subst (1 2) name_search.simps) (use fg l r True in \<open>auto simp: Let_def\<close>)
  next
    case False
    then show ?thesis by (subst (1 2) name_search.simps) simp
  qed
qed

lemma name_search_map:
  "name_search (\<lambda>i. cmp (h (xs ! i)) x) 0 (int (length xs) - 1) = name_search (\<lambda>i. cmp (map h xs ! i) x) 0 (int (length (map h xs)) - 1)"
  unfolding length_map
proof (rule name_search_cong)
  fix i
  assume "i \<le> nat (int (length xs) - 1)" "0 \<le> int (length xs) - 1"
  then have "i < length xs" by linarith
  then show "cmp (h (xs ! i)) x = cmp (map h xs ! i) x" by simp
qed simp

lemma name_cmp_simps:
  "name_cmp casemap [] b = - 2 * int (length b)"
  "name_cmp casemap a [] = 2 * int (length a)"
  "name_cmp casemap (x # a) (y # b) =
     (if to_lower casemap x = to_lower casemap y then name_cmp casemap a b else uint (to_lower casemap x) - uint (to_lower casemap y))"
  by (simp_all add: name_cmp_def Let_def word_uint_eq_iff)

text \<open>The order it decides: lexicographic on the lower case forms.\<close>

definition name_key :: "(nat \<Rightarrow> u16) \<Rightarrow> wchar list \<Rightarrow> int list" where
  "name_key casemap a = map (\<lambda>c. uint (to_lower casemap c)) a"

lemma name_key_same: "name_key casemap a = name_key casemap b \<longleftrightarrow> map (to_lower casemap) a = map (to_lower casemap) b"
proof -
  have "name_key casemap a = map uint (map (to_lower casemap) a)" for a by (simp add: name_key_def)
  then show ?thesis by (simp add: inj_map_eq_map inj_def word_uint_eq_iff del: map_map)
qed

lemma name_cmp_less: "name_cmp casemap a b < 0 \<longleftrightarrow> name_key casemap a < name_key casemap b"
proof (induction a arbitrary: b)
  case Nil
  then show ?case by (cases b) (simp_all add: name_cmp_simps name_key_def)
next
  case (Cons x a)
  then show ?case by (cases b) (auto simp: name_cmp_simps name_key_def word_uint_eq_iff)
qed

lemma name_cmp_eq: "name_cmp casemap a b = 0 \<longleftrightarrow> name_key casemap a = name_key casemap b"
proof (induction a arbitrary: b)
  case Nil
  then show ?case by (cases b) (simp_all add: name_cmp_simps name_key_def)
next
  case (Cons x a)
  then show ?case by (cases b) (auto simp: name_cmp_simps name_key_def word_uint_eq_iff)
qed

section \<open>Sorted arrays\<close>

locale sorted_array =
  fixes cmp :: "'k \<Rightarrow> 'k \<Rightarrow> int" and key :: "'k \<Rightarrow> 'o::linorder"
  assumes cmp_less: "cmp a b < 0 \<longleftrightarrow> key a < key b" and cmp_eq: "cmp a b = 0 \<longleftrightarrow> key a = key b"
begin

definition ordered :: "'k list \<Rightarrow> bool" where
  "ordered ks \<longleftrightarrow> sorted_wrt (<) (map key ks)"

text \<open>The place of a name: everything before is smaller, everything from there on is larger.\<close>

definition splits_at :: "'k list \<Rightarrow> 'k \<Rightarrow> nat \<Rightarrow> bool" where
  "splits_at ks x i \<longleftrightarrow> i \<le> length ks \<and> (\<forall>k\<in>set (take i ks). key k < key x) \<and> (\<forall>k\<in>set (drop i ks). key x < key k)"

lemma cmp_greater: "cmp a b > 0 \<longleftrightarrow> key b < key a"
  using cmp_less [of a b] cmp_eq [of a b] by (metis linorder_less_linear order_less_irrefl order_less_asym)

lemma ordered_nth: "ordered ks \<Longrightarrow> i < j \<Longrightarrow> j < length ks \<Longrightarrow> key (ks ! i) < key (ks ! j)"
  by (simp add: ordered_def sorted_wrt_iff_nth_less)

lemma ordered_inj: "ordered ks \<Longrightarrow> i < length ks \<Longrightarrow> j < length ks \<Longrightarrow> key (ks ! i) = key (ks ! j) \<Longrightarrow> i = j"
  using ordered_nth [of ks i j] ordered_nth [of ks j i] by (cases i j rule: linorder_cases) auto

lemma splits_at_iff:
  "splits_at ks x i \<longleftrightarrow> i \<le> length ks \<and> (\<forall>j. j < i \<longrightarrow> key (ks ! j) < key x) \<and> (\<forall>j. i \<le> j \<and> j < length ks \<longrightarrow> key x < key (ks ! j))"
proof (cases "i \<le> length ks")
  case True
  have a: "(\<forall>k\<in>set (take i ks). key k < key x) \<longleftrightarrow> (\<forall>j<i. key (ks ! j) < key x)" using True by (auto simp: set_conv_nth)
  have b: "(\<forall>k\<in>set (drop i ks). key x < key k) \<longleftrightarrow> (\<forall>j. i \<le> j \<and> j < length ks \<longrightarrow> key x < key (ks ! j))"
  proof
    assume r: "\<forall>k\<in>set (drop i ks). key x < key k"
    show "\<forall>j. i \<le> j \<and> j < length ks \<longrightarrow> key x < key (ks ! j)"
    proof (intro allI impI)
      fix j
      assume j: "i \<le> j \<and> j < length ks"
      then have "drop i ks ! (j - i) \<in> set (drop i ks)" by (intro nth_mem) (simp add: diff_less_mono)
      then show "key x < key (ks ! j)" using r j by simp
    qed
  next
    assume "\<forall>j. i \<le> j \<and> j < length ks \<longrightarrow> key x < key (ks ! j)"
    then show "\<forall>k\<in>set (drop i ks). key x < key k" by (auto simp: in_set_conv_nth)
  qed
  show ?thesis unfolding splits_at_def a b using True by blast
qed (simp add: splits_at_def)

lemma search_range:
  assumes o: "ordered ks"
  shows "0 \<le> mn \<Longrightarrow> mx < int (length ks) \<Longrightarrow> mn \<le> mx + 1 \<Longrightarrow> \<forall>j. int j < mn \<longrightarrow> key (ks ! j) < key x \<Longrightarrow>
    \<forall>j. mx < int j \<and> j < length ks \<longrightarrow> key x < key (ks ! j) \<Longrightarrow>
    (case name_search (\<lambda>i. cmp (ks ! i) x) mn mx of
       (True, i) \<Rightarrow> i < length ks \<and> key (ks ! i) = key x
     | (False, i) \<Rightarrow> splits_at ks x i)"
proof (induction "\<lambda>i. cmp (ks ! i) x" mn mx rule: name_search.induct)
  case (1 mn mx)
  let ?i = "(mn + mx) div 2"
  show ?case
  proof (cases "mn \<le> mx")
    case False
    then have "name_search (\<lambda>i. cmp (ks ! i) x) mn mx = (False, nat mn)" by (subst name_search.simps) simp
    then show ?thesis using False 1(3-) by (auto simp: splits_at_iff)
  next
    case True
    have i: "mn \<le> ?i" "?i \<le> mx" using True by auto
    have n: "nat ?i < length ks" using i 1(3,4) by linarith
    consider "cmp (ks ! nat ?i) x = 0" | "cmp (ks ! nat ?i) x > 0" | "cmp (ks ! nat ?i) x < 0" by linarith
    then show ?thesis
    proof cases
      case 1
      then have "name_search (\<lambda>i. cmp (ks ! i) x) mn mx = (True, nat ?i)" using True by (subst name_search.simps) (simp add: Let_def)
      then show ?thesis using n 1 by (simp add: cmp_eq)
    next
      case 2
      then have e: "name_search (\<lambda>i. cmp (ks ! i) x) mn mx = name_search (\<lambda>i. cmp (ks ! i) x) mn (?i - 1)"
        using True by (subst name_search.simps) (simp add: Let_def)
      have "key x < key (ks ! j)" if "?i - 1 < int j" "j < length ks" for j
      proof (cases "j = nat ?i")
        case False
        then have "nat ?i < j" using that by linarith
        then show ?thesis using ordered_nth [OF o _ that(2), of "nat ?i"] 2 by (simp add: cmp_greater)
      qed (use 2 in \<open>simp add: cmp_greater\<close>)
      then show ?thesis unfolding e using 2 True 1(3-) i by (intro 1(1)) auto
    next
      case 3
      then have e: "name_search (\<lambda>i. cmp (ks ! i) x) mn mx = name_search (\<lambda>i. cmp (ks ! i) x) (?i + 1) mx"
        using True by (subst name_search.simps) (simp add: Let_def)
      have "key (ks ! j) < key x" if "int j < ?i + 1" for j
      proof (cases "j = nat ?i")
        case False
        then have "j < nat ?i" using that by linarith
        then show ?thesis using ordered_nth [OF o _ n, of j] 3 by (simp add: cmp_less)
      qed (use 3 in \<open>simp add: cmp_less\<close>)
      then show ?thesis unfolding e using 3 True 1(3-) i by (intro 1(2)) auto
    qed
  qed
qed

text \<open>Bisecting the whole array finds the name if it is there, and the place where to insert it otherwise.\<close>

lemma search_all:
  assumes "ordered ks"
  shows "case name_search (\<lambda>i. cmp (ks ! i) x) 0 (int (length ks) - 1) of
    (True, i) \<Rightarrow> i < length ks \<and> key (ks ! i) = key x
  | (False, i) \<Rightarrow> splits_at ks x i"
  by (rule search_range [OF assms]) auto

lemma search_found:
  assumes "ordered ks" "name_search (\<lambda>i. cmp (ks ! i) x) 0 (int (length ks) - 1) = (True, i)"
  shows "i < length ks" "key (ks ! i) = key x"
  using search_all [OF assms(1), of x] assms(2) by simp_all

lemma search_place:
  assumes "ordered ks" "name_search (\<lambda>i. cmp (ks ! i) x) 0 (int (length ks) - 1) = (False, i)"
  shows "splits_at ks x i"
  using search_all [OF assms(1), of x] assms(2) by simp

lemma search_iff:
  assumes o: "ordered ks"
  shows "(\<exists>i. name_search (\<lambda>i. cmp (ks ! i) x) 0 (int (length ks) - 1) = (True, i)) \<longleftrightarrow> (\<exists>k\<in>set ks. key k = key x)"
proof
  assume "\<exists>i. name_search (\<lambda>i. cmp (ks ! i) x) 0 (int (length ks) - 1) = (True, i)"
  then show "\<exists>k\<in>set ks. key k = key x" using search_found [OF o] nth_mem by metis
next
  assume "\<exists>k\<in>set ks. key k = key x"
  then obtain k where k: "k \<in> set ks" "key k = key x" by blast
  obtain b i where r: "name_search (\<lambda>i. cmp (ks ! i) x) 0 (int (length ks) - 1) = (b, i)" by (meson surj_pair)
  have b
  proof (rule ccontr)
    assume "\<not> b"
    then have "splits_at ks x i" using search_place [OF o] r by simp
    moreover have "k \<in> set (take i ks) \<or> k \<in> set (drop i ks)" using k(1) by (metis UnE append_take_drop_id set_append)
    ultimately show False using k(2) by (auto simp: splits_at_def)
  qed
  then show "\<exists>i. name_search (\<lambda>i. cmp (ks ! i) x) 0 (int (length ks) - 1) = (True, i)" using r by auto
qed

lemma ordered_insert:
  assumes "ordered ks" "splits_at ks x i"
  shows "ordered (take i ks @ x # drop i ks)"
proof -
  have "sorted_wrt (<) (map key (take i ks) @ map key (drop i ks))" using assms(1) by (simp add: ordered_def flip: map_append)
  then show ?thesis using assms(2) by (auto simp: ordered_def splits_at_def sorted_wrt_append intro: order.strict_trans)
qed

lemma ordered_remove: "ordered ks \<Longrightarrow> ordered (take i ks @ drop (Suc i) ks)"
proof (cases "i < length ks")
  case True
  assume "ordered ks"
  then have "sorted_wrt (<) (map key (take i ks) @ key (ks ! i) # map key (drop (Suc i) ks))"
    using True by (simp add: ordered_def id_take_nth_drop [symmetric] flip: map_append list.map)
  then show ?thesis by (auto simp: ordered_def sorted_wrt_append)
qed simp

lemma splits_at_remove:
  assumes "splits_at ks x i" "j < length ks"
  shows "splits_at (take j ks @ drop (Suc j) ks) x (if j < i then i - 1 else i)"
proof -
  have "key ((take j ks @ drop (Suc j) ks) ! n) = key (ks ! (if n < j then n else Suc n))" if "n < length ks - 1" for n
    using that assms(2) by (auto simp: nth_append min_def)
  then show ?thesis using assms by (auto simp: splits_at_iff) (simp add: less_diff_conv)
qed

end

interpretation name_order: sorted_array "name_cmp casemap" "name_key casemap" for casemap
  by unfold_locales (simp_all add: name_cmp_less name_cmp_eq)

end
