(* ===== verification/Registry.thy ===== *)
theory Registry
  imports Name_Order
begin

unbundle bit_operations_syntax

text \<open>
  The registry tree (\<^verbatim>\<open>server/registry.c\<close>): keys with a sorted array of subkeys and one of values, change notifications, and the
  flag that tells that a branch has to be saved.

  Keys are named by numbers, in the order of their creation.  An array that is filled up to \<^verbatim>\<open>last_subkey\<close> or \<^verbatim>\<open>last_value\<close> is
  a list, beside the number of elements it has room for.  The name of a key and the pointer to the parent in it go away
  together when a key is unlinked.  References are not counted: a key that is unlinked stays in the store, where
  handles may still refer to it.  A failed \<^verbatim>\<open>assert\<close> and the use of a null pointer clear the field \<open>rs_ok\<close>, and so does running
  out of the fuel that the loops over parents and subkeys have; the effect on events is appended to \<open>rs_fired\<close>.  The argument \<open>ok\<close> tells which allocations succeed, \<open>rs_allocs\<close> counts them.
\<close>

abbreviation (input) STATUS_NO_MORE_ENTRIES :: ntstatus where "STATUS_NO_MORE_ENTRIES \<equiv> 0x8000001A"
abbreviation (input) STATUS_NAME_TOO_LONG :: ntstatus where "STATUS_NAME_TOO_LONG \<equiv> 0xC0000106"
abbreviation (input) STATUS_CANNOT_DELETE :: ntstatus where "STATUS_CANNOT_DELETE \<equiv> 0xC0000121"
abbreviation (input) STATUS_KEY_DELETED :: ntstatus where "STATUS_KEY_DELETED \<equiv> 0xC000017C"
abbreviation (input) STATUS_CHILD_MUST_BE_VOLATILE :: ntstatus where "STATUS_CHILD_MUST_BE_VOLATILE \<equiv> 0xC0000181"

section \<open>Keys, values, notifications\<close>

definition KEY_VOLATILE :: u32 where "KEY_VOLATILE = 0x0001"
definition KEY_DELETED :: u32 where "KEY_DELETED = 0x0002"
definition KEY_DIRTY :: u32 where "KEY_DIRTY = 0x0004"
definition KEY_SYMLINK :: u32 where "KEY_SYMLINK = 0x0008"
definition KEY_PREDEF :: u32 where "KEY_PREDEF = 0x0020"

definition REG_OPTION_VOLATILE :: u32 where "REG_OPTION_VOLATILE = 1"
definition REG_OPTION_CREATE_LINK :: u32 where "REG_OPTION_CREATE_LINK = 2"
definition REG_NOTIFY_CHANGE_NAME :: u32 where "REG_NOTIFY_CHANGE_NAME = 1"
definition REG_NOTIFY_CHANGE_LAST_SET :: u32 where "REG_NOTIFY_CHANGE_LAST_SET = 4"
definition REG_LINK :: u32 where "REG_LINK = 6"

definition MIN_SUBKEYS :: nat where "MIN_SUBKEYS = 8"
definition MIN_VALUES :: nat where "MIN_VALUES = 8"
definition MAX_NAME_LEN :: nat where "MAX_NAME_LEN = 256"
definition MAX_VALUE_LEN :: nat where "MAX_VALUE_LEN = 16383"

definition wide :: "string \<Rightarrow> wchar list" where
  "wide s = map (\<lambda>c. of_nat (of_char c)) s"

definition wow6432node :: "wchar list" where "wow6432node = wide ''Wow6432Node''"
definition symlink_str :: "wchar list" where "symlink_str = wide ''SymbolicLinkValue''"

text \<open>A notification of a handle, identified by the process and the handle, with the events it sets.\<close>

record notify =
  nf_events :: "nat list"
  nf_subtree :: bool
  nf_filter :: u32
  nf_hkey :: u32
  nf_process :: nat

text \<open>The data pointer of a value is null exactly when the data is empty.\<close>

record key_value =
  kv_name :: "wchar list"
  kv_type :: u32
  kv_data :: "u8 list"

record reg_key =
  rk_name :: "wchar list option"
  rk_parent :: "nat option"
  rk_class :: "wchar list"
  rk_subkeys :: "nat list"
  rk_nb_subkeys :: nat
  rk_wow6432node :: "nat option"
  rk_values :: "key_value list"
  rk_nb_values :: nat
  rk_flags :: u32
  rk_modif :: u64
  rk_notify :: "notify list"

text \<open>What a request does to the events of its clients.\<close>

datatype reg_effect = Set_Event nat | Reset_Event nat

record rstate =
  rs_keys :: "nat \<Rightarrow> reg_key option"
  rs_next :: nat
  rs_time :: u64
  rs_fired :: "reg_effect list"
  rs_error :: u32
  rs_allocs :: nat
  rs_ok :: bool

definition crash :: "rstate \<Rightarrow> rstate" where "crash s = s\<lparr>rs_ok := False\<rparr>"
definition set_rerror :: "u32 \<Rightarrow> rstate \<Rightarrow> rstate" where "set_rerror e s = s\<lparr>rs_error := e\<rparr>"
definition upd_key :: "nat \<Rightarrow> (reg_key \<Rightarrow> reg_key) \<Rightarrow> rstate \<Rightarrow> rstate" where
  "upd_key k f s = s\<lparr>rs_keys := (rs_keys s)(k := map_option f (rs_keys s k))\<rparr>"

text \<open>An allocation, and one whose failure is not an error.\<close>

definition try_realloc :: "(nat \<Rightarrow> bool) \<Rightarrow> rstate \<Rightarrow> bool \<times> rstate" where
  "try_realloc ok s = (ok (rs_allocs s), s\<lparr>rs_allocs := rs_allocs s + 1\<rparr>)"

definition reg_alloc :: "(nat \<Rightarrow> bool) \<Rightarrow> rstate \<Rightarrow> bool \<times> rstate" where
  "reg_alloc ok s = (case try_realloc ok s of (b, s1) \<Rightarrow> (b, if b then s1 else set_rerror STATUS_NO_MEMORY s1))"

definition has_flag :: "u32 \<Rightarrow> reg_key \<Rightarrow> bool" where
  "has_flag f key \<longleftrightarrow> rk_flags key AND f \<noteq> 0"

definition set_flag :: "u32 \<Rightarrow> reg_key \<Rightarrow> reg_key" where
  "set_flag f key = key\<lparr>rk_flags := rk_flags key OR f\<rparr>"

section \<open>Names and subkeys\<close>

definition get_path_element :: "wchar list \<Rightarrow> wchar list" where
  "get_path_element name = takeWhile (\<lambda>c. c \<noteq> 0x5c) name"

definition is_wow6432node :: "(nat \<Rightarrow> u16) \<Rightarrow> wchar list \<Rightarrow> bool" where
  "is_wow6432node casemap name \<longleftrightarrow>
     length (get_path_element name) = length wow6432node \<and>
     memicmp_strW casemap (get_path_element name) wow6432node (length wow6432node) = 0"

definition key_name :: "rstate \<Rightarrow> nat \<Rightarrow> wchar list" where
  "key_name s k = (case rs_keys s k of None \<Rightarrow> [] | Some key \<Rightarrow> (case rk_name key of None \<Rightarrow> [] | Some n \<Rightarrow> n))"

definition find_subkey :: "(nat \<Rightarrow> u16) \<Rightarrow> rstate \<Rightarrow> reg_key \<Rightarrow> wchar list \<Rightarrow> bool \<times> nat" where
  "find_subkey casemap s key name =
     name_search (\<lambda>i. name_cmp casemap (key_name s (rk_subkeys key ! i)) name) 0 (int (length (rk_subkeys key)) - 1)"

text \<open>Growing by half and shrinking by a third, never below the minimum.\<close>

definition grown :: "nat \<Rightarrow> nat \<Rightarrow> nat" where
  "grown mn nb = (if nb \<noteq> 0 then nb + nb div 2 else mn)"

definition shrinks :: "nat \<Rightarrow> nat \<Rightarrow> nat \<Rightarrow> bool" where
  "shrinks mn nb len \<longleftrightarrow> nb > mn \<and> int len - 1 < int (nb div 2)"

definition shrunk :: "nat \<Rightarrow> nat \<Rightarrow> nat" where
  "shrunk mn nb = max mn (nb - nb div 3)"

definition grow_subkeys :: "(nat \<Rightarrow> bool) \<Rightarrow> nat \<Rightarrow> rstate \<Rightarrow> bool \<times> rstate" where
  "grow_subkeys ok k s =
     (case reg_alloc ok s of (b, s1) \<Rightarrow>
        if \<not> b then (False, s1) else (True, upd_key k (\<lambda>key. key\<lparr>rk_nb_subkeys := grown MIN_SUBKEYS (rk_nb_subkeys key)\<rparr>) s1))"

definition insert_at :: "nat \<Rightarrow> 'a \<Rightarrow> 'a list \<Rightarrow> 'a list" where
  "insert_at i x xs = take i xs @ x # drop i xs"

definition remove_at :: "nat \<Rightarrow> 'a list \<Rightarrow> 'a list" where
  "remove_at i xs = take i xs @ drop (Suc i) xs"

definition index_of :: "'a \<Rightarrow> 'a list \<Rightarrow> nat" where
  "index_of x xs = length (takeWhile (\<lambda>y. y \<noteq> x) xs)"

text \<open>The new key is put in its place in the array of the parent, and gets its parent.\<close>

definition key_link_name :: "(nat \<Rightarrow> bool) \<Rightarrow> (nat \<Rightarrow> u16) \<Rightarrow> nat \<Rightarrow> wchar list \<Rightarrow> nat \<Rightarrow> rstate \<Rightarrow> bool \<times> rstate" where
  "key_link_name ok casemap k name p s =
     (case rs_keys s p of
        None \<Rightarrow> (False, crash s)
      | Some parent_key \<Rightarrow>
          (case (if length (rk_subkeys parent_key) = rk_nb_subkeys parent_key then grow_subkeys ok p s else (True, s)) of (b, s1) \<Rightarrow>
             if \<not> b then (False, s1)
             else let index = snd (find_subkey casemap s1 parent_key name);
                      s2 = upd_key p (\<lambda>key. key\<lparr>rk_subkeys := insert_at index k (rk_subkeys key)\<rparr>) s1;
                      s3 = (if is_wow6432node casemap name \<and> \<not> is_wow6432node casemap (key_name s1 p)
                            then upd_key p (\<lambda>key. key\<lparr>rk_wow6432node := Some k\<rparr>) s2 else s2)
                  in (True, upd_key k (\<lambda>key. key\<lparr>rk_parent := Some p\<rparr>) s3)))"

text \<open>The key leaves the array of the parent, which may shrink; then its name and parent are gone.\<close>

definition key_unlink_name :: "(nat \<Rightarrow> bool) \<Rightarrow> nat \<Rightarrow> nat \<Rightarrow> rstate \<Rightarrow> rstate" where
  "key_unlink_name ok k p s =
     (case rs_keys s p of
        None \<Rightarrow> crash s
      | Some parent \<Rightarrow>
          let i = index_of k (rk_subkeys parent)
          in if i \<ge> length (rk_subkeys parent) then crash s
             else let s1 = upd_key p (\<lambda>key. key\<lparr>rk_subkeys := remove_at i (rk_subkeys key),
                             rk_wow6432node := (if rk_wow6432node key = Some k then None else rk_wow6432node key)\<rparr>) s
                  in if shrinks MIN_SUBKEYS (rk_nb_subkeys parent) (length (rk_subkeys parent) - 1)
                     then case try_realloc ok s1 of (b, s2) \<Rightarrow>
                            if b then upd_key p (\<lambda>key. key\<lparr>rk_nb_subkeys := shrunk MIN_SUBKEYS (rk_nb_subkeys key)\<rparr>) s2 else s2
                     else s1)"

definition unlink_named_object :: "(nat \<Rightarrow> bool) \<Rightarrow> nat \<Rightarrow> rstate \<Rightarrow> rstate" where
  "unlink_named_object ok k s =
     (case rs_keys s k of
        None \<Rightarrow> crash s
      | Some key \<Rightarrow>
          if rk_name key = None then s
          else let s1 = upd_key k (\<lambda>key. key\<lparr>rk_name := None, rk_parent := None\<rparr>) s
               in case rk_parent key of None \<Rightarrow> s1 | Some p \<Rightarrow> key_unlink_name ok k p s1)"

section \<open>Notifications and modification\<close>

text \<open>The events of a notification are set and given up; \<open>del\<close> removes it.\<close>

definition find_notify :: "reg_key \<Rightarrow> nat \<Rightarrow> u32 \<Rightarrow> notify option" where
  "find_notify key process hkey = find (\<lambda>n. nf_process n = process \<and> nf_hkey n = hkey) (rk_notify key)"

definition notify_matches :: "u32 \<Rightarrow> bool \<Rightarrow> notify \<Rightarrow> bool" where
  "notify_matches change not_subtree n \<longleftrightarrow> (not_subtree \<or> nf_subtree n) \<and> change AND nf_filter n \<noteq> 0"

definition check_notify :: "u32 \<Rightarrow> bool \<Rightarrow> nat \<Rightarrow> rstate \<Rightarrow> rstate" where
  "check_notify change not_subtree k s =
     (case rs_keys s k of
        None \<Rightarrow> crash s
      | Some key \<Rightarrow>
          let hit = notify_matches change not_subtree
          in upd_key k (\<lambda>key. key\<lparr>rk_notify := map (\<lambda>n. if hit n then n\<lparr>nf_events := []\<rparr> else n) (rk_notify key)\<rparr>)
               (s\<lparr>rs_fired := rs_fired s @ map Set_Event (concat (map nf_events (filter hit (rk_notify key))))\<rparr>))"

definition key_close_handle :: "nat \<Rightarrow> u32 \<Rightarrow> nat \<Rightarrow> rstate \<Rightarrow> rstate" where
  "key_close_handle process handle k s =
     (case rs_keys s k of
        None \<Rightarrow> crash s
      | Some key \<Rightarrow>
          (case find_notify key process handle of
             None \<Rightarrow> s
           | Some n \<Rightarrow> upd_key k (\<lambda>key. key\<lparr>rk_notify := remove1 n (rk_notify key)\<rparr>) (s\<lparr>rs_fired := rs_fired s @ map Set_Event (nf_events n)\<rparr>)))"

text \<open>The parent of a key; reading it takes the name of the key.\<close>

definition get_parent :: "nat \<Rightarrow> rstate \<Rightarrow> nat option \<times> rstate" where
  "get_parent k s =
     (case rs_keys s k of
        None \<Rightarrow> (None, crash s)
      | Some key \<Rightarrow> if rk_name key = None then (None, crash s) else (rk_parent key, s))"

fun make_dirty :: "nat \<Rightarrow> nat \<Rightarrow> rstate \<Rightarrow> rstate" where
  "make_dirty 0 k s = crash s"
| "make_dirty (Suc fuel) k s =
     (case rs_keys s k of
        None \<Rightarrow> crash s
      | Some key \<Rightarrow>
          if has_flag (KEY_DIRTY OR KEY_VOLATILE) key then s
          else (case get_parent k (upd_key k (set_flag KEY_DIRTY) s) of
                  (None, s1) \<Rightarrow> s1
                | (Some p, s1) \<Rightarrow> make_dirty fuel p s1))"

fun notify_parents :: "nat \<Rightarrow> u32 \<Rightarrow> nat \<Rightarrow> rstate \<Rightarrow> rstate" where
  "notify_parents 0 change k s = crash s"
| "notify_parents (Suc fuel) change k s =
     (case get_parent k s of
        (None, s1) \<Rightarrow> s1
      | (Some p, s1) \<Rightarrow> notify_parents fuel change p (check_notify change False p s1))"

text \<open>A key has fewer ancestors than keys were created.\<close>

definition touch_key :: "nat \<Rightarrow> u32 \<Rightarrow> rstate \<Rightarrow> rstate" where
  "touch_key k change s =
     (let s1 = make_dirty (Suc (rs_next s)) k (upd_key k (\<lambda>key. key\<lparr>rk_modif := rs_time s\<rparr>) s)
      in notify_parents (Suc (rs_next s)) change k (check_notify change True k s1))"

fun make_clean :: "nat \<Rightarrow> nat \<Rightarrow> rstate \<Rightarrow> rstate" where
  "make_clean 0 k s = crash s"
| "make_clean (Suc fuel) k s =
     (case rs_keys s k of
        None \<Rightarrow> crash s
      | Some key \<Rightarrow>
          if has_flag KEY_VOLATILE key then s
          else if \<not> has_flag KEY_DIRTY key then s
          else fold (make_clean fuel) (rk_subkeys key) (upd_key k (\<lambda>key. key\<lparr>rk_flags := rk_flags key AND NOT KEY_DIRTY\<rparr>) s))"

text \<open>Saving a branch: a clean one is left alone; \<open>written\<close> tells whether the file was written.\<close>

definition save_branch :: "bool \<Rightarrow> nat \<Rightarrow> rstate \<Rightarrow> bool \<times> rstate" where
  "save_branch written k s =
     (case rs_keys s k of
        None \<Rightarrow> (False, crash s)
      | Some key \<Rightarrow>
          if \<not> has_flag KEY_DIRTY key then (True, s)
          else if written then (True, make_clean (Suc (rs_next s)) k s)
          else (False, s))"

section \<open>Creating, renaming and deleting keys\<close>

definition blank_key :: reg_key where
  "blank_key = \<lparr>rk_name = None, rk_parent = None, rk_class = [], rk_subkeys = [], rk_nb_subkeys = 0, rk_wow6432node = None,
     rk_values = [], rk_nb_values = 0, rk_flags = 0, rk_modif = 0, rk_notify = []\<rparr>"

definition key_init :: "(nat \<Rightarrow> bool) \<Rightarrow> u32 \<Rightarrow> wchar list \<Rightarrow> nat \<Rightarrow> rstate \<Rightarrow> bool \<times> rstate" where
  "key_init ok options cls k s =
     (case get_parent k s of (parent, s0) \<Rightarrow>
        let s1 = upd_key k (\<lambda>key. blank_key\<lparr>rk_name := rk_name key, rk_parent := rk_parent key, rk_modif := rs_time s\<rparr>) s0
        in case (if cls \<noteq> [] then reg_alloc ok s1 else (True, s1)) of (b, s2) \<Rightarrow>
             if \<not> b then (False, s2)
             else let s3 = upd_key k (\<lambda>key. key\<lparr>rk_class := cls\<rparr>) s2;
                      s4 = (if options AND REG_OPTION_CREATE_LINK \<noteq> 0 then upd_key k (set_flag KEY_SYMLINK) s3 else s3)
                  in if options AND REG_OPTION_VOLATILE \<noteq> 0 then (True, upd_key k (set_flag KEY_VOLATILE) s4)
                     else if (case parent of None \<Rightarrow> False
                              | Some p \<Rightarrow> (case rs_keys s4 p of None \<Rightarrow> False | Some pk \<Rightarrow> has_flag KEY_VOLATILE pk))
                     then (False, set_rerror STATUS_CHILD_MUST_BE_VOLATILE s4)
                     else (True, upd_key k (set_flag KEY_DIRTY) s4))"

text \<open>
  Creating the key \<open>name\<close> below \<open>p\<close>, once the lookup of the name has stopped there: the name, the object, the link, the initialization, which
  is undone if it fails.
\<close>

definition create_key_object :: "(nat \<Rightarrow> bool) \<Rightarrow> (nat \<Rightarrow> u16) \<Rightarrow> u32 \<Rightarrow> wchar list \<Rightarrow> nat \<Rightarrow> wchar list \<Rightarrow> rstate \<Rightarrow> nat option \<times> rstate" where
  "create_key_object ok casemap options cls p name s =
     (case reg_alloc ok s of (b1, s1) \<Rightarrow> if \<not> b1 then (None, s1) else
      case reg_alloc ok s1 of (b2, s2) \<Rightarrow> if \<not> b2 then (None, s2) else
      let k = rs_next s2; s3 = s2\<lparr>rs_next := Suc k, rs_keys := (rs_keys s2)(k \<mapsto> blank_key)\<rparr>
      in case key_link_name ok casemap k name p s3 of (b3, s4) \<Rightarrow>
           if \<not> b3 then (None, s4\<lparr>rs_keys := (rs_keys s4)(k := None)\<rparr>)
           else case key_init ok options cls k (upd_key k (\<lambda>key. key\<lparr>rk_name := Some name\<rparr>) s4) of (b5, s5) \<Rightarrow>
                  if b5 then (Some k, s5)
                  else let s6 = unlink_named_object ok k s5 in (None, s6\<lparr>rs_keys := (rs_keys s6)(k := None)\<rparr>))"

text \<open>The request: \<open>rel\<close> tells that it named a key handle that the new key is relative to.\<close>

definition req_create_key :: "(nat \<Rightarrow> bool) \<Rightarrow> (nat \<Rightarrow> u16) \<Rightarrow> bool \<Rightarrow> u32 \<Rightarrow> wchar list \<Rightarrow> nat \<Rightarrow> wchar list \<Rightarrow> rstate \<Rightarrow> nat option \<times> rstate" where
  "req_create_key ok casemap rel options cls p name s =
     (case create_key_object ok casemap options cls p name s of
        (None, s1) \<Rightarrow> (None, s1)
      | (Some k, s1) \<Rightarrow>
          if rel then case get_parent k s1 of
                        (None, s2) \<Rightarrow> (Some k, s2)
                      | (Some q, s2) \<Rightarrow> (Some k, touch_key q REG_NOTIFY_CHANGE_NAME s2)
          else (Some k, s1))"

definition move_subkey :: "nat \<Rightarrow> nat \<Rightarrow> nat list \<Rightarrow> nat list" where
  "move_subkey cur index xs =
     (let index' = (if cur < index then index - 1 else index) in insert_at index' (xs ! cur) (remove_at cur xs))"

definition rename_key :: "(nat \<Rightarrow> bool) \<Rightarrow> (nat \<Rightarrow> u16) \<Rightarrow> nat \<Rightarrow> wchar list \<Rightarrow> rstate \<Rightarrow> rstate" where
  "rename_key ok casemap k new_name s =
     (case get_parent k s of (parent, s0) \<Rightarrow>
        let len = length (get_path_element new_name)
        in if len = 0 \<or> len \<noteq> length new_name \<or> len > MAX_NAME_LEN then set_rerror STATUS_INVALID_PARAMETER s0
           else case parent of
                  None \<Rightarrow> set_rerror STATUS_CANNOT_DELETE s0
                | Some p \<Rightarrow>
                    (case rs_keys s0 p of
                       None \<Rightarrow> crash s0
                     | Some pk \<Rightarrow>
                         (case find_subkey casemap s0 pk new_name of (found, index) \<Rightarrow>
                            if found then set_rerror STATUS_CANNOT_DELETE s0
                            else if rk_wow6432node pk = Some k \<or> is_wow6432node casemap new_name then set_rerror STATUS_INVALID_PARAMETER s0
                            else case reg_alloc ok s0 of (b, s1) \<Rightarrow>
                                   if \<not> b then s1
                                   else let cur = index_of k (rk_subkeys pk)
                                        in if cur \<ge> length (rk_subkeys pk) then crash s1
                                           else touch_key k REG_NOTIFY_CHANGE_NAME
                                                  (upd_key k (\<lambda>key. key\<lparr>rk_name := Some new_name\<rparr>)
                                                    (upd_key p (\<lambda>key. key\<lparr>rk_subkeys := move_subkey cur index (rk_subkeys key)\<rparr>) s1)))))"

text \<open>The loop that deletes the subkeys, the last one first, is \<open>delete_subkeys\<close>.\<close>

fun delete_key :: "(nat \<Rightarrow> bool) \<Rightarrow> nat \<Rightarrow> nat \<Rightarrow> bool \<Rightarrow> rstate \<Rightarrow> bool \<times> rstate"
  and delete_subkeys :: "(nat \<Rightarrow> bool) \<Rightarrow> nat \<Rightarrow> nat \<Rightarrow> rstate \<Rightarrow> bool \<times> rstate" where
  "delete_key ok 0 k recurse s = (False, crash s)"
| "delete_key ok (Suc fuel) k recurse s =
     (case rs_keys s k of
        None \<Rightarrow> (False, crash s)
      | Some key \<Rightarrow>
          if has_flag KEY_DELETED key then (True, s)
          else case get_parent k s of
                 (None, s1) \<Rightarrow> (False, set_rerror STATUS_ACCESS_DENIED s1)
               | (Some parent, s1) \<Rightarrow>
                   if has_flag KEY_PREDEF key then (False, set_rerror STATUS_INVALID_HANDLE s1)
                   else case (if recurse then delete_subkeys ok fuel k s1
                              else if rk_subkeys key \<noteq> [] then (False, set_rerror STATUS_ACCESS_DENIED s1)
                              else (True, s1)) of (b, s2) \<Rightarrow>
                          if \<not> b then (False, s2)
                          else (True, touch_key parent REG_NOTIFY_CHANGE_NAME
                                  (unlink_named_object ok k (upd_key k (set_flag KEY_DELETED) s2))))"
| "delete_subkeys ok 0 k s = (False, crash s)"
| "delete_subkeys ok (Suc fuel) k s =
     (case rs_keys s k of
        None \<Rightarrow> (False, crash s)
      | Some key \<Rightarrow>
          if rk_subkeys key = [] then (True, s)
          else case delete_key ok fuel (last (rk_subkeys key)) True s of (b, s1) \<Rightarrow>
                 if \<not> b then (False, s1) else delete_subkeys ok fuel k s1)"

section \<open>Values\<close>

definition find_value :: "(nat \<Rightarrow> u16) \<Rightarrow> reg_key \<Rightarrow> wchar list \<Rightarrow> bool \<times> nat" where
  "find_value casemap key name =
     name_search (\<lambda>i. name_cmp casemap (kv_name (rk_values key ! i)) name) 0 (int (length (rk_values key)) - 1)"

definition grow_values :: "(nat \<Rightarrow> bool) \<Rightarrow> nat \<Rightarrow> rstate \<Rightarrow> bool \<times> rstate" where
  "grow_values ok k s =
     (case reg_alloc ok s of (b, s1) \<Rightarrow>
        if \<not> b then (False, s1) else (True, upd_key k (\<lambda>key. key\<lparr>rk_nb_values := grown MIN_VALUES (rk_nb_values key)\<rparr>) s1))"

text \<open>Insert a value of type \<open>type\<close> with data \<open>data\<close>, which the code stores right after making room for it.\<close>

definition insert_value :: "(nat \<Rightarrow> bool) \<Rightarrow> nat \<Rightarrow> reg_key \<Rightarrow> nat \<Rightarrow> key_value \<Rightarrow> rstate \<Rightarrow> bool \<times> rstate" where
  "insert_value ok k key index v s =
     (if length (kv_name v) > MAX_VALUE_LEN then (False, set_rerror STATUS_NAME_TOO_LONG s)
      else case (if length (rk_values key) = rk_nb_values key then grow_values ok k s else (True, s)) of (b, s1) \<Rightarrow>
             if \<not> b then (False, s1)
             else case (if kv_name v \<noteq> [] then reg_alloc ok s1 else (True, s1)) of (b', s2) \<Rightarrow>
                    if \<not> b' then (False, s2)
                    else (True, upd_key k (\<lambda>key. key\<lparr>rk_values := insert_at index v (rk_values key)\<rparr>) s2))"

definition set_value :: "(nat \<Rightarrow> bool) \<Rightarrow> (nat \<Rightarrow> u16) \<Rightarrow> nat \<Rightarrow> wchar list \<Rightarrow> u32 \<Rightarrow> u8 list \<Rightarrow> rstate \<Rightarrow> rstate" where
  "set_value ok casemap k name type data s =
     (case rs_keys s k of
        None \<Rightarrow> crash s
      | Some key \<Rightarrow>
          if has_flag KEY_PREDEF key then set_rerror STATUS_INVALID_HANDLE s
          else case find_value casemap key name of (found, index) \<Rightarrow>
            if found \<and> kv_type (rk_values key ! index) = type \<and> data \<noteq> [] \<and> kv_data (rk_values key ! index) = data then s
            else if has_flag KEY_SYMLINK key \<and>
                    (type \<noteq> REG_LINK \<or> length name \<noteq> length symlink_str \<or> memicmp_strW casemap name symlink_str (length name) \<noteq> 0)
            then set_rerror STATUS_ACCESS_DENIED s
            else case (if data \<noteq> [] then reg_alloc ok s else (True, s)) of (b, s1) \<Rightarrow>
                   if \<not> b then s1
                   else if \<not> found
                   then (case insert_value ok k key index \<lparr>kv_name = name, kv_type = type, kv_data = data\<rparr> s1 of (b', s2) \<Rightarrow>
                           if b' then touch_key k REG_NOTIFY_CHANGE_LAST_SET s2 else s2)
                   else touch_key k REG_NOTIFY_CHANGE_LAST_SET
                          (upd_key k (\<lambda>key. key\<lparr>rk_values := (rk_values key)[index := (rk_values key ! index)\<lparr>kv_type := type, kv_data := data\<rparr>]\<rparr>) s1))"

text \<open>The type, the full length and as much of the data as the reply has room for.\<close>

definition get_value :: "(nat \<Rightarrow> u16) \<Rightarrow> reg_key \<Rightarrow> wchar list \<Rightarrow> nat \<Rightarrow> (u32 \<times> nat \<times> u8 list) result" where
  "get_value casemap key name max_size =
     (if has_flag KEY_PREDEF key then Inl STATUS_INVALID_HANDLE
      else case find_value casemap key name of (found, index) \<Rightarrow>
        if found
        then let v = rk_values key ! index in Inr (kv_type v, length (kv_data v), take (min (length (kv_data v)) max_size) (kv_data v))
        else Inl STATUS_OBJECT_NAME_NOT_FOUND)"

definition delete_value :: "(nat \<Rightarrow> bool) \<Rightarrow> (nat \<Rightarrow> u16) \<Rightarrow> nat \<Rightarrow> wchar list \<Rightarrow> rstate \<Rightarrow> rstate" where
  "delete_value ok casemap k name s =
     (case rs_keys s k of
        None \<Rightarrow> crash s
      | Some key \<Rightarrow>
          if has_flag KEY_PREDEF key then set_rerror STATUS_INVALID_HANDLE s
          else case find_value casemap key name of (found, index) \<Rightarrow>
            if \<not> found then set_rerror STATUS_OBJECT_NAME_NOT_FOUND s
            else let s1 = touch_key k REG_NOTIFY_CHANGE_LAST_SET (upd_key k (\<lambda>key. key\<lparr>rk_values := remove_at index (rk_values key)\<rparr>) s)
                 in if shrinks MIN_VALUES (rk_nb_values key) (length (rk_values key) - 1)
                    then case try_realloc ok s1 of (b, s2) \<Rightarrow>
                           if b then upd_key k (\<lambda>key. key\<lparr>rk_nb_values := shrunk MIN_VALUES (rk_nb_values key)\<rparr>) s2 else s2
                    else s1)"

section \<open>Requests\<close>

text \<open>A handle to a deleted key is of no use except to delete the key again.\<close>

definition get_hkey_obj :: "nat \<Rightarrow> rstate \<Rightarrow> nat result" where
  "get_hkey_obj k s =
     (case rs_keys s k of
        None \<Rightarrow> Inl STATUS_INVALID_HANDLE
      | Some key \<Rightarrow> if has_flag KEY_DELETED key then Inl STATUS_KEY_DELETED else Inr k)"

fun add_event :: "nat \<Rightarrow> u32 \<Rightarrow> nat \<Rightarrow> notify list \<Rightarrow> notify list" where
  "add_event process hkey event [] = []"
| "add_event process hkey event (n # ns) =
     (if nf_process n = process \<and> nf_hkey n = hkey then n\<lparr>nf_events := nf_events n @ [event]\<rparr> # ns else n # add_event process hkey event ns)"

definition set_registry_notification :: "(nat \<Rightarrow> bool) \<Rightarrow> nat \<Rightarrow> u32 \<Rightarrow> nat \<Rightarrow> bool \<Rightarrow> u32 \<Rightarrow> nat \<Rightarrow> rstate \<Rightarrow> rstate" where
  "set_registry_notification ok process hkey event subtree fltr k s =
     (case rs_keys s k of
        None \<Rightarrow> crash s
      | Some key \<Rightarrow>
          (case (case find_notify key process hkey of
                   Some n \<Rightarrow> (True, s)
                 | None \<Rightarrow>
                     (case reg_alloc ok s of (b, s1) \<Rightarrow>
                        if b then (True, upd_key k (\<lambda>key. key\<lparr>rk_notify := \<lparr>nf_events = [], nf_subtree = subtree, nf_filter = fltr,
                                                                        nf_hkey = hkey, nf_process = process\<rparr> # rk_notify key\<rparr>) s1)
                        else (False, s1))) of (b, s1) \<Rightarrow>
             if \<not> b then s1
             else case try_realloc ok s1 of (b', s2) \<Rightarrow>
                    if \<not> b' then set_rerror STATUS_NO_MEMORY s2
                    else set_rerror STATUS_PENDING
                           (upd_key k (\<lambda>key. key\<lparr>rk_notify := add_event process hkey event (rk_notify key)\<rparr>) (s2\<lparr>rs_fired := rs_fired s2 @ [Reset_Event event]\<rparr>))))"

text \<open>
  One request, or the step of time or of a save between requests.  A key is created where the lookup of its name ended: below a key that
  is not deleted and no link, with one path element left that is no subkey; \<open>abs\<close> allows names that are not relative to a handle.
\<close>

inductive reg_step :: "(nat \<Rightarrow> bool) \<Rightarrow> (nat \<Rightarrow> u16) \<Rightarrow> bool \<Rightarrow> rstate \<Rightarrow> rstate \<Rightarrow> bool" for ok casemap abs where
  step_create: "get_hkey_obj p s = Inr p \<Longrightarrow> rs_keys s p = Some pk \<Longrightarrow> \<not> has_flag KEY_SYMLINK pk \<Longrightarrow>
    name \<noteq> [] \<Longrightarrow> get_path_element name = name \<Longrightarrow> length name \<le> MAX_NAME_LEN \<Longrightarrow> \<not> fst (find_subkey casemap s pk name) \<Longrightarrow>
    rel \<or> abs \<Longrightarrow> reg_step ok casemap abs s (snd (req_create_key ok casemap rel options cls p name s))"
| step_rename: "get_hkey_obj k s = Inr k \<Longrightarrow> reg_step ok casemap abs s (rename_key ok casemap k name s)"
| step_delete: "rs_keys s k = Some key \<Longrightarrow> reg_step ok casemap abs s (snd (delete_key ok (2 * rs_next s + 2) k recurse s))"
| step_set: "get_hkey_obj k s = Inr k \<Longrightarrow> reg_step ok casemap abs s (set_value ok casemap k name type data s)"
| step_delete_value: "get_hkey_obj k s = Inr k \<Longrightarrow> reg_step ok casemap abs s (delete_value ok casemap k name s)"
| step_notify: "get_hkey_obj k s = Inr k \<Longrightarrow> reg_step ok casemap abs s (set_registry_notification ok process hkey event subtree fltr k s)"
| step_close: "rs_keys s k = Some key \<Longrightarrow> reg_step ok casemap abs s (key_close_handle process handle k s)"
| step_saved: "get_hkey_obj k s = Inr k \<Longrightarrow> reg_step ok casemap abs s (snd (save_branch written k s))"
| step_time: "reg_step ok casemap abs s (s\<lparr>rs_time := t\<rparr>)"

text \<open>The registry starts with its root.\<close>

definition reg_init :: "wchar list \<Rightarrow> rstate" where
  "reg_init name = \<lparr>rs_keys = Map.empty(0 \<mapsto> blank_key\<lparr>rk_name := Some name, rk_flags := KEY_DIRTY\<rparr>), rs_next = 1, rs_time = 0, rs_fired = [],
     rs_error = 0, rs_allocs = 0, rs_ok = True\<rparr>"

inductive reg_reach :: "(nat \<Rightarrow> bool) \<Rightarrow> (nat \<Rightarrow> u16) \<Rightarrow> bool \<Rightarrow> rstate \<Rightarrow> bool" for ok casemap abs where
  reach_init: "reg_reach ok casemap abs (reg_init name)"
| reach_step: "reg_reach ok casemap abs s \<Longrightarrow> reg_step ok casemap abs s s' \<Longrightarrow> reg_reach ok casemap abs s'"

end
