(* ===== verification/Registry_Wf.thy ===== *)
theory Registry_Wf
  imports Registry
begin

unbundle bit_operations_syntax

text \<open>
  The invariant of the registry tree and its preservation: every subkey knows its parent and every parent lists its subkey; the subkeys
  and the values of every key are strictly sorted by name; the arrays have room for what is in them; a key is deleted exactly when it
  has lost its name.
\<close>

section \<open>The invariant\<close>

definition subkeys_wf :: "rstate \<Rightarrow> nat \<Rightarrow> reg_key \<Rightarrow> bool" where
  "subkeys_wf s k key \<longleftrightarrow> distinct (rk_subkeys key) \<and>
     (\<forall>c\<in>set (rk_subkeys key). k < c \<and> (\<exists>ck. rs_keys s c = Some ck \<and> rk_parent ck = Some k))"

definition parent_wf :: "rstate \<Rightarrow> nat \<Rightarrow> reg_key \<Rightarrow> bool" where
  "parent_wf s k key \<longleftrightarrow>
     (\<forall>p. rk_parent key = Some p \<longrightarrow> rk_name key \<noteq> None \<and> (\<exists>pk. rs_keys s p = Some pk \<and> k \<in> set (rk_subkeys pk)))"

definition values_wf :: "(nat \<Rightarrow> u16) \<Rightarrow> reg_key \<Rightarrow> bool" where
  "values_wf casemap key \<longleftrightarrow> name_order.ordered casemap (map kv_name (rk_values key)) \<and>
     (\<forall>v\<in>set (rk_values key). length (kv_name v) \<le> MAX_VALUE_LEN)"

definition room_wf :: "reg_key \<Rightarrow> bool" where
  "room_wf key \<longleftrightarrow> length (rk_subkeys key) \<le> rk_nb_subkeys key \<and> (rk_nb_subkeys key = 0 \<or> MIN_SUBKEYS \<le> rk_nb_subkeys key) \<and>
     length (rk_values key) \<le> rk_nb_values key \<and> (rk_nb_values key = 0 \<or> MIN_VALUES \<le> rk_nb_values key)"

definition state_wf :: "reg_key \<Rightarrow> bool" where
  "state_wf key \<longleftrightarrow> (rk_name key = None \<longleftrightarrow> has_flag KEY_DELETED key) \<and> (rk_name key = None \<longrightarrow> rk_subkeys key = []) \<and>
     (\<forall>w. rk_wow6432node key = Some w \<longrightarrow> w \<in> set (rk_subkeys key))"

definition key_wf :: "(nat \<Rightarrow> u16) \<Rightarrow> rstate \<Rightarrow> nat \<Rightarrow> reg_key \<Rightarrow> bool" where
  "key_wf casemap s k key \<longleftrightarrow> k < rs_next s \<and> subkeys_wf s k key \<and> parent_wf s k key \<and>
     name_order.ordered casemap (map (key_name s) (rk_subkeys key)) \<and> values_wf casemap key \<and> room_wf key \<and> state_wf key"

definition reg_wf :: "(nat \<Rightarrow> u16) \<Rightarrow> rstate \<Rightarrow> bool" where
  "reg_wf casemap s \<longleftrightarrow> (\<forall>k key. rs_keys s k = Some key \<longrightarrow> key_wf casemap s k key)"

lemma reg_wfD: "reg_wf casemap s \<Longrightarrow> rs_keys s k = Some key \<Longrightarrow> key_wf casemap s k key"
  by (simp add: reg_wf_def)

lemma key_wfD:
  assumes "key_wf casemap s k key"
  shows "k < rs_next s" "subkeys_wf s k key" "parent_wf s k key" "name_order.ordered casemap (map (key_name s) (rk_subkeys key))"
    "values_wf casemap key" "room_wf key" "state_wf key"
  using assms by (simp_all add: key_wf_def)

lemma subkeyD:
  assumes "reg_wf casemap s" "rs_keys s k = Some key" "c \<in> set (rk_subkeys key)"
  shows "k < c" "\<exists>ck. rs_keys s c = Some ck \<and> rk_parent ck = Some k \<and> rk_name ck \<noteq> None"
proof -
  note w = reg_wfD [OF assms(1,2)]
  show "k < c" using key_wfD(2) [OF w] assms(3) by (simp add: subkeys_wf_def)
  obtain ck where ck: "rs_keys s c = Some ck" "rk_parent ck = Some k" using key_wfD(2) [OF w] assms(3) by (auto simp: subkeys_wf_def)
  then show "\<exists>ck. rs_keys s c = Some ck \<and> rk_parent ck = Some k \<and> rk_name ck \<noteq> None"
    using key_wfD(3) [OF reg_wfD [OF assms(1) ck(1)]] by (simp add: parent_wf_def)
qed

lemma parentD:
  assumes "reg_wf casemap s" "rs_keys s k = Some key" "rk_parent key = Some p"
  shows "p < k" "rk_name key \<noteq> None" "\<exists>pk. rs_keys s p = Some pk \<and> k \<in> set (rk_subkeys pk) \<and> rk_name pk \<noteq> None"
proof -
  obtain pk where pk: "rs_keys s p = Some pk" "k \<in> set (rk_subkeys pk)"
    using key_wfD(3) [OF reg_wfD [OF assms(1,2)]] assms(3) by (auto simp: parent_wf_def)
  show "rk_name key \<noteq> None" using key_wfD(3) [OF reg_wfD [OF assms(1,2)]] assms(3) by (auto simp: parent_wf_def)
  show "p < k" by (rule subkeyD(1) [OF assms(1) pk])
  have "rk_name pk \<noteq> None" using key_wfD(7) [OF reg_wfD [OF assms(1) pk(1)]] pk(2) by (auto simp: state_wf_def)
  then show "\<exists>pk. rs_keys s p = Some pk \<and> k \<in> set (rk_subkeys pk) \<and> rk_name pk \<noteq> None" using pk by blast
qed

text \<open>A key only depends on its neighbours.\<close>

lemma key_wf_frame:
  assumes w: "key_wf casemap s k key" and n: "rs_next s \<le> rs_next s'"
    and c: "\<And>c ck. c \<in> set (rk_subkeys key) \<Longrightarrow> rs_keys s c = Some ck \<Longrightarrow> rk_parent ck = Some k \<Longrightarrow>
      key_name s' c = key_name s c \<and> (\<exists>ck'. rs_keys s' c = Some ck' \<and> rk_parent ck' = Some k)"
    and p: "\<And>p pk. rk_parent key = Some p \<Longrightarrow> rs_keys s p = Some pk \<Longrightarrow> k \<in> set (rk_subkeys pk) \<Longrightarrow>
      \<exists>pk'. rs_keys s' p = Some pk' \<and> k \<in> set (rk_subkeys pk')"
  shows "key_wf casemap s' k key"
proof -
  have c': "key_name s' c = key_name s c \<and> (\<exists>ck'. rs_keys s' c = Some ck' \<and> rk_parent ck' = Some k)" if "c \<in> set (rk_subkeys key)" for c
    using that c key_wfD(2) [OF w] by (auto simp: subkeys_wf_def)
  then have "map (key_name s') (rk_subkeys key) = map (key_name s) (rk_subkeys key)" by simp
  then have "name_order.ordered casemap (map (key_name s') (rk_subkeys key))" using key_wfD(4) [OF w] by argo
  moreover have "subkeys_wf s' k key" using key_wfD(2) [OF w] c' by (simp add: subkeys_wf_def)
  moreover have "parent_wf s' k key" using key_wfD(3) [OF w] p unfolding parent_wf_def by blast
  ultimately show ?thesis using w n by (simp add: key_wf_def)
qed

section \<open>Changes that do not touch the tree\<close>

text \<open>Two states with the same tree: the modification time, the dirty flags and the notifications may differ.\<close>

definition tree_of :: "reg_key \<Rightarrow> reg_key" where
  "tree_of key = key\<lparr>rk_modif := 0, rk_flags := rk_flags key AND NOT KEY_DIRTY, rk_notify := []\<rparr>"

definition same_tree :: "rstate \<Rightarrow> rstate \<Rightarrow> bool" where
  "same_tree s s' \<longleftrightarrow> rs_next s' = rs_next s \<and> (\<forall>k. map_option tree_of (rs_keys s' k) = map_option tree_of (rs_keys s k))"

lemma same_tree_refl [simp]: "same_tree s s"
  by (simp add: same_tree_def)

lemma same_tree_trans [trans]: "same_tree s s' \<Longrightarrow> same_tree s' s'' \<Longrightarrow> same_tree s s''"
  by (simp add: same_tree_def)

lemma same_tree_sym: "same_tree s s' \<Longrightarrow> same_tree s' s"
  by (simp add: same_tree_def)

lemma tree_of_eqD:
  assumes "tree_of a = tree_of b"
  shows "rk_name a = rk_name b" "rk_parent a = rk_parent b" "rk_class a = rk_class b" "rk_subkeys a = rk_subkeys b"
    "rk_nb_subkeys a = rk_nb_subkeys b" "rk_wow6432node a = rk_wow6432node b" "rk_values a = rk_values b" "rk_nb_values a = rk_nb_values b"
    "rk_flags a AND NOT KEY_DIRTY = rk_flags b AND NOT KEY_DIRTY"
  using arg_cong [OF assms, of rk_name] arg_cong [OF assms, of rk_parent] arg_cong [OF assms, of rk_class] arg_cong [OF assms, of rk_subkeys]
    arg_cong [OF assms, of rk_nb_subkeys] arg_cong [OF assms, of rk_wow6432node] arg_cong [OF assms, of rk_values]
    arg_cong [OF assms, of rk_nb_values] arg_cong [OF assms, of rk_flags]
  by (simp_all add: tree_of_def)

lemma tree_of_flag: "f AND KEY_DIRTY = 0 \<Longrightarrow> tree_of a = tree_of b \<Longrightarrow> has_flag f a = has_flag f b"
proof -
  assume f: "f AND KEY_DIRTY = 0" and e: "tree_of a = tree_of b"
  have "x AND f = (x AND NOT KEY_DIRTY) AND f" for x :: u32
  proof -
    have "f AND NOT KEY_DIRTY = f"
    proof (rule bit_eqI)
      fix n
      assume "possible_bit TYPE(32 word) n"
      moreover have "\<not> bit (f AND KEY_DIRTY) n" using f by simp
      ultimately show "bit (f AND NOT KEY_DIRTY) n \<longleftrightarrow> bit f n" by (auto simp: bit_and_iff bit_not_iff)
    qed
    then show ?thesis by (metis and.assoc and.commute)
  qed
  then show ?thesis using tree_of_eqD(9) [OF e] unfolding has_flag_def by metis
qed

lemma same_treeD:
  assumes "same_tree s s'" "rs_keys s k = Some key"
  shows "\<exists>key'. rs_keys s' k = Some key' \<and> tree_of key' = tree_of key"
  using assms by (auto simp: same_tree_def dest: spec [of _ k])

lemma same_tree_name: "same_tree s s' \<Longrightarrow> key_name s' k = key_name s k"
proof (cases "rs_keys s k")
  case None
  assume "same_tree s s'"
  then have "map_option tree_of (rs_keys s' k) = map_option tree_of (rs_keys s k)" by (simp add: same_tree_def)
  then show ?thesis using None by (simp add: key_name_def)
next
  case (Some key)
  assume "same_tree s s'"
  then obtain key' where k': "rs_keys s' k = Some key'" "tree_of key' = tree_of key" using same_treeD Some by blast
  then show ?thesis using Some tree_of_eqD(1) [OF k'(2)] by (simp add: key_name_def)
qed

lemma KEY_flags_disjoint [simp]: "KEY_DELETED AND KEY_DIRTY = 0" "KEY_VOLATILE AND KEY_DIRTY = 0" "KEY_PREDEF AND KEY_DIRTY = 0" "KEY_SYMLINK AND KEY_DIRTY = 0"
  by (simp_all add: KEY_DELETED_def KEY_VOLATILE_def KEY_PREDEF_def KEY_SYMLINK_def KEY_DIRTY_def)

lemma key_wf_tree:
  assumes "key_wf casemap s k key" "tree_of key' = tree_of key"
  shows "key_wf casemap s k key'"
  using assms(1) unfolding key_wf_def subkeys_wf_def parent_wf_def values_wf_def room_wf_def state_wf_def
    tree_of_eqD(1-8) [OF assms(2)] tree_of_flag [OF KEY_flags_disjoint(1) assms(2)] by assumption

lemma reg_wf_same:
  assumes wf: "reg_wf casemap s" and t: "same_tree s s'"
  shows "reg_wf casemap s'"
  unfolding reg_wf_def
proof (intro allI impI)
  fix k key'
  assume k': "rs_keys s' k = Some key'"
  then obtain key where k: "rs_keys s k = Some key" "tree_of key = tree_of key'" using same_treeD [OF same_tree_sym [OF t]] by blast
  have "key_wf casemap s k key'" by (rule key_wf_tree [OF reg_wfD [OF wf k(1)]]) (simp add: k(2))
  then show "key_wf casemap s' k key'"
  proof (rule key_wf_frame)
    show "rs_next s \<le> rs_next s'" using t by (simp add: same_tree_def)
  next
    fix c ck
    assume "rs_keys s c = Some ck" "rk_parent ck = Some k"
    moreover then obtain ck' where "rs_keys s' c = Some ck'" "tree_of ck' = tree_of ck" using same_treeD [OF t] by blast
    ultimately show "key_name s' c = key_name s c \<and> (\<exists>ck'. rs_keys s' c = Some ck' \<and> rk_parent ck' = Some k)"
      using same_tree_name [OF t] tree_of_eqD(2) by metis
  next
    fix p pk
    assume "rs_keys s p = Some pk" "k \<in> set (rk_subkeys pk)"
    moreover then obtain pk' where "rs_keys s' p = Some pk'" "tree_of pk' = tree_of pk" using same_treeD [OF t] by blast
    ultimately show "\<exists>pk'. rs_keys s' p = Some pk' \<and> k \<in> set (rk_subkeys pk')" using tree_of_eqD(4) by metis
  qed
qed

text \<open>The steps of touching a key.\<close>

lemma upd_key_simps [simp]:
  "rs_next (upd_key k f s) = rs_next s" "rs_ok (upd_key k f s) = rs_ok s" "rs_time (upd_key k f s) = rs_time s" "rs_fired (upd_key k f s) = rs_fired s"
  "rs_error (upd_key k f s) = rs_error s" "rs_allocs (upd_key k f s) = rs_allocs s"
  "rs_keys (upd_key k f s) j = (if j = k then map_option f (rs_keys s k) else rs_keys s j)"
  by (simp_all add: upd_key_def)

lemma set_rerror_simps [simp]:
  "rs_next (set_rerror e s) = rs_next s" "rs_ok (set_rerror e s) = rs_ok s" "rs_time (set_rerror e s) = rs_time s" "rs_fired (set_rerror e s) = rs_fired s"
  "rs_keys (set_rerror e s) = rs_keys s" "rs_allocs (set_rerror e s) = rs_allocs s"
  by (simp_all add: set_rerror_def)

lemma same_tree_upd: "(\<And>key. rs_keys s k = Some key \<Longrightarrow> tree_of (f key) = tree_of key) \<Longrightarrow> same_tree s (upd_key k f s)"
  by (cases "rs_keys s k") (simp_all add: same_tree_def)

lemma same_tree_keys: "rs_keys s' = rs_keys s \<Longrightarrow> rs_next s' = rs_next s \<Longrightarrow> same_tree s s'"
  by (simp add: same_tree_def)

lemma tree_of_dirty [simp]: "tree_of (set_flag KEY_DIRTY key) = tree_of key"
  by (simp add: tree_of_def set_flag_def bit.conj_disj_distrib2)

lemma tree_of_upd [simp]: "tree_of (key\<lparr>rk_modif := m\<rparr>) = tree_of key" "tree_of (key\<lparr>rk_notify := n\<rparr>) = tree_of key"
  "tree_of (key\<lparr>rk_flags := rk_flags key AND NOT KEY_DIRTY\<rparr>) = tree_of key"
  by (simp_all add: tree_of_def)

definition alive :: "nat \<Rightarrow> rstate \<Rightarrow> bool" where
  "alive k s \<longleftrightarrow> (\<exists>key. rs_keys s k = Some key \<and> rk_name key \<noteq> None)"

lemma alive_same: "same_tree s s' \<Longrightarrow> alive k s' = alive k s"
proof -
  have "alive k s'" if "same_tree s s'" "alive k s" for s s'
    using that tree_of_eqD(1) unfolding alive_def by (metis same_treeD)
  then show "same_tree s s' \<Longrightarrow> alive k s' = alive k s" using same_tree_sym by blast
qed

lemma alive_parent: "reg_wf casemap s \<Longrightarrow> rs_keys s k = Some key \<Longrightarrow> rk_parent key = Some p \<Longrightarrow> alive p s \<and> p < k"
  using parentD unfolding alive_def by blast

lemma alive_hkey:
  assumes "reg_wf casemap s" "get_hkey_obj k s = Inr k"
  shows "alive k s"
proof -
  obtain key where k: "rs_keys s k = Some key" "\<not> has_flag KEY_DELETED key" using assms(2) by (auto simp: get_hkey_obj_def split: option.splits if_splits)
  then show ?thesis using key_wfD(7) [OF reg_wfD [OF assms(1) k(1)]] by (simp add: alive_def state_wf_def)
qed

lemma get_parent_alive: "alive k s \<Longrightarrow> rs_keys s k = Some key \<Longrightarrow> get_parent k s = (rk_parent key, s)"
  by (auto simp: alive_def get_parent_def)

text \<open>A change of the state that leaves the tree alone and does not crash.\<close>

definition quiet :: "rstate \<Rightarrow> rstate \<Rightarrow> bool" where
  "quiet s s' \<longleftrightarrow> same_tree s s' \<and> rs_ok s' = rs_ok s"

lemma quiet_refl [simp]: "quiet s s"
  by (simp add: quiet_def)

lemma quiet_trans: "quiet s s' \<Longrightarrow> quiet s' s'' \<Longrightarrow> quiet s s''"
  unfolding quiet_def by (metis same_tree_trans)

lemma quiet_wf: "quiet s s' \<Longrightarrow> reg_wf casemap s \<Longrightarrow> reg_wf casemap s'"
  unfolding quiet_def using reg_wf_same by blast

lemma quiet_alive: "quiet s s' \<Longrightarrow> alive k s' = alive k s"
  unfolding quiet_def using alive_same by blast

lemma quiet_upd: "(\<And>key. rs_keys s k = Some key \<Longrightarrow> tree_of (f key) = tree_of key) \<Longrightarrow> quiet s (upd_key k f s)"
  by (simp add: quiet_def same_tree_upd)

lemma quiet_rerror [simp]: "quiet s (set_rerror e s)"
  by (simp add: quiet_def same_tree_keys)

lemma check_notify_quiet: "alive k s \<Longrightarrow> quiet s (check_notify change b k s)"
proof -
  assume "alive k s"
  then obtain key where k: "rs_keys s k = Some key" by (auto simp: alive_def)
  let ?hit = "notify_matches change b"
  let ?s1 = "s\<lparr>rs_fired := rs_fired s @ map Set_Event (concat (map nf_events (filter ?hit (rk_notify key))))\<rparr>"
  have q: "quiet s ?s1" by (simp add: quiet_def same_tree_keys)
  have "quiet ?s1 (upd_key k (\<lambda>key. key\<lparr>rk_notify := map (\<lambda>n. if ?hit n then n\<lparr>nf_events := []\<rparr> else n) (rk_notify key)\<rparr>) ?s1)"
    by (rule quiet_upd) simp
  from quiet_trans [OF q this] show ?thesis unfolding check_notify_def k Let_def option.case .
qed

lemma make_dirty_quiet: "reg_wf casemap s \<Longrightarrow> alive k s \<Longrightarrow> k < fuel \<Longrightarrow> quiet s (make_dirty fuel k s)"
proof (induction fuel arbitrary: k s)
  case (Suc fuel)
  obtain key where k: "rs_keys s k = Some key" using Suc.prems(2) by (auto simp: alive_def)
  let ?s1 = "upd_key k (set_flag KEY_DIRTY) s"
  show ?case
  proof (cases "has_flag (KEY_DIRTY OR KEY_VOLATILE) key")
    case True
    then show ?thesis using k by simp
  next
    case False
    have q: "quiet s ?s1" by (rule quiet_upd) simp
    have g: "get_parent k ?s1 = (rk_parent key, ?s1)"
      using get_parent_alive [of k ?s1 "set_flag KEY_DIRTY key"] quiet_alive [OF q] Suc.prems(2) k by (simp add: set_flag_def)
    show ?thesis
    proof (cases "rk_parent key")
      case None
      then show ?thesis using k False g q by simp
    next
      case (Some p)
      have p: "alive p s" "p < k" using alive_parent [OF Suc.prems(1) k Some] by auto
      have "quiet ?s1 (make_dirty fuel p ?s1)"
        by (rule Suc.IH) (use quiet_wf [OF q Suc.prems(1)] quiet_alive [OF q] p Suc.prems(3) in auto)
      then show ?thesis using k False g Some quiet_trans [OF q] by simp
    qed
  qed
qed simp

lemma notify_parents_quiet: "reg_wf casemap s \<Longrightarrow> alive k s \<Longrightarrow> k < fuel \<Longrightarrow> quiet s (notify_parents fuel change k s)"
proof (induction fuel arbitrary: k s)
  case (Suc fuel)
  obtain key where k: "rs_keys s k = Some key" using Suc.prems(2) by (auto simp: alive_def)
  note g = get_parent_alive [OF Suc.prems(2) k]
  show ?case
  proof (cases "rk_parent key")
    case None
    then show ?thesis using g by simp
  next
    case (Some p)
    have p: "alive p s" "p < k" using alive_parent [OF Suc.prems(1) k Some] by auto
    note q = check_notify_quiet [OF p(1), of change False]
    have "quiet (check_notify change False p s) (notify_parents fuel change p (check_notify change False p s))"
      by (rule Suc.IH) (use quiet_wf [OF q Suc.prems(1)] quiet_alive [OF q] p Suc.prems(3) in auto)
    then show ?thesis using g Some quiet_trans [OF q] by simp
  qed
qed simp

lemma alive_less: "reg_wf casemap s \<Longrightarrow> alive k s \<Longrightarrow> k < rs_next s"
  using reg_wfD key_wfD(1) unfolding alive_def by blast

lemma quiet_next: "quiet s s' \<Longrightarrow> rs_next s' = rs_next s"
  by (simp add: quiet_def same_tree_def)

lemma touch_key_quiet:
  assumes wf: "reg_wf casemap s" and a: "alive k s"
  shows "quiet s (touch_key k change s)"
proof -
  let ?s0 = "upd_key k (\<lambda>key. key\<lparr>rk_modif := rs_time s\<rparr>) s"
  let ?s1 = "make_dirty (Suc (rs_next s)) k ?s0"
  let ?s2 = "check_notify change True k ?s1"
  have q0: "quiet s ?s0" by (rule quiet_upd) simp
  have k: "k < Suc (rs_next s)" using alive_less [OF wf a] by simp
  have q1: "quiet s ?s1" using quiet_trans [OF q0] make_dirty_quiet quiet_wf [OF q0 wf] quiet_alive [OF q0] a k by blast
  have q2: "quiet s ?s2" using quiet_trans [OF q1] check_notify_quiet quiet_alive [OF q1] a by blast
  have "quiet ?s2 (notify_parents (Suc (rs_next s)) change k ?s2)"
    by (rule notify_parents_quiet) (use quiet_wf [OF q2 wf] quiet_alive [OF q2] a k in auto)
  then show ?thesis using quiet_trans [OF q2] by (simp add: touch_key_def Let_def)
qed

lemma fold_quiet:
  assumes "\<And>x s. x \<in> set xs \<Longrightarrow> P x s \<Longrightarrow> quiet s (f x s)" "\<And>x y s. x \<in> set xs \<Longrightarrow> y \<in> set xs \<Longrightarrow> P x s \<Longrightarrow> P y s \<Longrightarrow> P y (f x s)"
    "\<forall>x\<in>set xs. P x s"
  shows "quiet s (fold f xs s)"
  using assms
proof (induction xs arbitrary: s)
  case (Cons x xs)
  have q: "quiet s (f x s)" using Cons.prems(1,3) by simp
  have "quiet (f x s) (fold f xs (f x s))" by (rule Cons.IH) (use Cons.prems in auto)
  then show ?case using quiet_trans [OF q] by simp
qed simp

lemma make_clean_quiet: "reg_wf casemap s \<Longrightarrow> alive k s \<Longrightarrow> rs_next s \<le> k + fuel \<Longrightarrow> quiet s (make_clean fuel k s)"
proof (induction fuel arbitrary: k s)
  case 0
  then show ?case using alive_less by fastforce
next
  case (Suc fuel)
  obtain key where k: "rs_keys s k = Some key" using Suc.prems(2) by (auto simp: alive_def)
  let ?s1 = "upd_key k (\<lambda>key. key\<lparr>rk_flags := rk_flags key AND NOT KEY_DIRTY\<rparr>) s"
  let ?P = "\<lambda>c s. reg_wf casemap s \<and> alive c s \<and> rs_next s \<le> c + fuel"
  have q: "quiet s ?s1" by (rule quiet_upd) simp
  have P: "\<forall>c\<in>set (rk_subkeys key). ?P c ?s1"
  proof
    fix c
    assume c: "c \<in> set (rk_subkeys key)"
    have "k < c" "alive c s" using subkeyD [OF Suc.prems(1) k c] by (auto simp: alive_def)
    then show "?P c ?s1" using quiet_wf [OF q Suc.prems(1)] quiet_alive [OF q] Suc.prems(3) by simp
  qed
  have "quiet ?s1 (fold (make_clean fuel) (rk_subkeys key) ?s1)"
  proof (rule fold_quiet [where P = ?P, OF _ _ P])
    show "\<And>x s. ?P x s \<Longrightarrow> quiet s (make_clean fuel x s)" using Suc.IH by blast
    then show "\<And>x y s. ?P x s \<Longrightarrow> ?P y s \<Longrightarrow> ?P y (make_clean fuel x s)" using quiet_wf quiet_alive quiet_next by metis
  qed
  then show ?case using k quiet_trans [OF q] by simp
qed

end
