(* ===== verification/Registry_Ops.thy ===== *)
theory Registry_Ops
  imports Registry_Wf
begin

unbundle bit_operations_syntax

text \<open>
  Tools for the operations on the registry tree, and the operations on values: setting and deleting a value keeps the invariant, does not crash,
  and changes one entry of the map from names to values.
\<close>

section \<open>Changes of one key\<close>

lemma upd_key_wf:
  assumes wf: "reg_wf casemap s" and k: "rs_keys s k = Some key"
    and s': "rs_keys s' = (rs_keys s)(k \<mapsto> key')" "rs_next s \<le> rs_next s'"
    and f: "rk_name key' = rk_name key" "rk_parent key' = rk_parent key" "rk_subkeys key' = rk_subkeys key"
      "values_wf casemap key'" "room_wf key'" "state_wf key'"
  shows "reg_wf casemap s'"
  unfolding reg_wf_def
proof (intro allI impI)
  have n: "key_name s' j = key_name s j" for j using k f(1) by (simp add: key_name_def s')
  have up: "\<exists>ck'. rs_keys s' c = Some ck' \<and> rk_parent ck' = rk_parent ck \<and> rk_subkeys ck' = rk_subkeys ck" if "rs_keys s c = Some ck" for c ck
    using that k f by (cases "c = k") (auto simp: s')
  fix j jk
  assume j: "rs_keys s' j = Some jk"
  have "key_wf casemap s j jk"
  proof (cases "j = k")
    case True
    then have "jk = key'" using j k by (simp add: s')
    then show ?thesis using reg_wfD [OF wf k] f True by (simp add: key_wf_def subkeys_wf_def parent_wf_def)
  next
    case False
    then show ?thesis using j reg_wfD [OF wf] by (simp add: s')
  qed
  then show "key_wf casemap s' j jk"
  proof (rule key_wf_frame)
    show "\<And>c ck. rs_keys s c = Some ck \<Longrightarrow> rk_parent ck = Some j \<Longrightarrow>
        key_name s' c = key_name s c \<and> (\<exists>ck'. rs_keys s' c = Some ck' \<and> rk_parent ck' = Some j)" using up n by metis
    show "\<And>p pk. rs_keys s p = Some pk \<Longrightarrow> j \<in> set (rk_subkeys pk) \<Longrightarrow> \<exists>pk'. rs_keys s' p = Some pk' \<and> j \<in> set (rk_subkeys pk')"
      using up by metis
  qed (rule s'(2))
qed

lemma alive_upd: "rs_keys s k = Some key \<Longrightarrow> rs_keys s' = (rs_keys s)(k \<mapsto> key') \<Longrightarrow> rk_name key' = rk_name key \<Longrightarrow> alive j s' = alive j s"
  by (auto simp: alive_def)

lemma grown_room: "len \<le> nb \<Longrightarrow> nb = 0 \<or> 8 \<le> nb \<Longrightarrow> len < grown 8 nb \<and> nb \<le> grown 8 nb \<and> 8 \<le> grown 8 nb"
  by (auto simp: grown_def)

lemma shrunk_room: "shrinks 8 nb len \<Longrightarrow> len \<le> shrunk 8 nb \<and> 8 \<le> shrunk 8 nb"
  by (auto simp: shrinks_def shrunk_def)

lemma try_realloc_quiet: "try_realloc ok s = (b, s') \<Longrightarrow> quiet s s' \<and> rs_keys s' = rs_keys s"
  by (auto simp: try_realloc_def quiet_def same_tree_keys)

lemma reg_alloc_quiet: "reg_alloc ok s = (b, s') \<Longrightarrow> quiet s s' \<and> rs_keys s' = rs_keys s"
  by (auto simp: reg_alloc_def quiet_def same_tree_keys try_realloc_def)

text \<open>What is preserved by an operation: the invariant, and that nothing has crashed.\<close>

definition keeps :: "(nat \<Rightarrow> u16) \<Rightarrow> rstate \<Rightarrow> rstate \<Rightarrow> bool" where
  "keeps casemap s s' \<longleftrightarrow> reg_wf casemap s' \<and> rs_ok s' = rs_ok s"

lemma keeps_quiet: "reg_wf casemap s \<Longrightarrow> quiet s s' \<Longrightarrow> keeps casemap s s'"
  by (auto simp: keeps_def quiet_wf) (auto simp: quiet_def)

lemma keeps_trans: "keeps casemap s s' \<Longrightarrow> keeps casemap s' s'' \<Longrightarrow> keeps casemap s s''"
  by (simp add: keeps_def)

lemma keeps_touch:
  assumes "keeps casemap s s'" "alive k s'"
  shows "keeps casemap s (touch_key k change s')"
  using assms keeps_trans keeps_quiet touch_key_quiet unfolding keeps_def quiet_def by metis

section \<open>Values\<close>

lemma find_value_names:
  "find_value casemap key name =
     name_search (\<lambda>i. name_cmp casemap (map kv_name (rk_values key) ! i) name) 0 (int (length (map kv_name (rk_values key))) - 1)"
  unfolding find_value_def by (rule name_search_map)

lemma find_subkey_names:
  "find_subkey casemap s key name =
     name_search (\<lambda>i. name_cmp casemap (map (key_name s) (rk_subkeys key) ! i) name) 0 (int (length (map (key_name s) (rk_subkeys key))) - 1)"
  unfolding find_subkey_def by (rule name_search_map)

lemma MIN_eq: "MIN_SUBKEYS = 8" "MIN_VALUES = 8"
  by (simp_all add: MIN_SUBKEYS_def MIN_VALUES_def)

lemma map_insert_at: "map f (insert_at i x xs) = insert_at i (f x) (map f xs)"
  by (simp add: insert_at_def take_map drop_map)

lemma map_remove_at: "map f (remove_at i xs) = remove_at i (map f xs)"
  by (simp add: remove_at_def take_map drop_map)

lemma length_insert_at: "length (insert_at i x xs) = Suc (length xs)"
  by (simp add: insert_at_def)

lemma length_remove_at: "i < length xs \<Longrightarrow> length (remove_at i xs) = length xs - 1"
  by (simp add: remove_at_def)

lemma set_insert_at: "set (insert_at i x xs) = insert x (set xs)"
  unfolding insert_at_def by (metis Un_insert_right append_take_drop_id list.simps(15) set_append)

text \<open>Operations on values change one key; the rest of the state is as before.\<close>

definition changes_key :: "nat \<Rightarrow> reg_key \<Rightarrow> rstate \<Rightarrow> rstate \<Rightarrow> bool" where
  "changes_key k key' s s' \<longleftrightarrow> rs_keys s' = (rs_keys s)(k \<mapsto> key') \<and> rs_next s' = rs_next s \<and> rs_ok s' = rs_ok s"

lemma nb_values_same: "rk_nb_values key = n \<Longrightarrow> key\<lparr>rk_nb_values := n\<rparr> = key"
  by auto

lemma insert_value_effect:
  assumes k: "rs_keys s k = Some key" and room: "room_wf key" and r: "insert_value ok k key i v s = (b, s')"
  shows "b \<longrightarrow> length (kv_name v) \<le> MAX_VALUE_LEN"
    and "\<exists>nb. changes_key k (key\<lparr>rk_nb_values := nb, rk_values := if b then insert_at i v (rk_values key) else rk_values key\<rparr>) s s' \<and>
      (if b then length (rk_values key) < nb \<and> 8 \<le> nb else rk_nb_values key \<le> nb \<and> (nb = 0 \<or> 8 \<le> nb))"
proof -
  have R: "length (rk_values key) \<le> rk_nb_values key" "rk_nb_values key = 0 \<or> 8 \<le> rk_nb_values key" using room by (simp_all add: room_wf_def MIN_eq)
  have kk: "rs_keys s = (rs_keys s)(k \<mapsto> key)" using k by auto
  note g = grown_room [OF R]
  show "b \<longrightarrow> length (kv_name v) \<le> MAX_VALUE_LEN" using r by (auto simp: insert_value_def split: if_splits)
  show "\<exists>nb. changes_key k (key\<lparr>rk_nb_values := nb, rk_values := if b then insert_at i v (rk_values key) else rk_values key\<rparr>) s s' \<and>
      (if b then length (rk_values key) < nb \<and> 8 \<le> nb else rk_nb_values key \<le> nb \<and> (nb = 0 \<or> 8 \<le> nb))"
  proof (cases "length (rk_values key) = rk_nb_values key")
    case True
    then show ?thesis using r k kk g R
      by (auto simp: insert_value_def grow_values_def reg_alloc_def try_realloc_def changes_key_def upd_key_def set_rerror_def MIN_eq split: if_splits
        intro: exI [of _ "rk_nb_values key"] exI [of _ "grown 8 (rk_nb_values key)"] exI [of _ 0] simp: nb_values_same)
  next
    case False
    then show ?thesis using r k kk R
      by (auto simp: insert_value_def reg_alloc_def try_realloc_def changes_key_def upd_key_def set_rerror_def MIN_eq split: if_splits
        intro!: exI [of _ "rk_nb_values key"])
  qed
qed

lemma changes_key_keeps:
  assumes "reg_wf casemap s" "rs_keys s k = Some key" "changes_key k key' s s'" "rk_name key' = rk_name key" "rk_parent key' = rk_parent key"
    "rk_subkeys key' = rk_subkeys key" "values_wf casemap key'" "room_wf key'" "state_wf key'"
  shows "keeps casemap s s'" "alive j s' = alive j s"
proof -
  show "keeps casemap s s'" unfolding keeps_def
    using upd_key_wf [OF assms(1,2) _ _ assms(4-9), of s'] assms(3) by (simp add: changes_key_def)
  show "alive j s' = alive j s" using alive_upd [OF assms(2) _ assms(4), of s' j] assms(3) by (simp add: changes_key_def)
qed

lemma changes_key_quiet: "quiet s s1 \<Longrightarrow> rs_keys s1 = rs_keys s \<Longrightarrow> changes_key k key' s1 s' \<Longrightarrow> changes_key k key' s s'"
  by (simp add: changes_key_def quiet_def same_tree_def)

text \<open>The values of a key as a map from names, up to case, to types and data.\<close>

definition value_map :: "(nat \<Rightarrow> u16) \<Rightarrow> reg_key \<Rightarrow> int list \<Rightarrow> (u32 \<times> u8 list) option" where
  "value_map casemap key = map_of (map (\<lambda>v. (name_key casemap (kv_name v), kv_type v, kv_data v)) (rk_values key))"

lemma value_map_iff:
  assumes "values_wf casemap key"
  shows "value_map casemap key n = Some x \<longleftrightarrow> (\<exists>v\<in>set (rk_values key). name_key casemap (kv_name v) = n \<and> x = (kv_type v, kv_data v))"
proof -
  have "distinct (map (name_key casemap) (map kv_name (rk_values key)))"
    using assms unfolding values_wf_def name_order.ordered_def strict_sorted_iff by blast
  then have "distinct (map fst (map (\<lambda>v. (name_key casemap (kv_name v), kv_type v, kv_data v)) (rk_values key)))" by (simp add: comp_def)
  then show ?thesis unfolding value_map_def by (subst map_of_eq_Some_iff) auto
qed

text \<open>Association lists under the three changes of an array.\<close>

lemma map_of_middle:
  assumes "k \<notin> fst ` set a" "k \<notin> fst ` set b"
  shows "map_of (a @ (k, y) # b) = (map_of (a @ b))(k \<mapsto> y)" "map_of (a @ b) = (map_of (a @ (k, y) # b))(k := None)"
proof -
  have "map_of a k = None" "map_of b k = None" using assms by (simp_all add: map_of_eq_None_iff)
  then show "map_of (a @ (k, y) # b) = (map_of (a @ b))(k \<mapsto> y)" "map_of (a @ b) = (map_of (a @ (k, y) # b))(k := None)"
    by (auto simp: fun_eq_iff map_add_def split: option.split)
qed

lemma distinct_middle:
  assumes "distinct (map fst E)" "i < length E"
  shows "fst (E ! i) \<notin> fst ` set (take i E)" "fst (E ! i) \<notin> fst ` set (drop (Suc i) E)"
proof -
  have "map fst E = map fst (take i E) @ fst (E ! i) # map fst (drop (Suc i) E)"
    using assms(2) by (metis id_take_nth_drop list.simps(9) map_append)
  then show "fst (E ! i) \<notin> fst ` set (take i E)" "fst (E ! i) \<notin> fst ` set (drop (Suc i) E)"
    using assms(1) by (metis distinct.simps(2) distinct_append list.set_intros(1) disjoint_iff set_map)+
qed

lemma map_of_insert_at:
  assumes "k \<notin> fst ` set E"
  shows "map_of (insert_at i (k, y) E) = (map_of E)(k \<mapsto> y)"
proof -
  have "k \<notin> fst ` set (take i E)" "k \<notin> fst ` set (drop i E)" using assms by (meson image_mono in_mono set_take_subset set_drop_subset)+
  from map_of_middle(1) [OF this] show ?thesis by (simp add: insert_at_def)
qed

lemma map_of_update_at:
  assumes "distinct (map fst E)" "i < length E"
  shows "map_of (E[i := (fst (E ! i), y)]) = (map_of E)(fst (E ! i) \<mapsto> y)"
proof -
  note d = distinct_middle [OF assms]
  have "E[i := (fst (E ! i), y)] = take i E @ (fst (E ! i), y) # drop (Suc i) E" by (rule upd_conv_take_nth_drop [OF assms(2)])
  moreover have "map_of E = map_of (take i E @ (fst (E ! i), snd (E ! i)) # drop (Suc i) E)" using id_take_nth_drop [OF assms(2)] by simp
  ultimately show ?thesis using map_of_middle(1) [OF d] by simp
qed

lemma map_of_remove_at:
  assumes "distinct (map fst E)" "i < length E"
  shows "map_of (remove_at i E) = (map_of E)(fst (E ! i) := None)"
proof -
  have "map_of E = map_of (take i E @ (fst (E ! i), snd (E ! i)) # drop (Suc i) E)" using id_take_nth_drop [OF assms(2)] by simp
  then show ?thesis using map_of_middle(2) [OF distinct_middle [OF assms]] by (simp add: remove_at_def)
qed

definition value_entry :: "(nat \<Rightarrow> u16) \<Rightarrow> key_value \<Rightarrow> int list \<times> u32 \<times> u8 list" where
  "value_entry casemap v = (name_key casemap (kv_name v), kv_type v, kv_data v)"

lemma value_map_entries: "value_map casemap key = map_of (map (value_entry casemap) (rk_values key))"
  by (simp add: value_map_def value_entry_def [abs_def])

lemma entries_distinct:
  assumes "values_wf casemap key"
  shows "distinct (map fst (map (value_entry casemap) (rk_values key)))"
proof -
  have "distinct (map (name_key casemap) (map kv_name (rk_values key)))"
    using assms unfolding values_wf_def name_order.ordered_def strict_sorted_iff by blast
  then show ?thesis by (simp add: comp_def value_entry_def)
qed

lemma find_value_found:
  assumes "values_wf casemap key" "find_value casemap key name = (True, i)"
  shows "i < length (rk_values key)" "name_key casemap (kv_name (rk_values key ! i)) = name_key casemap name"
    "value_map casemap key (name_key casemap name) = Some (kv_type (rk_values key ! i), kv_data (rk_values key ! i))"
proof -
  have o: "name_order.ordered casemap (map kv_name (rk_values key))" using assms(1) by (simp add: values_wf_def)
  note f = name_order.search_found [OF o assms(2) [unfolded find_value_names]]
  show i: "i < length (rk_values key)" using f by simp
  show n: "name_key casemap (kv_name (rk_values key ! i)) = name_key casemap name" using f i by simp
  show "value_map casemap key (name_key casemap name) = Some (kv_type (rk_values key ! i), kv_data (rk_values key ! i))"
    using i n nth_mem [OF i] by (auto simp: value_map_iff [OF assms(1)])
qed

lemma find_value_missing:
  assumes "values_wf casemap key" "find_value casemap key name = (False, i)"
  shows "name_order.splits_at casemap (map kv_name (rk_values key)) name i" "value_map casemap key (name_key casemap name) = None"
    "name_key casemap name \<notin> fst ` set (map (value_entry casemap) (rk_values key))"
proof -
  have o: "name_order.ordered casemap (map kv_name (rk_values key))" using assms(1) by (simp add: values_wf_def)
  show "name_order.splits_at casemap (map kv_name (rk_values key)) name i" by (rule name_order.search_place [OF o assms(2) [unfolded find_value_names]])
  have "\<not> (\<exists>k\<in>set (map kv_name (rk_values key)). name_key casemap k = name_key casemap name)"
    using name_order.search_iff [OF o, of name] assms(2) [unfolded find_value_names] by auto
  then show "name_key casemap name \<notin> fst ` set (map (value_entry casemap) (rk_values key))" by (auto simp: value_entry_def)
  then show "value_map casemap key (name_key casemap name) = None" unfolding value_map_entries map_of_eq_None_iff .
qed

text \<open>The three changes of the array of values, with the invariant and the map.\<close>

lemma values_insert:
  assumes "values_wf casemap key" "find_value casemap key (kv_name v) = (False, i)" "length (kv_name v) \<le> MAX_VALUE_LEN"
    and v: "rk_values key' = insert_at i v (rk_values key)"
  shows "values_wf casemap key'" "value_map casemap key' = (value_map casemap key)(name_key casemap (kv_name v) \<mapsto> (kv_type v, kv_data v))"
proof -
  note m = find_value_missing [OF assms(1,2)]
  have "name_order.ordered casemap (map kv_name (rk_values key'))"
    unfolding v map_insert_at unfolding insert_at_def by (rule name_order.ordered_insert [OF _ m(1)]) (use assms(1) in \<open>simp add: values_wf_def\<close>)
  then show "values_wf casemap key'" using assms(1,3) by (auto simp: values_wf_def v set_insert_at)
  show "value_map casemap key' = (value_map casemap key)(name_key casemap (kv_name v) \<mapsto> (kv_type v, kv_data v))"
    unfolding value_map_entries v map_insert_at using map_of_insert_at [OF m(3)] by (simp add: value_entry_def)
qed

lemma values_update:
  assumes "values_wf casemap key" "find_value casemap key name = (True, i)"
    and v: "rk_values key' = (rk_values key)[i := (rk_values key ! i)\<lparr>kv_type := type, kv_data := data\<rparr>]"
  shows "values_wf casemap key'" "value_map casemap key' = (value_map casemap key)(name_key casemap name \<mapsto> (type, data))"
proof -
  note f = find_value_found [OF assms(1,2)]
  let ?v = "(rk_values key ! i)\<lparr>kv_type := type, kv_data := data\<rparr>"
  have n: "map kv_name (rk_values key') = map kv_name (rk_values key)" unfolding v map_update using f(1) by (simp add: list_update_same_conv)
  have "length (kv_name x) \<le> MAX_VALUE_LEN" if "x \<in> set (rk_values key')" for x
  proof -
    have "kv_name x \<in> set (map kv_name (rk_values key))" unfolding n [symmetric] using that by simp
    then show ?thesis using assms(1) by (auto simp: values_wf_def)
  qed
  then show "values_wf casemap key'" using assms(1) n by (simp add: values_wf_def)
  let ?E = "map (value_entry casemap) (rk_values key)"
  have "map (value_entry casemap) (rk_values key') = ?E[i := (fst (?E ! i), type, data)]"
    unfolding v map_update using f(1) by (simp add: value_entry_def)
  moreover have "fst (?E ! i) = name_key casemap name" using f(1,2) by (simp add: value_entry_def)
  ultimately show "value_map casemap key' = (value_map casemap key)(name_key casemap name \<mapsto> (type, data))"
    unfolding value_map_entries using map_of_update_at [OF entries_distinct [OF assms(1)], of i "(type, data)"] f(1) by simp
qed

lemma values_remove:
  assumes "values_wf casemap key" "find_value casemap key name = (True, i)" and v: "rk_values key' = remove_at i (rk_values key)"
  shows "values_wf casemap key'" "value_map casemap key' = (value_map casemap key)(name_key casemap name := None)"
proof -
  note f = find_value_found [OF assms(1,2)]
  have "name_order.ordered casemap (map kv_name (rk_values key'))"
    unfolding v map_remove_at unfolding remove_at_def by (rule name_order.ordered_remove) (use assms(1) in \<open>simp add: values_wf_def\<close>)
  moreover have "set (rk_values key') \<subseteq> set (rk_values key)" unfolding v remove_at_def by (auto dest: in_set_takeD in_set_dropD)
  ultimately show "values_wf casemap key'" using assms(1) by (auto simp: values_wf_def)
  have "fst (map (value_entry casemap) (rk_values key) ! i) = name_key casemap name" using f(1,2) by (simp add: value_entry_def)
  then show "value_map casemap key' = (value_map casemap key)(name_key casemap name := None)"
    unfolding value_map_entries v map_remove_at using map_of_remove_at [OF entries_distinct [OF assms(1)], of i] f(1) by simp
qed

lemma get_value_map:
  assumes "values_wf casemap key"
  shows "get_value casemap key name max_size =
    (if has_flag KEY_PREDEF key then Inl STATUS_INVALID_HANDLE
     else case value_map casemap key (name_key casemap name) of
            None \<Rightarrow> Inl STATUS_OBJECT_NAME_NOT_FOUND
          | Some (t, d) \<Rightarrow> Inr (t, length d, take max_size d))"
proof -
  obtain b i where f: "find_value casemap key name = (b, i)" by (meson surj_pair)
  have t: "take (min (length d) max_size) d = take max_size d" for d :: "u8 list" by (simp add: min_def)
  show ?thesis using f find_value_found(3) [OF assms, of name i] find_value_missing(2) [OF assms, of name i]
    by (cases b) (simp_all add: get_value_def t Let_def)
qed

text \<open>The other keys keep their tree.\<close>

definition others_same :: "nat \<Rightarrow> rstate \<Rightarrow> rstate \<Rightarrow> bool" where
  "others_same k s s' \<longleftrightarrow> (\<forall>j. j \<noteq> k \<longrightarrow> map_option tree_of (rs_keys s' j) = map_option tree_of (rs_keys s j))"

lemma others_same_quiet: "others_same k s s' \<Longrightarrow> quiet s' s'' \<Longrightarrow> others_same k s s''"
  by (simp add: others_same_def quiet_def same_tree_def)

lemma others_same_changes: "changes_key k key' s s' \<Longrightarrow> others_same k s s'"
  by (simp add: others_same_def changes_key_def)

text \<open>An operation on the values of a key leaves it, but for its values, and all other keys as they are.\<close>

definition value_frame :: "(nat \<Rightarrow> u16) \<Rightarrow> nat \<Rightarrow> reg_key \<Rightarrow> rstate \<Rightarrow> rstate \<Rightarrow> reg_key \<Rightarrow> bool" where
  "value_frame casemap k key s s' key' \<longleftrightarrow> keeps casemap s s' \<and> others_same k s s' \<and> rs_keys s' k = Some key' \<and>
     tree_of (key'\<lparr>rk_values := [], rk_nb_values := 0\<rparr>) = tree_of (key\<lparr>rk_values := [], rk_nb_values := 0\<rparr>)"

lemma frame_same:
  assumes "reg_wf casemap s" "rs_keys s k = Some key" "quiet s s'" "rs_keys s' = rs_keys s"
  shows "value_frame casemap k key s s' key"
  using assms keeps_quiet by (simp add: value_frame_def others_same_def)

lemma tree_of_values:
  "tree_of a = tree_of b \<Longrightarrow> tree_of (a\<lparr>rk_values := v, rk_nb_values := n\<rparr>) = tree_of (b\<lparr>rk_values := v, rk_nb_values := n\<rparr>)"
proof -
  have "tree_of (a\<lparr>rk_values := v, rk_nb_values := n\<rparr>) = (tree_of a)\<lparr>rk_values := v, rk_nb_values := n\<rparr>" for a by (simp add: tree_of_def)
  then show "tree_of a = tree_of b \<Longrightarrow> ?thesis" by simp
qed

lemma frame_quiet:
  assumes "value_frame casemap k key s s' key'" "quiet s' s''"
  shows "\<exists>key''. value_frame casemap k key s s'' key'' \<and> tree_of key'' = tree_of key'"
proof -
  obtain key'' where k: "rs_keys s'' k = Some key''" "tree_of key'' = tree_of key'"
    using same_treeD [of s' s'' k key'] assms by (auto simp: value_frame_def quiet_def)
  have "keeps casemap s s''" using assms keeps_quiet keeps_trans by (auto simp: value_frame_def keeps_def quiet_def dest: reg_wf_same)
  moreover have "others_same k s s''" using assms others_same_quiet unfolding value_frame_def by blast
  ultimately show ?thesis using assms(1) k tree_of_values [OF k(2), where v = "[]" and n = 0] by (auto simp: value_frame_def)
qed

lemma frame_changes:
  assumes wf: "reg_wf casemap s" and k: "rs_keys s k = Some key" and c: "changes_key k key' s s1"
    and key': "key' = key\<lparr>rk_nb_values := nb, rk_values := vs\<rparr>"
    and v: "values_wf casemap key'" "length vs \<le> nb" "nb = 0 \<or> 8 \<le> nb"
  shows "value_frame casemap k key s s1 key'"
proof -
  note w = key_wfD [OF reg_wfD [OF wf k]]
  have "keeps casemap s s1" by (rule changes_key_keeps(1) [OF wf k c])
    (use v w in \<open>auto simp: key' room_wf_def state_wf_def has_flag_def MIN_eq\<close>)
  moreover have "rs_keys s1 k = Some key'" using c by (simp add: changes_key_def)
  ultimately show ?thesis using others_same_changes [OF c] by (simp add: value_frame_def key')
qed

lemma frame_touch:
  assumes "value_frame casemap k key s s1 key'" "rk_name key \<noteq> None"
  shows "\<exists>key2. value_frame casemap k key s (touch_key k change s1) key2 \<and> tree_of key2 = tree_of key'"
proof -
  have "rk_name key' = rk_name key" using assms(1) tree_of_eqD(1) [of "key'\<lparr>rk_values := [], rk_nb_values := 0\<rparr>" "key\<lparr>rk_values := [], rk_nb_values := 0\<rparr>"]
    by (simp add: value_frame_def)
  then have "alive k s1" using assms by (simp add: value_frame_def alive_def)
  then have "quiet s1 (touch_key k change s1)" using assms(1) touch_key_quiet by (auto simp: value_frame_def keeps_def)
  then show ?thesis by (rule frame_quiet [OF assms(1)])
qed

lemma value_map_tree: "tree_of a = tree_of b \<Longrightarrow> value_map casemap a = value_map casemap b"
  using tree_of_eqD(7) [of a b] by (simp add: value_map_def)

definition set_refused :: "(nat \<Rightarrow> bool) \<Rightarrow> (nat \<Rightarrow> u16) \<Rightarrow> reg_key \<Rightarrow> wchar list \<Rightarrow> u32 \<Rightarrow> u32 \<Rightarrow> bool" where
  "set_refused ok casemap key name type e \<longleftrightarrow>
     e = STATUS_INVALID_HANDLE \<and> has_flag KEY_PREDEF key \<or>
     e = STATUS_ACCESS_DENIED \<and> has_flag KEY_SYMLINK key \<and>
       (type \<noteq> REG_LINK \<or> length name \<noteq> length symlink_str \<or> memicmp_strW casemap name symlink_str (length name) \<noteq> 0) \<or>
     e = STATUS_NAME_TOO_LONG \<and> length name > MAX_VALUE_LEN \<or>
     e = STATUS_NO_MEMORY \<and> (\<exists>n. \<not> ok n)"

lemma reg_alloc_fail: "reg_alloc ok s = (False, s') \<Longrightarrow> rs_error s' = STATUS_NO_MEMORY \<and> (\<exists>n. \<not> ok n)"
  by (auto simp: reg_alloc_def try_realloc_def set_rerror_def)

lemma insert_value_error:
  assumes "insert_value ok k key i v s = (False, s')"
  shows "rs_error s' = STATUS_NAME_TOO_LONG \<and> length (kv_name v) > MAX_VALUE_LEN \<or> rs_error s' = STATUS_NO_MEMORY \<and> (\<exists>n. \<not> ok n)"
proof (cases "length (kv_name v) > MAX_VALUE_LEN")
  case True
  then show ?thesis using assms by (auto simp: insert_value_def set_rerror_def)
next
  case False
  obtain b1 s1 where g: "(if length (rk_values key) = rk_nb_values key then grow_values ok k s else (True, s)) = (b1, s1)" by (meson surj_pair)
  obtain b2 s2 where a: "(if kv_name v \<noteq> [] then reg_alloc ok s1 else (True, s1)) = (b2, s2)" by (meson surj_pair)
  show ?thesis
  proof (cases b1)
    case True
    then have "\<not> b2 \<and> s' = s2" using assms False g a by (simp add: insert_value_def split: if_splits)
    then show ?thesis using a reg_alloc_fail by (simp split: if_splits)
  next
    case no: False
    then have "s' = s1" using assms False g by (simp add: insert_value_def)
    moreover have "reg_alloc ok s = (False, s1)" using g no by (auto simp: grow_values_def split: if_splits prod.splits)
    ultimately show ?thesis using reg_alloc_fail by simp
  qed
qed

definition set_done :: "(nat \<Rightarrow> bool) \<Rightarrow> (nat \<Rightarrow> u16) \<Rightarrow> nat \<Rightarrow> reg_key \<Rightarrow> wchar list \<Rightarrow> u32 \<Rightarrow> u8 list \<Rightarrow> rstate \<Rightarrow> rstate \<Rightarrow> bool" where
  "set_done ok casemap k key name type data s s' \<longleftrightarrow>
     (\<exists>key'. value_frame casemap k key s s' key' \<and>
        (value_map casemap key' = (value_map casemap key)(name_key casemap name \<mapsto> (type, data)) \<or>
         value_map casemap key' = value_map casemap key \<and> set_refused ok casemap key name type (rs_error s')))"

lemma set_done_refused: "value_frame casemap k key s s' key' \<Longrightarrow> rk_values key' = rk_values key \<Longrightarrow> set_refused ok casemap key name type (rs_error s') \<Longrightarrow>
    set_done ok casemap k key name type data s s'"
  unfolding set_done_def by (rule exI [of _ key']) (simp add: value_map_def)

lemma set_done_quiet:
  assumes "quiet s s1" "rs_keys s1 = rs_keys s" "set_done ok casemap k key name type data s1 s'"
  shows "set_done ok casemap k key name type data s s'"
proof -
  have "value_frame casemap k key s s' key'" if "value_frame casemap k key s1 s' key'" for key'
    using that assms(1,2) by (simp add: value_frame_def keeps_def quiet_def others_same_def)
  then show ?thesis using assms(3) unfolding set_done_def by blast
qed

lemma set_value_insert:
  assumes wf: "reg_wf casemap s" and k: "rs_keys s k = Some key" "rk_name key \<noteq> None" and f: "find_value casemap key name = (False, i)"
    and r: "insert_value ok k key i \<lparr>kv_name = name, kv_type = type, kv_data = data\<rparr> s = (b, s1)"
  shows "set_done ok casemap k key name type data s (if b then touch_key k change s1 else s1)"
proof -
  let ?v = "\<lparr>kv_name = name, kv_type = type, kv_data = data\<rparr>"
  note w = key_wfD [OF reg_wfD [OF wf k(1)]]
  note E = insert_value_effect [OF k(1) w(6) r]
  obtain nb where nb: "changes_key k (key\<lparr>rk_nb_values := nb, rk_values := if b then insert_at i ?v (rk_values key) else rk_values key\<rparr>) s s1"
    "if b then length (rk_values key) < nb \<and> 8 \<le> nb else rk_nb_values key \<le> nb \<and> (nb = 0 \<or> 8 \<le> nb)" using E(2) by blast
  have room: "length (rk_values key) \<le> rk_nb_values key" using w(6) by (simp add: room_wf_def)
  show ?thesis
  proof (cases b)
    case True
    let ?key = "key\<lparr>rk_nb_values := nb, rk_values := insert_at i ?v (rk_values key)\<rparr>"
    have V: "values_wf casemap ?key" "value_map casemap ?key = (value_map casemap key)(name_key casemap name \<mapsto> (type, data))"
      using values_insert [OF w(5), of ?v i ?key] f E(1) True by auto
    have "value_frame casemap k key s s1 ?key"
      by (rule frame_changes [OF wf k(1) _ refl V(1)]) (use nb True in \<open>simp_all add: length_insert_at\<close>)
    then obtain key2 where k2: "value_frame casemap k key s (touch_key k change s1) key2" "tree_of key2 = tree_of ?key"
      using frame_touch [OF _ k(2)] by blast
    then show ?thesis using V(2) True value_map_tree [OF k2(2), of casemap] unfolding set_done_def by auto
  next
    case False
    have F: "value_frame casemap k key s s1 (key\<lparr>rk_nb_values := nb, rk_values := rk_values key\<rparr>)"
      by (rule frame_changes [OF wf k(1) _ refl]) (use nb False w(5) room in \<open>auto simp: values_wf_def\<close>)
    have "set_refused ok casemap key name type (rs_error s1)" using insert_value_error [of ok k key i ?v s s1] r False by (auto simp: set_refused_def)
    then show ?thesis using set_done_refused [OF F] False by simp
  qed
qed

lemma set_value_correct:
  assumes wf: "reg_wf casemap s" and k: "rs_keys s k = Some key" "rk_name key \<noteq> None"
  shows "set_done ok casemap k key name type data s (set_value ok casemap k name type data s)"
proof -
  note w = key_wfD [OF reg_wfD [OF wf k(1)]]
  obtain b i where f: "find_value casemap key name = (b, i)" by (meson surj_pair)
  let ?same = "b \<and> kv_type (rk_values key ! i) = type \<and> data \<noteq> [] \<and> kv_data (rk_values key ! i) = data"
  let ?deny = "has_flag KEY_SYMLINK key \<and>
    (type \<noteq> REG_LINK \<or> length name \<noteq> length symlink_str \<or> memicmp_strW casemap name symlink_str (length name) \<noteq> 0)"
  let ?s' = "set_value ok casemap k name type data s"
  obtain b1 s1 where al: "(if data \<noteq> [] then reg_alloc ok s else (True, s)) = (b1, s1)" by (meson surj_pair)
  have q1: "quiet s s1" "rs_keys s1 = rs_keys s" using al reg_alloc_quiet by (auto split: if_splits)
  have wf1: "reg_wf casemap s1" by (rule quiet_wf [OF q1(1) wf])
  have k1: "rs_keys s1 k = Some key" using q1 k by simp
  have refused: "set_done ok casemap k key name type data s s2" if "quiet s s2" "rs_keys s2 = rs_keys s"
    "set_refused ok casemap key name type (rs_error s2)" for s2
    by (rule set_done_refused [OF frame_same [OF wf k(1) that(1,2)] refl that(3)])
  consider (predef) "has_flag KEY_PREDEF key" | (same) "\<not> has_flag KEY_PREDEF key" ?same | (deny) "\<not> has_flag KEY_PREDEF key" "\<not> ?same" ?deny
    | (mem) "\<not> has_flag KEY_PREDEF key" "\<not> ?same" "\<not> ?deny" "\<not> b1"
    | (ins) "\<not> has_flag KEY_PREDEF key" "\<not> ?same" "\<not> ?deny" b1 "\<not> b" | (upd) "\<not> has_flag KEY_PREDEF key" "\<not> ?same" "\<not> ?deny" b1 b by blast
  then show ?thesis
  proof cases
    case predef
    then have "?s' = set_rerror STATUS_INVALID_HANDLE s" using k by (simp add: set_value_def)
    then show ?thesis using refused [of "set_rerror STATUS_INVALID_HANDLE s"] predef by (simp add: set_refused_def set_rerror_def quiet_rerror [unfolded set_rerror_def])
  next
    case same
    then have e: "?s' = s" using k f by (simp add: set_value_def)
    have "value_map casemap key = (value_map casemap key)(name_key casemap name \<mapsto> (type, data))"
      using find_value_found(3) [OF w(5), of name i] f same by (auto simp: fun_eq_iff)
    then show ?thesis unfolding e set_done_def using frame_same [OF wf k(1) quiet_refl refl] by blast
  next
    case deny
    then have "?s' = set_rerror STATUS_ACCESS_DENIED s" using k f by (auto simp: set_value_def)
    then show ?thesis using refused [of "set_rerror STATUS_ACCESS_DENIED s"] deny by (simp add: set_refused_def set_rerror_def quiet_rerror [unfolded set_rerror_def])
  next
    case mem
    then have "?s' = s1" using k f al by (auto simp: set_value_def)
    moreover have "set_refused ok casemap key name type (rs_error s1)" using mem al reg_alloc_fail by (auto simp: set_refused_def split: if_splits)
    ultimately show ?thesis using refused [OF q1] by simp
  next
    case ins
    obtain b2 s2 where r: "insert_value ok k key i \<lparr>kv_name = name, kv_type = type, kv_data = data\<rparr> s1 = (b2, s2)" by (meson surj_pair)
    have "?s' = (if b2 then touch_key k REG_NOTIFY_CHANGE_LAST_SET s2 else s2)" using k f al ins r by (auto simp: set_value_def)
    moreover have "find_value casemap key name = (False, i)" using f ins by simp
    ultimately show ?thesis using set_done_quiet [OF q1 set_value_insert [OF wf1 k1 k(2) _ r]] by simp
  next
    case upd
    let ?key = "key\<lparr>rk_nb_values := rk_nb_values key, rk_values := (rk_values key)[i := (rk_values key ! i)\<lparr>kv_type := type, kv_data := data\<rparr>]\<rparr>"
    let ?s2 = "upd_key k (\<lambda>key. key\<lparr>rk_values := (rk_values key)[i := (rk_values key ! i)\<lparr>kv_type := type, kv_data := data\<rparr>]\<rparr>) s1"
    have e: "?s' = touch_key k REG_NOTIFY_CHANGE_LAST_SET ?s2" using k f al upd by (auto simp: set_value_def)
    have V: "values_wf casemap ?key" "value_map casemap ?key = (value_map casemap key)(name_key casemap name \<mapsto> (type, data))"
      using values_update [OF w(5), of name i ?key data type] f upd by auto
    have "value_frame casemap k key s1 ?s2 ?key"
      by (rule frame_changes [OF wf1 k1 _ refl V(1)]) (use k1 w(6) in \<open>auto simp: changes_key_def upd_key_def room_wf_def MIN_eq\<close>)
    then obtain key2 where "value_frame casemap k key s1 ?s' key2" "tree_of key2 = tree_of ?key" unfolding e using frame_touch [OF _ k(2)] by blast
    then show ?thesis using V(2) value_map_tree [of key2 ?key casemap] by (intro set_done_quiet [OF q1]) (auto simp: set_done_def)
  qed
qed

lemma frame_trans:
  assumes "value_frame casemap k key s s1 key1" "value_frame casemap k key1 s1 s2 key2"
  shows "value_frame casemap k key s s2 key2"
  using assms by (simp add: value_frame_def keeps_def others_same_def)

lemma frame_wf: "value_frame casemap k key s s' key' \<Longrightarrow> reg_wf casemap s' \<and> rs_keys s' k = Some key'"
  by (simp add: value_frame_def keeps_def)

text \<open>The array of values may shrink after a value was removed.\<close>

lemma frame_shrink:
  assumes F: "value_frame casemap k key s s1 key1" and n: "shrinks 8 (rk_nb_values key1) (length (rk_values key1))"
    and r: "try_realloc ok s1 = (b, s2)"
  shows "\<exists>key2. value_frame casemap k key s (if b then upd_key k (\<lambda>key. key\<lparr>rk_nb_values := shrunk MIN_VALUES (rk_nb_values key)\<rparr>) s2 else s2) key2 \<and>
    rk_values key2 = rk_values key1"
proof -
  have wf1: "reg_wf casemap s1" and k1: "rs_keys s1 k = Some key1" using frame_wf [OF F] by auto
  note q = try_realloc_quiet [OF r]
  have wf2: "reg_wf casemap s2" using q quiet_wf wf1 by blast
  have k2: "rs_keys s2 k = Some key1" using q k1 by simp
  have F2: "value_frame casemap k key s s2 key1" by (rule frame_trans [OF F frame_same [OF wf1 k1]]) (use q in auto)
  let ?key = "key1\<lparr>rk_nb_values := shrunk 8 (rk_nb_values key1), rk_values := rk_values key1\<rparr>"
  have "value_frame casemap k key1 s2 (upd_key k (\<lambda>key. key\<lparr>rk_nb_values := shrunk MIN_VALUES (rk_nb_values key)\<rparr>) s2) ?key"
    by (rule frame_changes [OF wf2 k2 _ refl])
      (use k2 key_wfD(5) [OF reg_wfD [OF wf1 k1]] shrunk_room [OF n] in \<open>auto simp: changes_key_def upd_key_def MIN_eq values_wf_def\<close>)
  note F3 = frame_trans [OF F2 this]
  show ?thesis
  proof (cases b)
    case True
    then show ?thesis using F3 by (intro exI [of _ ?key]) simp
  next
    case False
    then show ?thesis using F2 by auto
  qed
qed

definition delete_value_done :: "(nat \<Rightarrow> u16) \<Rightarrow> nat \<Rightarrow> reg_key \<Rightarrow> wchar list \<Rightarrow> rstate \<Rightarrow> rstate \<Rightarrow> bool" where
  "delete_value_done casemap k key name s s' \<longleftrightarrow>
     (\<exists>key'. value_frame casemap k key s s' key' \<and>
        (if has_flag KEY_PREDEF key then value_map casemap key' = value_map casemap key \<and> rs_error s' = STATUS_INVALID_HANDLE
         else if value_map casemap key (name_key casemap name) = None
         then value_map casemap key' = value_map casemap key \<and> rs_error s' = STATUS_OBJECT_NAME_NOT_FOUND
         else value_map casemap key' = (value_map casemap key)(name_key casemap name := None)))"

lemma delete_value_correct:
  assumes wf: "reg_wf casemap s" and k: "rs_keys s k = Some key" "rk_name key \<noteq> None"
  shows "delete_value_done casemap k key name s (delete_value ok casemap k name s)"
proof -
  note w = key_wfD [OF reg_wfD [OF wf k(1)]]
  obtain b i where f: "find_value casemap key name = (b, i)" by (meson surj_pair)
  let ?s' = "delete_value ok casemap k name s"
  note same = frame_same [OF wf k(1) quiet_rerror set_rerror_simps(5)]
  consider (predef) "has_flag KEY_PREDEF key" | (missing) "\<not> has_flag KEY_PREDEF key" "\<not> b" | (found) "\<not> has_flag KEY_PREDEF key" b by blast
  then show ?thesis
  proof cases
    case predef
    then have "?s' = set_rerror STATUS_INVALID_HANDLE s" using k by (simp add: delete_value_def)
    then show ?thesis unfolding delete_value_done_def using same [of STATUS_INVALID_HANDLE] predef by (auto simp: set_rerror_def)
  next
    case missing
    then have e: "?s' = set_rerror STATUS_OBJECT_NAME_NOT_FOUND s" using k f by (simp add: delete_value_def)
    have "value_map casemap key (name_key casemap name) = None" using find_value_missing(2) [OF w(5), of name i] f missing by simp
    then show ?thesis unfolding delete_value_done_def e using same [of STATUS_OBJECT_NAME_NOT_FOUND] missing by (auto simp: set_rerror_def)
  next
    case found
    let ?key = "key\<lparr>rk_nb_values := rk_nb_values key, rk_values := remove_at i (rk_values key)\<rparr>"
    let ?s1 = "upd_key k (\<lambda>key. key\<lparr>rk_values := remove_at i (rk_values key)\<rparr>) s"
    let ?s2 = "touch_key k REG_NOTIFY_CHANGE_LAST_SET ?s1"
    have i: "i < length (rk_values key)" "value_map casemap key (name_key casemap name) \<noteq> None"
      using find_value_found [OF w(5), of name i] f found by auto
    have V: "values_wf casemap ?key" "value_map casemap ?key = (value_map casemap key)(name_key casemap name := None)"
      using values_remove [OF w(5), of name i ?key] f found by auto
    have "value_frame casemap k key s ?s1 ?key"
      by (rule frame_changes [OF wf k(1) _ refl V(1)]) (use k w(6) i in \<open>auto simp: changes_key_def upd_key_def room_wf_def MIN_eq length_remove_at\<close>)
    then obtain key2 where k2: "value_frame casemap k key s ?s2 key2" "tree_of key2 = tree_of ?key" using frame_touch [OF _ k(2)] by blast
    have v2: "rk_values key2 = remove_at i (rk_values key)" "rk_nb_values key2 = rk_nb_values key" using tree_of_eqD(7,8) [OF k2(2)] by simp_all
    obtain b2 s3 where r: "try_realloc ok ?s2 = (b2, s3)" by (meson surj_pair)
    have "\<exists>key'. value_frame casemap k key s ?s' key' \<and> rk_values key' = remove_at i (rk_values key)"
    proof (cases "shrinks 8 (rk_nb_values key) (length (rk_values key) - 1)")
      case True
      then have "?s' = (if b2 then upd_key k (\<lambda>key. key\<lparr>rk_nb_values := shrunk MIN_VALUES (rk_nb_values key)\<rparr>) s3 else s3)"
        using k f found r by (simp add: delete_value_def MIN_eq Let_def)
      then show ?thesis using frame_shrink [OF k2(1) _ r] True v2 i(1) by (simp add: length_remove_at)
    next
      case False
      then have "?s' = ?s2" using k f found by (simp add: delete_value_def MIN_eq Let_def)
      then show ?thesis using k2(1) v2 by auto
    qed
    then show ?thesis using V(2) found i(2) unfolding delete_value_done_def value_map_def by auto
  qed
qed

end
