(* ===== verification/Registry_Tree.thy ===== *)
theory Registry_Tree
  imports Registry_Ops
begin

unbundle bit_operations_syntax

text \<open>Renaming and deleting keys: the changes of the tree, and that they keep its invariant.\<close>

section \<open>Arrays\<close>

lemma index_of_in:
  assumes "x \<in> set xs"
  shows "index_of x xs < length xs" "xs ! index_of x xs = x"
  using assms by (induction xs) (auto simp: index_of_def)

lemma remove_at_split:
  assumes "i < length xs"
  shows "xs = take i xs @ xs ! i # drop (Suc i) xs"
  using assms by (rule id_take_nth_drop)

lemma remove_at_distinct:
  assumes "distinct xs" "i < length xs"
  shows "set (remove_at i xs) = set xs - {xs ! i}" "distinct (remove_at i xs)"
proof -
  have "distinct (take i xs @ xs ! i # drop (Suc i) xs)" using assms remove_at_split [OF assms(2)] by simp
  moreover have "set xs = set (take i xs @ xs ! i # drop (Suc i) xs)" using remove_at_split [OF assms(2)] by simp
  ultimately show "set (remove_at i xs) = set xs - {xs ! i}" "distinct (remove_at i xs)" by (auto simp: remove_at_def)
qed

lemma distinct_insert_at: "distinct xs \<Longrightarrow> x \<notin> set xs \<Longrightarrow> distinct (insert_at i x xs)"
proof -
  assume d: "distinct xs" "x \<notin> set xs"
  have "set (take i xs) \<inter> set (drop i xs) = {}" using set_take_disj_set_drop_if_distinct [OF d(1)] by simp
  moreover have "x \<notin> set (take i xs)" "x \<notin> set (drop i xs)" using d(2) in_set_takeD in_set_dropD by fast+
  ultimately show ?thesis using d(1) by (auto simp: insert_at_def)
qed

section \<open>Unlinking a key without subkeys\<close>

lemma unlink_wf:
  assumes wf: "reg_wf casemap s" and k: "rs_keys s k = Some key" "rk_parent key = Some p" "rk_subkeys key = []" and p: "rs_keys s p = Some pk"
    and s': "rs_keys s' = (rs_keys s)(k := kopt, p \<mapsto> pk')" "rs_next s' = rs_next s"
    and ko: "\<And>key'. kopt = Some key' \<Longrightarrow> rk_parent key' = None \<and> rk_subkeys key' = [] \<and> values_wf casemap key' \<and> room_wf key' \<and> state_wf key'"
    and pk': "rk_name pk' = rk_name pk" "rk_parent pk' = rk_parent pk" "rk_subkeys pk' = remove_at (index_of k (rk_subkeys pk)) (rk_subkeys pk)"
      "values_wf casemap pk'" "room_wf pk'" "state_wf pk'"
  shows "reg_wf casemap s'"
  unfolding reg_wf_def
proof (intro allI impI)
  have pk: "p < k" using alive_parent [OF wf k(1,2)] by simp
  have kin: "k \<in> set (rk_subkeys pk)" using parentD(3) [OF wf k(1,2)] p by simp
  note wp = key_wfD [OF reg_wfD [OF wf p]]
  have dist: "distinct (rk_subkeys pk)" using wp(2) by (simp add: subkeys_wf_def)
  note ix = index_of_in [OF kin]
  have sub: "set (rk_subkeys pk') = set (rk_subkeys pk) - {k}" "distinct (rk_subkeys pk')"
    using remove_at_distinct [OF dist ix(1)] ix(2) by (simp_all add: pk'(3))
  have name: "key_name s' c = key_name s c" if "c \<noteq> k" for c using that pk'(1) p by (simp add: key_name_def s')
  have par: "\<exists>ck'. rs_keys s' c = Some ck' \<and> rk_parent ck' = rk_parent ck" if "c \<noteq> k" "rs_keys s c = Some ck" for c ck
    using that pk'(2) p by (cases "c = p") (auto simp: s')
  fix j jk
  assume j: "rs_keys s' j = Some jk"
  consider "j = k" | "j = p" | "j \<noteq> k" "j \<noteq> p" by blast
  then show "key_wf casemap s' j jk"
  proof cases
    case 1
    then have "kopt = Some jk" using j pk by (simp add: s')
    then show ?thesis using ko [of jk] 1 key_wfD(1) [OF reg_wfD [OF wf k(1)]]
      by (simp add: key_wf_def subkeys_wf_def parent_wf_def s' name_order.ordered_def)
  next
    case 2
    then have e: "jk = pk'" using j by (simp add: s')
    have "subkeys_wf s' p pk'" unfolding subkeys_wf_def
    proof (intro conjI ballI)
      fix c
      assume "c \<in> set (rk_subkeys pk')"
      then have c: "c \<in> set (rk_subkeys pk)" "c \<noteq> k" using sub by auto
      then show "p < c" "\<exists>ck. rs_keys s' c = Some ck \<and> rk_parent ck = Some p" using subkeyD [OF wf p c(1)] par [OF c(2)] by auto
    qed (rule sub(2))
    moreover have "parent_wf s' p pk'" unfolding parent_wf_def
    proof (intro allI impI)
      fix q
      assume q: "rk_parent pk' = Some q"
      then have "q < p" "rk_name pk \<noteq> None" "\<exists>qk. rs_keys s q = Some qk \<and> p \<in> set (rk_subkeys qk)" using parentD [OF wf p] pk'(2) by auto
      then show "rk_name pk' \<noteq> None \<and> (\<exists>qk. rs_keys s' q = Some qk \<and> p \<in> set (rk_subkeys qk))" using pk pk'(1) by (simp add: s')
    qed
    moreover have "name_order.ordered casemap (map (key_name s') (rk_subkeys pk'))"
    proof -
      have "map (key_name s') (rk_subkeys pk') = map (key_name s) (rk_subkeys pk')" using sub(1) name by simp
      then show ?thesis using name_order.ordered_remove [OF wp(4)] by (simp add: pk'(3) map_remove_at) (simp add: remove_at_def)
    qed
    ultimately show ?thesis using wp(1) pk' e 2 by (simp add: key_wf_def s')
  next
    case 3
    then have j': "rs_keys s j = Some jk" using j by (simp add: s')
    show ?thesis
    proof (rule key_wf_frame [OF reg_wfD [OF wf j']])
      show "rs_next s \<le> rs_next s'" by (simp add: s')
    next
      fix c ck
      assume c: "rs_keys s c = Some ck" "rk_parent ck = Some j"
      then have "c \<noteq> k" using k(1,2) 3(2) by auto
      then show "key_name s' c = key_name s c \<and> (\<exists>ck'. rs_keys s' c = Some ck' \<and> rk_parent ck' = Some j)" using name par [OF _ c(1)] c(2) by simp
    next
      fix q qk
      assume q: "rs_keys s q = Some qk" "j \<in> set (rk_subkeys qk)"
      then have "q \<noteq> k" using k(1,3) by auto
      then show "\<exists>qk'. rs_keys s' q = Some qk' \<and> j \<in> set (rk_subkeys qk')" using q 3(1) p sub(1) by (cases "q = p") (auto simp: s')
    qed
  qed
qed

text \<open>What unlinking does to the key and its parent.\<close>

definition unlinked_parent :: "nat \<Rightarrow> nat \<Rightarrow> reg_key \<Rightarrow> reg_key" where
  "unlinked_parent k nb pk = pk\<lparr>rk_subkeys := remove_at (index_of k (rk_subkeys pk)) (rk_subkeys pk),
     rk_wow6432node := (if rk_wow6432node pk = Some k then None else rk_wow6432node pk), rk_nb_subkeys := nb\<rparr>"

definition rest_same :: "rstate \<Rightarrow> rstate \<Rightarrow> bool" where
  "rest_same s s' \<longleftrightarrow> rs_next s' = rs_next s \<and> rs_ok s' = rs_ok s \<and> rs_time s' = rs_time s \<and> rs_fired s' = rs_fired s"

lemma unlink_effect:
  assumes k: "rs_keys s k = Some key" "rk_name key \<noteq> None" "rk_parent key = Some p" "p \<noteq> k"
    and p: "rs_keys s p = Some pk" "k \<in> set (rk_subkeys pk)"
  shows "\<exists>nb. rs_keys (unlink_named_object ok k s) = (rs_keys s)(k \<mapsto> key\<lparr>rk_name := None, rk_parent := None\<rparr>, p \<mapsto> unlinked_parent k nb pk) \<and>
    rest_same s (unlink_named_object ok k s) \<and>
    (nb = rk_nb_subkeys pk \<or> shrinks 8 (rk_nb_subkeys pk) (length (rk_subkeys pk) - 1) \<and> nb = shrunk 8 (rk_nb_subkeys pk))"
proof -
  let ?s1 = "upd_key k (\<lambda>key. key\<lparr>rk_name := None, rk_parent := None\<rparr>) s"
  have u: "unlink_named_object ok k s = key_unlink_name ok k p ?s1" using k by (auto simp: unlink_named_object_def)
  have p1: "rs_keys ?s1 p = Some pk" using p(1) k(4) by simp
  have i: "index_of k (rk_subkeys pk) < length (rk_subkeys pk)" by (rule index_of_in(1) [OF p(2)])
  let ?same = "unlinked_parent k (rk_nb_subkeys pk) pk" and ?less = "unlinked_parent k (shrunk 8 (rk_nb_subkeys pk)) pk"
  have a: "rs_keys (unlink_named_object ok k s) = (rs_keys s)(k \<mapsto> key\<lparr>rk_name := None, rk_parent := None\<rparr>, p \<mapsto> ?same) \<and> rest_same s (unlink_named_object ok k s)"
    if "\<not> shrinks 8 (rk_nb_subkeys pk) (length (rk_subkeys pk) - 1) \<or> \<not> ok (rs_allocs s)"
    unfolding u key_unlink_name_def p1 using that i k p(1)
    by (auto simp: Let_def MIN_eq upd_key_def unlinked_parent_def rest_same_def try_realloc_def)
  have b: "rs_keys (unlink_named_object ok k s) = (rs_keys s)(k \<mapsto> key\<lparr>rk_name := None, rk_parent := None\<rparr>, p \<mapsto> ?less) \<and> rest_same s (unlink_named_object ok k s)"
    if "shrinks 8 (rk_nb_subkeys pk) (length (rk_subkeys pk) - 1)" "ok (rs_allocs s)"
    unfolding u key_unlink_name_def p1 using that i k p(1)
    by (auto simp: Let_def MIN_eq upd_key_def unlinked_parent_def rest_same_def try_realloc_def)
  show ?thesis using a b by blast
qed

lemma unlinked_parent_wf:
  assumes wf: "reg_wf casemap s" and p: "rs_keys s p = Some pk" "k \<in> set (rk_subkeys pk)"
    and nb: "nb = rk_nb_subkeys pk \<or> shrinks 8 (rk_nb_subkeys pk) (length (rk_subkeys pk) - 1) \<and> nb = shrunk 8 (rk_nb_subkeys pk)"
  shows "values_wf casemap (unlinked_parent k nb pk)" "room_wf (unlinked_parent k nb pk)" "state_wf (unlinked_parent k nb pk)"
proof -
  note w = key_wfD [OF reg_wfD [OF wf p(1)]]
  have d: "distinct (rk_subkeys pk)" using w(2) by (simp add: subkeys_wf_def)
  note ix = index_of_in [OF p(2)]
  have s: "set (remove_at (index_of k (rk_subkeys pk)) (rk_subkeys pk)) = set (rk_subkeys pk) - {k}"
    using remove_at_distinct(1) [OF d ix(1)] ix(2) by simp
  show "values_wf casemap (unlinked_parent k nb pk)" using w(5) by (simp add: values_wf_def unlinked_parent_def)
  show "room_wf (unlinked_parent k nb pk)" using w(6) nb shrunk_room
    by (auto simp: room_wf_def unlinked_parent_def length_remove_at [OF ix(1)] MIN_eq)
  show "state_wf (unlinked_parent k nb pk)" using w(7) p(2) s by (auto simp: state_wf_def unlinked_parent_def has_flag_def)
qed

text \<open>Deleting a key without subkeys.\<close>

definition deleted_key :: "reg_key \<Rightarrow> reg_key" where
  "deleted_key key = (set_flag KEY_DELETED key)\<lparr>rk_name := None, rk_parent := None\<rparr>"

lemma delete_leaf:
  assumes wf: "reg_wf casemap s" and k: "rs_keys s k = Some key" "rk_parent key = Some p" "rk_subkeys key = []"
    and s': "s' = unlink_named_object ok k (upd_key k (set_flag KEY_DELETED) s)"
  shows "keeps casemap s s'" "alive p s'"
    "\<exists>pk nb. rs_keys s p = Some pk \<and> rs_keys s' = (rs_keys s)(k \<mapsto> deleted_key key, p \<mapsto> unlinked_parent k nb pk)"
    "rest_same s s'"
proof -
  note w = key_wfD [OF reg_wfD [OF wf k(1)]]
  have pk: "p < k" "alive p s" using alive_parent [OF wf k(1,2)] by auto
  obtain pk where p: "rs_keys s p = Some pk" "k \<in> set (rk_subkeys pk)" "rk_name pk \<noteq> None" using parentD(3) [OF wf k(1,2)] by blast
  let ?s0 = "upd_key k (set_flag KEY_DELETED) s" and ?k0 = "set_flag KEY_DELETED key"
  have k0: "rs_keys ?s0 k = Some ?k0" "rk_name ?k0 \<noteq> None" "rk_parent ?k0 = Some p" "p \<noteq> k"
    using k parentD(2) [OF wf k(1,2)] pk by (simp_all add: set_flag_def)
  have p0: "rs_keys ?s0 p = Some pk" using p pk by simp
  obtain nb where e: "rs_keys s' = (rs_keys ?s0)(k \<mapsto> ?k0\<lparr>rk_name := None, rk_parent := None\<rparr>, p \<mapsto> unlinked_parent k nb pk)" "rest_same ?s0 s'"
    "nb = rk_nb_subkeys pk \<or> shrinks 8 (rk_nb_subkeys pk) (length (rk_subkeys pk) - 1) \<and> nb = shrunk 8 (rk_nb_subkeys pk)"
    using unlink_effect [OF k0 p0 p(2), of ok] unfolding s' by blast
  have e1: "rs_keys s' = (rs_keys s)(k \<mapsto> deleted_key key, p \<mapsto> unlinked_parent k nb pk)" using e(1) pk by (auto simp: upd_key_def deleted_key_def)
  then show "\<exists>pk nb. rs_keys s p = Some pk \<and> rs_keys s' = (rs_keys s)(k \<mapsto> deleted_key key, p \<mapsto> unlinked_parent k nb pk)" using p(1) by blast
  show r: "rest_same s s'" using e(2) by (simp add: rest_same_def)
  show "alive p s'" using e1 p(3) by (simp add: alive_def unlinked_parent_def)
  have "reg_wf casemap s'"
  proof (rule unlink_wf [OF wf k p(1) e1])
    show "rs_next s' = rs_next s" using r by (simp add: rest_same_def)
    show "rk_parent key' = None \<and> rk_subkeys key' = [] \<and> values_wf casemap key' \<and> room_wf key' \<and> state_wf key'" if "Some (deleted_key key) = Some key'" for key'
      using that w(5-7) k(3) by (auto simp: deleted_key_def set_flag_def values_wf_def room_wf_def state_wf_def has_flag_def
        bit.conj_disj_distrib2 KEY_DELETED_def)
  qed (use unlinked_parent_wf [OF wf p(1,2) e(3)] in \<open>auto simp: unlinked_parent_def\<close>)
  then show "keeps casemap s s'" using r by (simp add: keeps_def rest_same_def)
qed

section \<open>Deleting a branch\<close>

text \<open>
  Keys only die: the ones that live on keep their name, parent, class, values and flags, and so, with the invariant, a key that lives on has all
  its ancestors.
\<close>

definition kept :: "reg_key \<Rightarrow> reg_key \<Rightarrow> bool" where
  "kept key key' \<longleftrightarrow> rk_name key' = rk_name key \<and> rk_parent key' = rk_parent key \<and> rk_class key' = rk_class key \<and> rk_values key' = rk_values key \<and>
     rk_flags key' AND NOT KEY_DIRTY = rk_flags key AND NOT KEY_DIRTY"

definition pruned :: "rstate \<Rightarrow> rstate \<Rightarrow> bool" where
  "pruned s s' \<longleftrightarrow> rs_next s' = rs_next s \<and> (\<forall>j. rs_keys s' j = None \<longleftrightarrow> rs_keys s j = None) \<and>
     (\<forall>j key'. rs_keys s' j = Some key' \<and> rk_name key' \<noteq> None \<longrightarrow> (\<exists>key. rs_keys s j = Some key \<and> kept key key'))"

lemma pruned_refl [simp]: "pruned s s"
  by (auto simp: pruned_def kept_def)

lemma prunedD: "pruned s s' \<Longrightarrow> rs_keys s' j = Some key' \<Longrightarrow> rk_name key' \<noteq> None \<Longrightarrow> \<exists>key. rs_keys s j = Some key \<and> kept key key'"
  unfolding pruned_def by blast

lemma pruned_trans:
  assumes a: "pruned s s'" and b: "pruned s' s''"
  shows "pruned s s''"
  unfolding pruned_def
proof (intro conjI allI impI)
  fix j key''
  assume j: "rs_keys s'' j = Some key'' \<and> rk_name key'' \<noteq> None"
  then obtain key' where k': "rs_keys s' j = Some key'" "kept key' key''" using prunedD [OF b] by blast
  then have "rk_name key' \<noteq> None" using j by (simp add: kept_def)
  then obtain key where "rs_keys s j = Some key" "kept key key'" using prunedD [OF a k'(1)] by blast
  then show "\<exists>key. rs_keys s j = Some key \<and> kept key key''" using k'(2) by (auto simp: kept_def)
qed (use a b in \<open>auto simp: pruned_def\<close>)

lemma pruned_alive: "pruned s s' \<Longrightarrow> alive j s' \<Longrightarrow> alive j s"
  by (fastforce simp: pruned_def alive_def kept_def)

lemma pruned_quiet: "quiet s s' \<Longrightarrow> pruned s s'"
  unfolding pruned_def
proof (intro conjI allI impI)
  assume q: "quiet s s'"
  show "rs_next s' = rs_next s" by (rule quiet_next [OF q])
  fix j
  have e: "map_option tree_of (rs_keys s' j) = map_option tree_of (rs_keys s j)" using q by (simp add: quiet_def same_tree_def)
  then show "rs_keys s' j = None \<longleftrightarrow> rs_keys s j = None" by (metis map_option_is_None)
  fix key'
  assume "rs_keys s' j = Some key' \<and> rk_name key' \<noteq> None"
  then obtain key where "rs_keys s j = Some key" "tree_of key' = tree_of key" using e by (cases "rs_keys s j") auto
  then show "\<exists>key. rs_keys s j = Some key \<and> kept key key'" using tree_of_eqD [of key' key] by (auto simp: kept_def)
qed

lemma pruned_leaf:
  assumes p: "rs_keys s p = Some pk" "p \<noteq> k" and k: "rs_keys s k = Some key"
    and e: "rs_keys s' = (rs_keys s)(k \<mapsto> deleted_key key, p \<mapsto> unlinked_parent k nb pk)" and r: "rs_next s' = rs_next s"
  shows "pruned s s'"
  using assms by (auto simp: pruned_def kept_def deleted_key_def unlinked_parent_def)

definition parent_rel :: "rstate \<Rightarrow> (nat \<times> nat) set" where
  "parent_rel s = {(c, p). \<exists>ck. rs_keys s c = Some ck \<and> rk_parent ck = Some p}"

definition below :: "rstate \<Rightarrow> nat \<Rightarrow> nat set" where
  "below s k = {j. (j, k) \<in> (parent_rel s)\<^sup>*}"

lemma below_self [simp]: "k \<in> below s k"
  by (simp add: below_def)

lemma below_trans: "c \<in> below s k \<Longrightarrow> below s c \<subseteq> below s k"
  by (auto simp: below_def)

lemma below_child: "rs_keys s c = Some ck \<Longrightarrow> rk_parent ck = Some k \<Longrightarrow> c \<in> below s k"
  by (auto simp: below_def parent_rel_def)

lemma parent_rel_pruned: "reg_wf casemap s' \<Longrightarrow> pruned s s' \<Longrightarrow> parent_rel s' \<subseteq> parent_rel s"
proof
  fix x
  assume wf: "reg_wf casemap s'" and p: "pruned s s'" and "x \<in> parent_rel s'"
  then obtain c ck q where x: "x = (c, q)" "rs_keys s' c = Some ck" "rk_parent ck = Some q" by (auto simp: parent_rel_def)
  have "rk_name ck \<noteq> None" by (rule parentD(2) [OF wf x(2,3)])
  then obtain key where "rs_keys s c = Some key" "kept key ck" using prunedD [OF p x(2)] by blast
  then show "x \<in> parent_rel s" using x by (auto simp: parent_rel_def kept_def)
qed

lemma below_pruned: "reg_wf casemap s' \<Longrightarrow> pruned s s' \<Longrightarrow> below s' k \<subseteq> below s k"
  using rtrancl_mono [OF parent_rel_pruned] by (auto simp: below_def)

text \<open>A key that lives on below \<open>k\<close> has \<open>k\<close> among its living ancestors.\<close>

lemma below_dead:
  assumes wf': "reg_wf casemap s'" and p: "pruned s s'" and d: "\<not> alive k s'" and j: "j \<in> below s k"
  shows "\<not> alive j s'"
proof -
  have "(j, k) \<in> (parent_rel s)\<^sup>*" using j by (simp add: below_def)
  then have "alive j s' \<longrightarrow> alive k s'"
  proof (induction rule: converse_rtrancl_induct)
    case (step a b)
    have "alive b s'" if al: "alive a s'"
    proof -
      obtain ak' where a': "rs_keys s' a = Some ak'" "rk_name ak' \<noteq> None" using al by (auto simp: alive_def)
      then obtain ak where "rs_keys s a = Some ak" "kept ak ak'" using prunedD [OF p] by blast
      then have "rk_parent ak' = Some b" using step(1) by (auto simp: parent_rel_def kept_def)
      then show ?thesis using alive_parent [OF wf' a'(1)] by blast
    qed
    then show ?case using step by blast
  qed simp
  then show ?thesis using d by blast
qed

definition guarded :: "nat \<Rightarrow> rstate \<Rightarrow> bool" where
  "guarded j s \<longleftrightarrow> (\<exists>key. rs_keys s j = Some key \<and> rk_name key \<noteq> None \<and> has_flag KEY_PREDEF key)"

lemma kept_flag: "kept key key' \<Longrightarrow> f AND KEY_DIRTY = 0 \<Longrightarrow> has_flag f key' = has_flag f key"
proof -
  assume k: "kept key key'" and f: "f AND KEY_DIRTY = 0"
  have "tree_of (blank_key\<lparr>rk_flags := rk_flags key'\<rparr>) = tree_of (blank_key\<lparr>rk_flags := rk_flags key\<rparr>)" using k by (simp add: tree_of_def kept_def)
  from tree_of_flag [OF f this] show ?thesis by (simp add: has_flag_def)
qed

lemma pruned_guarded: "pruned s s' \<Longrightarrow> guarded j s' \<Longrightarrow> guarded j s"
proof -
  assume p: "pruned s s'" and "guarded j s'"
  then obtain key' where k': "rs_keys s' j = Some key'" "rk_name key' \<noteq> None" "has_flag KEY_PREDEF key'" by (auto simp: guarded_def)
  obtain key where "rs_keys s j = Some key" "kept key key'" using prunedD [OF p k'(1,2)] by blast
  then show ?thesis using k' kept_flag [of key key' KEY_PREDEF] by (auto simp: guarded_def kept_def)
qed

text \<open>Only keys below \<open>k\<close> die.\<close>

definition dies_below :: "rstate \<Rightarrow> nat \<Rightarrow> rstate \<Rightarrow> bool" where
  "dies_below s k s' \<longleftrightarrow> pruned s s' \<and> (\<forall>j. alive j s \<and> \<not> alive j s' \<longrightarrow> j \<in> below s k)"

lemma dies_below_trans:
  assumes a: "dies_below s k s'" "reg_wf casemap s'" and b: "dies_below s' c s''" and c: "c \<in> below s k"
  shows "dies_below s k s''"
  unfolding dies_below_def
proof (intro conjI allI impI)
  show "pruned s s''" using a b pruned_trans by (auto simp: dies_below_def)
  fix j
  assume j: "alive j s \<and> \<not> alive j s''"
  have "below s' c \<subseteq> below s k" using below_pruned [OF a(2)] a(1) below_trans [OF c] by (auto simp: dies_below_def)
  then show "j \<in> below s k" using j a(1) b by (auto simp: dies_below_def)
qed

lemma dies_below_quiet: "quiet s s' \<Longrightarrow> dies_below s k s'"
  using quiet_alive pruned_quiet by (auto simp: dies_below_def)

definition live :: "nat \<Rightarrow> rstate \<Rightarrow> nat set" where
  "live k s = {j. k \<le> j \<and> alive j s}"

lemma finite_live:
  assumes "reg_wf casemap s"
  shows "finite (live k s)"
proof (rule finite_subset)
  show "live k s \<subseteq> {..<rs_next s}" using alive_less [OF assms] by (auto simp: live_def)
qed simp

lemma card_live_alive:
  assumes "reg_wf casemap s" "alive k s"
  shows "card (live k s) = Suc (card (live (Suc k) s))"
proof -
  have "live k s = insert k (live (Suc k) s)" using assms(2) by (auto simp: live_def Suc_le_eq le_less)
  then show ?thesis using finite_live [OF assms(1)] by (simp add: live_def)
qed

lemma card_live_child: "reg_wf casemap s \<Longrightarrow> k < c \<Longrightarrow> card (live c s) \<le> card (live (Suc k) s)"
  by (rule card_mono [OF finite_live]) (auto simp: live_def)

lemma card_live_pruned:
  assumes "reg_wf casemap s" "pruned s s'" "alive c s" "\<not> alive c s'" "k < c"
  shows "card (live (Suc k) s') < card (live (Suc k) s)"
proof (rule psubset_card_mono [OF finite_live [OF assms(1)]])
  show "live (Suc k) s' \<subset> live (Suc k) s" using assms pruned_alive by (auto simp: live_def)
qed

definition deletes_key :: "(nat \<Rightarrow> u16) \<Rightarrow> rstate \<Rightarrow> nat \<Rightarrow> bool \<Rightarrow> bool \<Rightarrow> rstate \<Rightarrow> bool" where
  "deletes_key casemap s k recurse b s' \<longleftrightarrow> keeps casemap s s' \<and> dies_below s k s' \<and> (b \<longrightarrow> \<not> alive k s') \<and>
     (\<not> b \<and> recurse \<longrightarrow> (\<exists>key. rs_keys s k = Some key \<and> rk_parent key = None) \<or> (\<exists>j\<in>below s k. guarded j s))"

definition deletes_subkeys :: "(nat \<Rightarrow> u16) \<Rightarrow> rstate \<Rightarrow> nat \<Rightarrow> bool \<Rightarrow> rstate \<Rightarrow> bool" where
  "deletes_subkeys casemap s k b s' \<longleftrightarrow> keeps casemap s s' \<and> dies_below s k s' \<and> alive k s' \<and>
     (b \<longrightarrow> (\<exists>key'. rs_keys s' k = Some key' \<and> rk_subkeys key' = [])) \<and> (\<not> b \<longrightarrow> (\<exists>j\<in>below s k. guarded j s))"

text \<open>The end of a deletion: the key itself, once it has no subkeys.\<close>

lemma finish_delete:
  assumes wf: "reg_wf casemap s" and k: "rs_keys s k = Some key" "rk_parent key = Some p" "rk_subkeys key = []"
    and s': "s' = touch_key p change (unlink_named_object ok k (upd_key k (set_flag KEY_DELETED) s))"
  shows "keeps casemap s s'" "dies_below s k s'" "\<not> alive k s'"
proof -
  let ?s1 = "unlink_named_object ok k (upd_key k (set_flag KEY_DELETED) s)"
  note D = delete_leaf [OF wf k refl, of ok]
  have pk: "p < k" using alive_parent [OF wf k(1,2)] by simp
  have wf1: "reg_wf casemap ?s1" using D(1) by (simp add: keeps_def)
  have q: "quiet ?s1 s'" unfolding s' by (rule touch_key_quiet [OF wf1 D(2)])
  show "keeps casemap s s'" using keeps_trans [OF D(1) keeps_quiet [OF wf1 q]] .
  obtain pk nb where e: "rs_keys s p = Some pk" "rs_keys ?s1 = (rs_keys s)(k \<mapsto> deleted_key key, p \<mapsto> unlinked_parent k nb pk)" using D(3) by blast
  have pr: "pruned s ?s1" by (rule pruned_leaf [OF e(1) _ k(1) e(2)]) (use pk D(4) in \<open>auto simp: rest_same_def\<close>)
  have a1: "alive j ?s1 \<longleftrightarrow> alive j s \<and> j \<noteq> k" for j using e pk by (auto simp: alive_def deleted_key_def unlinked_parent_def)
  then have "dies_below s k ?s1" using pr by (auto simp: dies_below_def)
  from dies_below_trans [OF this wf1 dies_below_quiet [OF q] below_self] show "dies_below s k s'" .
  show "\<not> alive k s'" using quiet_alive [OF q] a1 by simp
qed

lemma delete_key_step:
  assumes IH: "\<And>s. reg_wf casemap s \<Longrightarrow> alive k s \<Longrightarrow> 2 * card (live (Suc k) s) + 1 \<le> n \<Longrightarrow>
      deletes_subkeys casemap s k (fst (delete_subkeys ok n k s)) (snd (delete_subkeys ok n k s))"
    and wf: "reg_wf casemap s" and k: "rs_keys s k = Some key" and n: "2 * card (live k s) \<le> Suc n"
  shows "deletes_key casemap s k recurse (fst (delete_key ok (Suc n) k recurse s)) (snd (delete_key ok (Suc n) k recurse s))"
proof -
  note w = key_wfD [OF reg_wfD [OF wf k]]
  have quietly: "keeps casemap s (set_rerror e s)" "dies_below s k (set_rerror e s)" for e
    using keeps_quiet [OF wf quiet_rerror] dies_below_quiet [OF quiet_rerror] by auto
  show ?thesis
  proof (cases "has_flag KEY_DELETED key")
    case True
    then have "\<not> alive k s" using k w(7) by (simp add: alive_def state_wf_def)
    then show ?thesis using k True keeps_quiet [OF wf quiet_refl] dies_below_quiet [OF quiet_refl] by (simp add: deletes_key_def)
  next
    case nd: False
    then have a: "alive k s" using k w(7) by (simp add: alive_def state_wf_def)
    note g = get_parent_alive [OF a k]
    show ?thesis
    proof (cases "rk_parent key")
      case None
      then show ?thesis using k nd g quietly by (simp add: deletes_key_def)
    next
      case (Some p)
      show ?thesis
      proof (cases "has_flag KEY_PREDEF key")
        case True
        then have "guarded k s" using k a by (auto simp: guarded_def alive_def)
        then show ?thesis using k nd g Some True quietly by (auto simp: deletes_key_def intro: bexI [of _ k])
      next
        case np: False
        obtain b1 s1 where r: "(if recurse then delete_subkeys ok n k s else if rk_subkeys key \<noteq> [] then (False, set_rerror STATUS_ACCESS_DENIED s) else (True, s)) = (b1, s1)"
          by (meson surj_pair)
        let ?s2 = "touch_key p REG_NOTIFY_CHANGE_NAME (unlink_named_object ok k (upd_key k (set_flag KEY_DELETED) s1))"
        have e: "delete_key ok (Suc n) k recurse s = (if b1 then (True, ?s2) else (False, s1))" using k nd g Some np r by simp
        have n': "2 * card (live (Suc k) s) + 1 \<le> n" using n card_live_alive [OF wf a] by simp
        have S: "keeps casemap s s1 \<and> dies_below s k s1 \<and> alive k s1 \<and> (b1 \<longrightarrow> (\<exists>key'. rs_keys s1 k = Some key' \<and> rk_subkeys key' = [])) \<and>
            (\<not> b1 \<and> recurse \<longrightarrow> (\<exists>j\<in>below s k. guarded j s))"
        proof (cases recurse)
          case True
          then show ?thesis using IH [OF wf a n'] r by (simp add: deletes_subkeys_def)
        next
          case False
          then show ?thesis using r k a quietly quiet_alive [OF quiet_rerror] keeps_quiet [OF wf quiet_refl] dies_below_quiet [OF quiet_refl] by (auto split: if_splits)
        qed
        show ?thesis
        proof (cases b1)
          case False
          then show ?thesis using e S by (simp add: deletes_key_def)
        next
          case True
          then obtain key' where k': "rs_keys s1 k = Some key'" "rk_subkeys key' = []" using S by blast
          have "rk_name key' \<noteq> None" using S k'(1) by (simp add: alive_def)
          then obtain key0 where "rs_keys s k = Some key0" "kept key0 key'" using prunedD [of s s1] S k'(1) unfolding dies_below_def by blast
          then have p': "rk_parent key' = Some p" using k Some by (simp add: kept_def)
          have wf1: "reg_wf casemap s1" using S by (simp add: keeps_def)
          note F = finish_delete [OF wf1 k'(1) p' k'(2) refl, of REG_NOTIFY_CHANGE_NAME ok]
          have "keeps casemap s ?s2" using keeps_trans S F(1) by blast
          moreover have "dies_below s k ?s2" using dies_below_trans [OF _ wf1 F(2) below_self] S by blast
          ultimately show ?thesis using e True F(3) by (simp add: deletes_key_def)
        qed
      qed
    qed
  qed
qed

lemma delete_subkeys_step:
  assumes IHk: "\<And>c key s. reg_wf casemap s \<Longrightarrow> rs_keys s c = Some key \<Longrightarrow> 1 \<le> n \<Longrightarrow> 2 * card (live c s) \<le> n \<Longrightarrow>
      deletes_key casemap s c True (fst (delete_key ok n c True s)) (snd (delete_key ok n c True s))"
    and IHs: "\<And>s. reg_wf casemap s \<Longrightarrow> alive k s \<Longrightarrow> 2 * card (live (Suc k) s) + 1 \<le> n \<Longrightarrow>
      deletes_subkeys casemap s k (fst (delete_subkeys ok n k s)) (snd (delete_subkeys ok n k s))"
    and wf: "reg_wf casemap s" and a: "alive k s" and n: "2 * card (live (Suc k) s) + 1 \<le> Suc n"
  shows "deletes_subkeys casemap s k (fst (delete_subkeys ok (Suc n) k s)) (snd (delete_subkeys ok (Suc n) k s))"
proof -
  obtain key where k: "rs_keys s k = Some key" using a by (auto simp: alive_def)
  show ?thesis
  proof (cases "rk_subkeys key = []")
    case True
    then show ?thesis using k a keeps_quiet [OF wf quiet_refl] dies_below_quiet [OF quiet_refl] by (simp add: deletes_subkeys_def)
  next
    case False
    let ?c = "last (rk_subkeys key)"
    have c: "?c \<in> set (rk_subkeys key)" using False by simp
    obtain ck where ck: "rs_keys s ?c = Some ck" "rk_parent ck = Some k" "rk_name ck \<noteq> None" and kc: "k < ?c" using subkeyD [OF wf k c] by blast
    have ac: "alive ?c s" using ck by (simp add: alive_def)
    have cb: "?c \<in> below s k" by (rule below_child [OF ck(1,2)])
    have "2 * card (live ?c s) \<le> n" using card_live_child [OF wf kc] n by linarith
    moreover have "1 \<le> card (live ?c s)" using card_live_alive [OF wf ac] by simp
    ultimately have D: "deletes_key casemap s ?c True (fst (delete_key ok n ?c True s)) (snd (delete_key ok n ?c True s))" using IHk [OF wf ck(1)] by linarith
    obtain b1 s1 where r: "delete_key ok n ?c True s = (b1, s1)" by (meson surj_pair)
    have D1: "keeps casemap s s1" "dies_below s ?c s1" "b1 \<Longrightarrow> \<not> alive ?c s1" "\<not> b1 \<Longrightarrow> \<exists>j\<in>below s ?c. guarded j s"
      using D r ck by (auto simp: deletes_key_def)
    have wf1: "reg_wf casemap s1" using D1(1) by (simp add: keeps_def)
    have nk: "k \<notin> below s ?c"
    proof
      assume "k \<in> below s ?c"
      then have "(k, ?c) \<in> (parent_rel s)\<^sup>*" by (simp add: below_def)
      then have "?c \<le> k" by (induction rule: rtrancl_induct) (use alive_parent [OF wf] in \<open>fastforce simp: parent_rel_def\<close>)+
      then show False using kc by simp
    qed
    have a1: "alive k s1" using D1(2) a nk by (auto simp: dies_below_def)
    have d1: "dies_below s k s1" using D1(2) below_trans [OF cb] by (auto simp: dies_below_def)
    show ?thesis
    proof (cases b1)
      case False
      then obtain j where "j \<in> below s ?c" "guarded j s" using D1(4) by blast
      then have "\<exists>j\<in>below s k. guarded j s" using below_trans [OF cb] by blast
      then show ?thesis using k \<open>rk_subkeys key \<noteq> []\<close> r False D1(1) d1 a1 by (simp add: deletes_subkeys_def)
    next
      case True
      have "card (live (Suc k) s1) < card (live (Suc k) s)" by (rule card_live_pruned [OF wf _ ac D1(3) [OF True] kc]) (use d1 in \<open>simp add: dies_below_def\<close>)
      then have n1: "2 * card (live (Suc k) s1) + 1 \<le> n" using n by linarith
      obtain b2 s2 where r2: "delete_subkeys ok n k s1 = (b2, s2)" by (meson surj_pair)
      have E: "deletes_subkeys casemap s1 k b2 s2" using IHs [OF wf1 a1 n1] r2 by simp
      have "keeps casemap s s2" using keeps_trans [OF D1(1)] E by (simp add: deletes_subkeys_def)
      moreover have "dies_below s k s2" using dies_below_trans [OF d1 wf1 _ below_self] E by (simp add: deletes_subkeys_def)
      moreover have "\<exists>j\<in>below s k. guarded j s" if "\<exists>j\<in>below s1 k. guarded j s1"
        using that below_pruned [OF wf1] pruned_guarded d1 unfolding dies_below_def by blast
      ultimately show ?thesis using k \<open>rk_subkeys key \<noteq> []\<close> r True r2 E by (auto simp: deletes_subkeys_def)
    qed
  qed
qed

lemma delete_both:
  "(\<forall>k key recurse s. reg_wf casemap s \<longrightarrow> rs_keys s k = Some key \<longrightarrow> 1 \<le> n \<longrightarrow> 2 * card (live k s) \<le> n \<longrightarrow>
      (deletes_key casemap s k recurse (fst (delete_key ok n k recurse s)) (snd (delete_key ok n k recurse s)))) \<and>
   (\<forall>k s. reg_wf casemap s \<longrightarrow> alive k s \<longrightarrow> 2 * card (live (Suc k) s) + 1 \<le> n \<longrightarrow>
      (deletes_subkeys casemap s k (fst (delete_subkeys ok n k s)) (snd (delete_subkeys ok n k s))))"
proof (induction n)
  case (Suc n)
  have IHk: "deletes_key casemap s c True (fst (delete_key ok n c True s)) (snd (delete_key ok n c True s))"
    if "reg_wf casemap s" "rs_keys s c = Some key" "1 \<le> n" "2 * card (live c s) \<le> n" for c key s using Suc.IH that by blast
  have IHs: "deletes_subkeys casemap s k (fst (delete_subkeys ok n k s)) (snd (delete_subkeys ok n k s))"
    if "reg_wf casemap s" "alive k s" "2 * card (live (Suc k) s) + 1 \<le> n" for k s using Suc.IH that by blast
  show ?case
  proof (intro conjI allI impI)
    fix k key recurse s
    assume "reg_wf casemap s" "rs_keys s k = Some key" "2 * card (live k s) \<le> Suc n"
    then show "deletes_key casemap s k recurse (fst (delete_key ok (Suc n) k recurse s)) (snd (delete_key ok (Suc n) k recurse s))" by (intro delete_key_step IHs)
  next
    fix k s
    assume "reg_wf casemap s" "alive k s" "2 * card (live (Suc k) s) + 1 \<le> Suc n"
    then show "deletes_subkeys casemap s k (fst (delete_subkeys ok (Suc n) k s)) (snd (delete_subkeys ok (Suc n) k s))" by (intro delete_subkeys_step IHk IHs)
  qed
qed simp

text \<open>The fuel a request has is enough.\<close>

lemma delete_key_done:
  assumes wf: "reg_wf casemap s" and k: "rs_keys s k = Some key"
  shows "deletes_key casemap s k recurse (fst (delete_key ok (2 * rs_next s + 2) k recurse s)) (snd (delete_key ok (2 * rs_next s + 2) k recurse s))"
proof -
  have "live k s \<subseteq> {..<rs_next s}" using alive_less [OF wf] by (auto simp: live_def)
  then have "card (live k s) \<le> card {..<rs_next s}" by (rule card_mono [OF finite_lessThan])
  then have "2 * card (live k s) \<le> 2 * rs_next s + 2" by simp
  moreover have "1 \<le> 2 * rs_next s + 2" by simp
  ultimately show ?thesis using delete_both [of casemap "2 * rs_next s + 2" ok] wf k by blast
qed

section \<open>Renaming\<close>

lemma find_subkey_place:
  assumes "reg_wf casemap s" "rs_keys s p = Some pk" "find_subkey casemap s pk n = (False, i)"
  shows "name_order.splits_at casemap (map (key_name s) (rk_subkeys pk)) n i"
  by (rule name_order.search_place [OF key_wfD(4) [OF reg_wfD [OF assms(1,2)]] assms(3) [unfolded find_subkey_names]])

lemma move_subkey_props:
  assumes "distinct xs" "cur < length xs"
  shows "set (move_subkey cur i xs) = set xs" "distinct (move_subkey cur i xs)" "length (move_subkey cur i xs) = length xs"
proof -
  note r = remove_at_distinct [OF assms]
  have x: "xs ! cur \<in> set xs" using assms(2) by simp
  show "set (move_subkey cur i xs) = set xs" unfolding move_subkey_def Let_def set_insert_at r(1) using x by blast
  have "xs ! cur \<notin> set (remove_at cur xs)" unfolding r(1) by blast
  then show "distinct (move_subkey cur i xs)" unfolding move_subkey_def Let_def by (rule distinct_insert_at [OF r(2)])
  show "length (move_subkey cur i xs) = length xs" unfolding move_subkey_def Let_def length_insert_at length_remove_at [OF assms(2)] using assms(2) by simp
qed

lemma rename_wf:
  assumes wf: "reg_wf casemap s" and k: "rs_keys s k = Some key" "rk_parent key = Some p" and p: "rs_keys s p = Some pk"
    and f: "find_subkey casemap s pk n = (False, i)"
    and s': "rs_keys s' = (rs_keys s)(k \<mapsto> key\<lparr>rk_name := Some n\<rparr>, p \<mapsto> pk\<lparr>rk_subkeys := move_subkey (index_of k (rk_subkeys pk)) i (rk_subkeys pk)\<rparr>)"
      "rs_next s' = rs_next s"
  shows "reg_wf casemap s'"
  unfolding reg_wf_def
proof (intro allI impI)
  let ?cur = "index_of k (rk_subkeys pk)"
  let ?pk = "pk\<lparr>rk_subkeys := move_subkey ?cur i (rk_subkeys pk)\<rparr>"
  have pk: "p < k" using alive_parent [OF wf k(1,2)] by simp
  have kin: "k \<in> set (rk_subkeys pk)" using parentD(3) [OF wf k(1,2)] p by simp
  note wp = key_wfD [OF reg_wfD [OF wf p]] and wk = key_wfD [OF reg_wfD [OF wf k(1)]]
  have dist: "distinct (rk_subkeys pk)" using wp(2) by (simp add: subkeys_wf_def)
  note ix = index_of_in [OF kin]
  note mv = move_subkey_props [OF dist ix(1), of i]
  have name: "key_name s' c = (if c = k then n else key_name s c)" for c using pk p by (simp add: key_name_def s')
  have up: "\<exists>ck'. rs_keys s' c = Some ck' \<and> rk_parent ck' = rk_parent ck \<and> set (rk_subkeys ck') = set (rk_subkeys ck)" if "rs_keys s c = Some ck" for c ck
    using that p k(1) mv(1) pk by (cases "c = p"; cases "c = k") (auto simp: s')
  have sw: "subkeys_wf s' j jk'" if "subkeys_wf s j jk" "set (rk_subkeys jk') = set (rk_subkeys jk)" "distinct (rk_subkeys jk')" for j jk jk'
    using that up unfolding subkeys_wf_def by metis
  have pw: "parent_wf s' j jk'" if "parent_wf s j jk" "rk_parent jk' = rk_parent jk" "rk_name jk \<noteq> None \<longrightarrow> rk_name jk' \<noteq> None" for j jk jk'
    using that up unfolding parent_wf_def by metis
  have same: "map (key_name s') (rk_subkeys jk) = map (key_name s) (rk_subkeys jk)" if "rs_keys s j = Some jk" "j \<noteq> p" for j jk
  proof -
    have "k \<notin> set (rk_subkeys jk)" using subkeyD(2) [OF wf that(1), of k] that(2) k(1,2) by auto
    then show ?thesis by (auto simp: name)
  qed
  have ord: "name_order.ordered casemap (map (key_name s') (rk_subkeys ?pk))"
  proof -
    let ?names = "map (key_name s) (rk_subkeys pk)"
    let ?i = "if ?cur < i then i - 1 else i"
    have k_rem: "k \<notin> set (remove_at ?cur (rk_subkeys pk))" using remove_at_distinct(1) [OF dist ix(1)] ix(2) by simp
    have "map (key_name s') (remove_at ?cur (rk_subkeys pk)) = remove_at ?cur ?names" unfolding map_remove_at [symmetric]
      by (rule map_cong) (use k_rem in \<open>auto simp: name\<close>)
    then have "map (key_name s') (rk_subkeys ?pk) = insert_at ?i n (remove_at ?cur ?names)"
      using ix(2) by (simp add: move_subkey_def Let_def map_insert_at name)
    moreover have "name_order.splits_at casemap (remove_at ?cur ?names) n ?i"
      using name_order.splits_at_remove [OF find_subkey_place [OF wf p f], of ?cur] ix(1) by (simp add: remove_at_def)
    moreover have "name_order.ordered casemap (remove_at ?cur ?names)" using name_order.ordered_remove [OF wp(4)] by (simp add: remove_at_def)
    ultimately show ?thesis using name_order.ordered_insert by (simp add: insert_at_def)
  qed
  fix j jk
  assume j: "rs_keys s' j = Some jk"
  consider "j = p" | "j = k" | "j \<noteq> k" "j \<noteq> p" by blast
  then show "key_wf casemap s' j jk"
  proof cases
    case 1
    then have e: "jk = ?pk" using j by (simp add: s')
    show ?thesis unfolding e 1 key_wf_def
      using wp sw [OF wp(2), of ?pk] pw [OF wp(3), of ?pk] ord mv by (auto simp: s'(2) values_wf_def room_wf_def state_wf_def has_flag_def)
  next
    case 2
    then have e: "jk = key\<lparr>rk_name := Some n\<rparr>" using j pk by (simp add: s')
    have nm: "rk_name key \<noteq> None" by (rule parentD(2) [OF wf k(1,2)])
    show ?thesis unfolding e 2 key_wf_def
      using wk sw [OF wk(2), of "key\<lparr>rk_name := Some n\<rparr>"] pw [OF wk(3), of "key\<lparr>rk_name := Some n\<rparr>"] same [OF k(1)] pk nm
      by (auto simp: s'(2) values_wf_def room_wf_def state_wf_def has_flag_def subkeys_wf_def simp del: map_eq_conv)
  next
    case 3
    then have j': "rs_keys s j = Some jk" using j by (simp add: s')
    note w = key_wfD [OF reg_wfD [OF wf j']]
    show ?thesis unfolding key_wf_def using w sw [OF w(2) refl] pw [OF w(3) refl] same [OF j' 3(2)] by (auto simp: s'(2) subkeys_wf_def simp del: map_eq_conv)
  qed
qed

definition renamed :: "(nat \<Rightarrow> u16) \<Rightarrow> nat \<Rightarrow> wchar list \<Rightarrow> rstate \<Rightarrow> rstate \<Rightarrow> bool" where
  "renamed casemap k n s s' \<longleftrightarrow> (\<exists>key p pk i s2. rs_keys s k = Some key \<and> rk_parent key = Some p \<and> rs_keys s p = Some pk \<and>
     find_subkey casemap s pk n = (False, i) \<and>
     rs_keys s2 = (rs_keys s)(k \<mapsto> key\<lparr>rk_name := Some n\<rparr>, p \<mapsto> pk\<lparr>rk_subkeys := move_subkey (index_of k (rk_subkeys pk)) i (rk_subkeys pk)\<rparr>) \<and>
     rs_next s2 = rs_next s \<and> rs_ok s2 = rs_ok s \<and> s' = touch_key k REG_NOTIFY_CHANGE_NAME s2)"

lemma key_name_keys: "rs_keys s' = rs_keys s \<Longrightarrow> key_name s' = key_name s"
  by (simp add: fun_eq_iff key_name_def)

lemma rename_cases:
  assumes wf: "reg_wf casemap s" and a: "alive k s"
  shows "quiet s (rename_key ok casemap k n s) \<or> renamed casemap k n s (rename_key ok casemap k n s)"
proof -
  obtain key where k: "rs_keys s k = Some key" using a by (auto simp: alive_def)
  note g = get_parent_alive [OF a k]
  let ?bad = "length (get_path_element n) = 0 \<or> length (get_path_element n) \<noteq> length n \<or> length (get_path_element n) > MAX_NAME_LEN"
  show ?thesis
  proof (cases "?bad \<or> rk_parent key = None")
    case True
    then show ?thesis using g by (auto simp: rename_key_def Let_def)
  next
    case False
    then obtain p where p: "rk_parent key = Some p" by auto
    have ne: "n \<noteq> []" using False by auto
    obtain pk where pk: "rs_keys s p = Some pk" "k \<in> set (rk_subkeys pk)" using parentD(3) [OF wf k p] by blast
    have pk': "p \<noteq> k" using alive_parent [OF wf k p] by simp
    obtain found i where f: "find_subkey casemap s pk n = (found, i)" by (meson surj_pair)
    have e: "rename_key ok casemap k n s = (if found then set_rerror STATUS_CANNOT_DELETE s
        else if rk_wow6432node pk = Some k \<or> is_wow6432node casemap n then set_rerror STATUS_INVALID_PARAMETER s
        else case reg_alloc ok s of (b, s1) \<Rightarrow> if \<not> b then s1
          else touch_key k REG_NOTIFY_CHANGE_NAME (upd_key k (\<lambda>key. key\<lparr>rk_name := Some n\<rparr>)
            (upd_key p (\<lambda>key. key\<lparr>rk_subkeys := move_subkey (index_of k (rk_subkeys pk)) i (rk_subkeys key)\<rparr>) s1)))"
      using False g p pk(1) f ne index_of_in(1) [OF pk(2)] by (simp add: rename_key_def Let_def split: prod.split)
    obtain b s1 where r: "reg_alloc ok s = (b, s1)" by (meson surj_pair)
    note q = reg_alloc_quiet [OF r]
    show ?thesis
    proof (cases "found \<or> rk_wow6432node pk = Some k \<or> is_wow6432node casemap n \<or> \<not> b")
      case True
      then show ?thesis using e r q by auto
    next
      case ok: False
      let ?s2 = "upd_key k (\<lambda>key. key\<lparr>rk_name := Some n\<rparr>) (upd_key p (\<lambda>key. key\<lparr>rk_subkeys := move_subkey (index_of k (rk_subkeys pk)) i (rk_subkeys key)\<rparr>) s1)"
      have "rs_keys ?s2 = (rs_keys s)(k \<mapsto> key\<lparr>rk_name := Some n\<rparr>, p \<mapsto> pk\<lparr>rk_subkeys := move_subkey (index_of k (rk_subkeys pk)) i (rk_subkeys pk)\<rparr>)"
        using q k pk(1) pk' by (auto simp: upd_key_def)
      moreover have "rs_next ?s2 = rs_next s" "rs_ok ?s2 = rs_ok s" using q by (simp_all add: quiet_def same_tree_def)
      moreover have "rename_key ok casemap k n s = touch_key k REG_NOTIFY_CHANGE_NAME ?s2" using e r ok by simp
      moreover have "find_subkey casemap s pk n = (False, i)" using f ok by simp
      ultimately have "renamed casemap k n s (rename_key ok casemap k n s)" unfolding renamed_def
        by (intro exI [of _ key] exI [of _ p] exI [of _ pk] exI [of _ i] exI [of _ ?s2] conjI k p pk(1))
      then show ?thesis ..
    qed
  qed
qed

lemma renamed_keeps:
  assumes wf: "reg_wf casemap s" and r: "renamed casemap k n s s'"
  shows "keeps casemap s s'"
proof -
  obtain key p pk i s2 where k: "rs_keys s k = Some key" "rk_parent key = Some p" and p: "rs_keys s p = Some pk" and f: "find_subkey casemap s pk n = (False, i)"
    and s2: "rs_keys s2 = (rs_keys s)(k \<mapsto> key\<lparr>rk_name := Some n\<rparr>, p \<mapsto> pk\<lparr>rk_subkeys := move_subkey (index_of k (rk_subkeys pk)) i (rk_subkeys pk)\<rparr>)"
      "rs_next s2 = rs_next s" "rs_ok s2 = rs_ok s" and s': "s' = touch_key k REG_NOTIFY_CHANGE_NAME s2"
    using r unfolding renamed_def by blast
  have wf2: "reg_wf casemap s2" by (rule rename_wf [OF wf k p f s2(1,2)])
  have "p < k" using alive_parent [OF wf k] by simp
  then have "alive k s2" using s2(1) by (simp add: alive_def)
  then show ?thesis unfolding s' using keeps_touch [of casemap s s2 k] wf2 s2(3) by (simp add: keeps_def)
qed

lemma rename_keeps: "reg_wf casemap s \<Longrightarrow> alive k s \<Longrightarrow> keeps casemap s (rename_key ok casemap k n s)"
  using rename_cases renamed_keeps keeps_quiet by blast

end
