(* ===== verification/Registry_Create.thy ===== *)
theory Registry_Create
  imports Registry_Tree
begin

unbundle bit_operations_syntax

text \<open>Creating a key: linking it below its parent, initializing it, and undoing the link if that fails.\<close>

section \<open>Linking a new key\<close>

lemma insert_wf:
  assumes wf: "reg_wf casemap s" and p: "rs_keys s p = Some pk" "rk_name pk \<noteq> None" and k: "k = rs_next s"
    and f: "find_subkey casemap s pk n = (False, i)"
    and s': "rs_keys s' = (rs_keys s)(k \<mapsto> key', p \<mapsto> pk')" "rs_next s' = Suc (rs_next s)"
    and key': "rk_name key' = Some n" "rk_parent key' = Some p" "rk_subkeys key' = []" "values_wf casemap key'" "room_wf key'" "state_wf key'"
    and pk': "rk_name pk' = rk_name pk" "rk_parent pk' = rk_parent pk" "rk_subkeys pk' = insert_at i k (rk_subkeys pk)"
      "values_wf casemap pk'" "room_wf pk'" "state_wf pk'"
  shows "reg_wf casemap s'"
  unfolding reg_wf_def
proof (intro allI impI)
  note wp = key_wfD [OF reg_wfD [OF wf p(1)]]
  have pk: "p < k" using wp(1) k by simp
  have fresh: "rs_keys s k = None" using reg_wfD [OF wf, of k] key_wfD(1) k by (cases "rs_keys s k") auto
  have old: "c < k" if "rs_keys s c = Some ck" for c ck using key_wfD(1) [OF reg_wfD [OF wf that]] k by simp
  have kin: "k \<notin> set (rk_subkeys pk)"
  proof
    assume "k \<in> set (rk_subkeys pk)"
    then show False using subkeyD(2) [OF wf p(1), of k] fresh by auto
  qed
  have sub: "set (rk_subkeys pk') = insert k (set (rk_subkeys pk))" "distinct (rk_subkeys pk')"
    using distinct_insert_at [OF _ kin] wp(2) by (simp_all add: pk'(3) set_insert_at subkeys_wf_def)
  have name: "key_name s' c = key_name s c" if "c \<noteq> k" for c using that pk'(1) p by (simp add: key_name_def s')
  have namek: "key_name s' k = n" using pk key'(1) by (simp add: key_name_def s')
  have up: "\<exists>ck'. rs_keys s' c = Some ck' \<and> rk_parent ck' = rk_parent ck \<and> set (rk_subkeys ck) \<subseteq> set (rk_subkeys ck')" if "rs_keys s c = Some ck" for c ck
    using that p(1) pk'(2) sub(1) old [OF that] by (cases "c = p") (auto simp: s')
  fix j jk
  assume j: "rs_keys s' j = Some jk"
  consider "j = k" | "j = p" | "j \<noteq> k" "j \<noteq> p" by blast
  then show "key_wf casemap s' j jk"
  proof cases
    case 1
    then have e: "jk = key'" using j pk by (simp add: s')
    have "\<exists>pk. rs_keys s' p = Some pk \<and> k \<in> set (rk_subkeys pk)" using sub(1) by (simp add: s')
    then show ?thesis using key' k unfolding e 1 by (simp add: key_wf_def subkeys_wf_def parent_wf_def s'(2) name_order.ordered_def)
  next
    case 2
    then have e: "jk = pk'" using j by (simp add: s')
    have "subkeys_wf s' p pk'" unfolding subkeys_wf_def
    proof (intro conjI ballI)
      fix c
      assume c: "c \<in> set (rk_subkeys pk')"
      show "p < c" using c sub(1) pk subkeyD(1) [OF wf p(1)] by auto
      show "\<exists>ck. rs_keys s' c = Some ck \<and> rk_parent ck = Some p"
      proof (cases "c = k")
        case True
        then show ?thesis using pk key'(2) by (simp add: s')
      next
        case False
        then have "c \<in> set (rk_subkeys pk)" using c sub(1) by simp
        then obtain ck where "rs_keys s c = Some ck" "rk_parent ck = Some p" using subkeyD(2) [OF wf p(1)] by blast
        then show ?thesis using up by metis
      qed
    qed (rule sub(2))
    moreover have "parent_wf s' p pk'" unfolding parent_wf_def
    proof (intro allI impI)
      fix q
      assume q: "rk_parent pk' = Some q"
      then obtain qk where "rs_keys s q = Some qk" "p \<in> set (rk_subkeys qk)" using parentD(3) [OF wf p(1)] pk'(2) by auto
      then show "rk_name pk' \<noteq> None \<and> (\<exists>qk. rs_keys s' q = Some qk \<and> p \<in> set (rk_subkeys qk))" using up p(2) pk'(1) by (metis in_mono)
    qed
    moreover have "name_order.ordered casemap (map (key_name s') (rk_subkeys pk'))"
    proof -
      have "map (key_name s') (rk_subkeys pk) = map (key_name s) (rk_subkeys pk)" using name kin by (intro map_cong refl) metis
      then have "map (key_name s') (rk_subkeys pk') = insert_at i n (map (key_name s) (rk_subkeys pk))"
        unfolding pk'(3) map_insert_at namek by argo
      then show ?thesis using name_order.ordered_insert [OF wp(4) find_subkey_place [OF wf p(1) f]] by (simp add: insert_at_def)
    qed
    ultimately show ?thesis using wp(1) pk' e 2 by (simp add: key_wf_def s'(2))
  next
    case 3
    then have j': "rs_keys s j = Some jk" using j by (simp add: s')
    show ?thesis
    proof (rule key_wf_frame [OF reg_wfD [OF wf j']])
      show "rs_next s \<le> rs_next s'" by (simp add: s')
    next
      fix c ck
      assume c: "rs_keys s c = Some ck" "rk_parent ck = Some j"
      then have "c \<noteq> k" using fresh by auto
      then show "key_name s' c = key_name s c \<and> (\<exists>ck'. rs_keys s' c = Some ck' \<and> rk_parent ck' = Some j)" using name up [OF c(1)] c(2) by auto
    next
      fix q qk
      assume "rs_keys s q = Some qk" "j \<in> set (rk_subkeys qk)"
      then show "\<exists>qk'. rs_keys s' q = Some qk' \<and> j \<in> set (rk_subkeys qk')" using up by (metis in_mono)
    qed
  qed
qed

text \<open>The parent with the new key in its array.\<close>

definition linked_parent :: "nat \<Rightarrow> nat \<Rightarrow> nat \<Rightarrow> nat option \<Rightarrow> reg_key \<Rightarrow> reg_key" where
  "linked_parent i k nb w pk = pk\<lparr>rk_nb_subkeys := nb, rk_subkeys := insert_at i k (rk_subkeys pk), rk_wow6432node := w\<rparr>"

lemma find_subkey_names_cong:
  "(\<And>c. key_name s' c = key_name s c) \<Longrightarrow> find_subkey casemap s' pk n = find_subkey casemap s pk n"
  by (simp add: find_subkey_def)

lemma link_effect:
  assumes p: "rs_keys s p = Some pk" "p \<noteq> k" and k: "rs_keys s k = Some key" and room: "room_wf pk"
    and r: "key_link_name ok casemap k n p s = (b, s')"
  shows "rest_same s s'"
    and "if b then \<exists>nb w. rs_keys s' = (rs_keys s)(k \<mapsto> key\<lparr>rk_parent := Some p\<rparr>, p \<mapsto> linked_parent (snd (find_subkey casemap s pk n)) k nb w pk) \<and>
        length (rk_subkeys pk) < nb \<and> 8 \<le> nb \<and> (w = rk_wow6432node pk \<or> w = Some k)
      else rs_keys s' = rs_keys s"
proof -
  have R: "length (rk_subkeys pk) \<le> rk_nb_subkeys pk" "rk_nb_subkeys pk = 0 \<or> 8 \<le> rk_nb_subkeys pk" using room by (simp_all add: room_wf_def MIN_eq)
  note g = grown_room [OF R]
  obtain b1 s1 where r1: "(if length (rk_subkeys pk) = rk_nb_subkeys pk then grow_subkeys ok p s else (True, s)) = (b1, s1)" by (meson surj_pair)
  have S1: "rest_same s s1 \<and> (if b1 then \<exists>nb. rs_keys s1 = (rs_keys s)(p \<mapsto> pk\<lparr>rk_nb_subkeys := nb\<rparr>) \<and> length (rk_subkeys pk) < nb \<and> 8 \<le> nb
      else rs_keys s1 = rs_keys s)"
  proof (cases "length (rk_subkeys pk) = rk_nb_subkeys pk")
    case True
    then show ?thesis using r1 p(1) g
      by (auto simp: grow_subkeys_def reg_alloc_def try_realloc_def set_rerror_def upd_key_def rest_same_def MIN_eq split: if_splits
        intro!: exI [of _ "grown 8 (rk_nb_subkeys pk)"])
  next
    case False
    have "rs_keys s = (rs_keys s)(p \<mapsto> pk)" using p(1) by auto
    then show ?thesis using r1 False R by (auto simp: rest_same_def intro!: exI [of _ "rk_nb_subkeys pk"])
  qed
  let ?s2 = "upd_key p (\<lambda>key. key\<lparr>rk_subkeys := insert_at (snd (find_subkey casemap s1 pk n)) k (rk_subkeys key)\<rparr>) s1"
  let ?s3 = "if is_wow6432node casemap n \<and> \<not> is_wow6432node casemap (key_name s1 p) then upd_key p (\<lambda>key. key\<lparr>rk_wow6432node := Some k\<rparr>) ?s2 else ?s2"
  have e: "(if b1 then (True, upd_key k (\<lambda>key. key\<lparr>rk_parent := Some p\<rparr>) ?s3) else (False, s1)) = (b, s')"
    using r unfolding key_link_name_def p(1) option.case r1 prod.case Let_def
    by (cases b1) (simp_all only: if_True if_False not_True_eq_False not_False_eq_True)
  have "rest_same s1 s'" using e by (cases b1) (auto simp: rest_same_def split: if_splits)
  then show "rest_same s s'" using S1 by (simp add: rest_same_def)
  show "if b then \<exists>nb w. rs_keys s' = (rs_keys s)(k \<mapsto> key\<lparr>rk_parent := Some p\<rparr>, p \<mapsto> linked_parent (snd (find_subkey casemap s pk n)) k nb w pk) \<and>
        length (rk_subkeys pk) < nb \<and> 8 \<le> nb \<and> (w = rk_wow6432node pk \<or> w = Some k)
      else rs_keys s' = rs_keys s"
  proof (cases b1)
    case False
    then show ?thesis using e S1 by simp
  next
    case True
    then obtain nb where nb: "rs_keys s1 = (rs_keys s)(p \<mapsto> pk\<lparr>rk_nb_subkeys := nb\<rparr>)" "length (rk_subkeys pk) < nb" "8 \<le> nb" using S1 by auto
    have "key_name s1 c = key_name s c" for c using p(1) nb(1) by (simp add: key_name_def)
    then have f: "find_subkey casemap s1 pk n = find_subkey casemap s pk n" by (rule find_subkey_names_cong)
    let ?w = "if is_wow6432node casemap n \<and> \<not> is_wow6432node casemap (key_name s1 p) then Some k else rk_wow6432node pk"
    have "b \<and> rs_keys s' = (rs_keys s)(k \<mapsto> key\<lparr>rk_parent := Some p\<rparr>, p \<mapsto> linked_parent (snd (find_subkey casemap s pk n)) k nb ?w pk)"
      using e True p k nb(1) f by (auto simp: upd_key_def linked_parent_def)
    then show ?thesis using nb(2,3) by auto
  qed
qed

section \<open>Initializing the key\<close>

text \<open>A key as it is after initialization, with the flags it gets.\<close>

definition fresh_key :: "u32 \<Rightarrow> wchar list \<Rightarrow> nat \<Rightarrow> reg_key \<Rightarrow> bool" where
  "fresh_key flags n p key \<longleftrightarrow> rk_name key = Some n \<and> rk_parent key = Some p \<and> rk_subkeys key = [] \<and> rk_nb_subkeys key = 0 \<and> rk_wow6432node key = None \<and>
     rk_values key = [] \<and> rk_nb_values key = 0 \<and> rk_flags key = flags \<and> rk_notify key = []"

definition init_flags :: "u32 \<Rightarrow> u32" where
  "init_flags options = (if options AND REG_OPTION_CREATE_LINK \<noteq> 0 then KEY_SYMLINK else 0) OR
     (if options AND REG_OPTION_VOLATILE \<noteq> 0 then KEY_VOLATILE else KEY_DIRTY)"

lemma upd_key_at: "rs_keys t = m(k \<mapsto> x) \<Longrightarrow> rs_keys (upd_key k f t) = m(k \<mapsto> f x)"
  by (simp add: upd_key_def)

lemma init_effect:
  assumes k: "rs_keys s k = Some key" "rk_name key = Some n" "rk_parent key = Some p" and p: "rs_keys s p = Some pk" "p \<noteq> k"
    and r: "key_init ok options cls k s = (b, s')"
  shows "rest_same s s'" "\<exists>flags key'. rs_keys s' = (rs_keys s)(k \<mapsto> key') \<and> fresh_key flags n p key' \<and> flags AND KEY_DELETED = 0 \<and>
    (b \<longrightarrow> flags = init_flags options \<and> (options AND REG_OPTION_VOLATILE = 0 \<longrightarrow> \<not> has_flag KEY_VOLATILE pk))"
proof -
  let ?s1 = "upd_key k (\<lambda>key. blank_key\<lparr>rk_name := rk_name key, rk_parent := rk_parent key, rk_modif := rs_time s\<rparr>) s"
  let ?k1 = "blank_key\<lparr>rk_name := Some n, rk_parent := Some p, rk_modif := rs_time s\<rparr>"
  have g: "get_parent k s = (Some p, s)" using k by (simp add: get_parent_def)
  obtain b2 s2 where a: "(if cls \<noteq> [] then reg_alloc ok ?s1 else (True, ?s1)) = (b2, s2)" by (meson surj_pair)
  have s1: "rs_keys ?s1 = (rs_keys s)(k \<mapsto> ?k1)" using k by (simp add: upd_key_def)
  have s2: "rs_keys s2 = (rs_keys s)(k \<mapsto> ?k1)" "rest_same s s2"
    using a s1 by (auto simp: reg_alloc_def try_realloc_def set_rerror_def rest_same_def split: if_splits)
  let ?s3 = "upd_key k (\<lambda>key. key\<lparr>rk_class := cls\<rparr>) s2" and ?k3 = "?k1\<lparr>rk_class := cls\<rparr>"
  let ?s4 = "if options AND REG_OPTION_CREATE_LINK \<noteq> 0 then upd_key k (set_flag KEY_SYMLINK) ?s3 else ?s3"
  let ?k4 = "?k3\<lparr>rk_flags := if options AND REG_OPTION_CREATE_LINK \<noteq> 0 then KEY_SYMLINK else 0\<rparr>"
  have s4: "rs_keys ?s4 = (rs_keys s)(k \<mapsto> ?k4)" "rest_same s ?s4"
    using s2 by (auto simp: upd_key_def set_flag_def blank_key_def rest_same_def)
  have p4: "rs_keys ?s4 p = Some pk" unfolding s4(1) using p by simp
  have e: "(if \<not> b2 then (False, s2) else if options AND REG_OPTION_VOLATILE \<noteq> 0 then (True, upd_key k (set_flag KEY_VOLATILE) ?s4)
      else if has_flag KEY_VOLATILE pk then (False, set_rerror STATUS_CHILD_MUST_BE_VOLATILE ?s4) else (True, upd_key k (set_flag KEY_DIRTY) ?s4)) = (b, s')"
    using r unfolding key_init_def g prod.case Let_def a option.case p4 .
  have fr: "fresh_key (rk_flags ?k4) n p ?k4" "fresh_key 0 n p ?k1" by (simp_all add: fresh_key_def blank_key_def)
  have nd: "KEY_SYMLINK AND KEY_DELETED = 0" "init_flags options AND KEY_DELETED = 0"
    by (simp_all add: init_flags_def KEY_SYMLINK_def KEY_DELETED_def KEY_VOLATILE_def KEY_DIRTY_def)
  consider (mem) "\<not> b2" "b = False" "s' = s2" | (vol) "options AND REG_OPTION_VOLATILE \<noteq> 0" b "s' = upd_key k (set_flag KEY_VOLATILE) ?s4"
    | (bad) "b = False" "s' = set_rerror STATUS_CHILD_MUST_BE_VOLATILE ?s4"
    | (dirty) "options AND REG_OPTION_VOLATILE = 0" b "\<not> has_flag KEY_VOLATILE pk" "s' = upd_key k (set_flag KEY_DIRTY) ?s4"
    using e by (cases b2; cases "options AND REG_OPTION_VOLATILE = 0"; cases "has_flag KEY_VOLATILE pk") auto
  then have "rest_same s s' \<and> (\<exists>flags key'. rs_keys s' = (rs_keys s)(k \<mapsto> key') \<and> fresh_key flags n p key' \<and> flags AND KEY_DELETED = 0 \<and>
    (b \<longrightarrow> flags = init_flags options \<and> (options AND REG_OPTION_VOLATILE = 0 \<longrightarrow> \<not> has_flag KEY_VOLATILE pk)))"
  proof cases
    case mem
    have "rs_keys s' = (rs_keys s)(k \<mapsto> ?k1)" "rest_same s s'" unfolding mem(3) using s2 by simp_all
    moreover have "(0::u32) AND KEY_DELETED = 0" by simp
    ultimately show ?thesis using fr(2) mem(2) by blast
  next
    case vol
    have "rs_keys s' = (rs_keys s)(k \<mapsto> set_flag KEY_VOLATILE ?k4)" unfolding vol(3) by (rule upd_key_at [OF s4(1)])
    moreover have "fresh_key (init_flags options) n p (set_flag KEY_VOLATILE ?k4)" using vol(1) by (simp add: fresh_key_def set_flag_def init_flags_def blank_key_def)
    moreover have "rest_same s s'" using s4(2) unfolding vol(3) by (simp add: rest_same_def)
    ultimately show ?thesis using nd(2) vol(1) by blast
  next
    case bad
    have "rs_keys s' = (rs_keys s)(k \<mapsto> ?k4)" "rest_same s s'" unfolding bad(2) using s4 by (simp_all add: rest_same_def)
    moreover have "rk_flags ?k4 AND KEY_DELETED = 0" using nd(1) by simp
    ultimately show ?thesis using fr(1) bad(1) by blast
  next
    case dirty
    have "rs_keys s' = (rs_keys s)(k \<mapsto> set_flag KEY_DIRTY ?k4)" unfolding dirty(4) by (rule upd_key_at [OF s4(1)])
    moreover have "fresh_key (init_flags options) n p (set_flag KEY_DIRTY ?k4)" using dirty(1) by (simp add: fresh_key_def set_flag_def init_flags_def blank_key_def)
    moreover have "rest_same s s'" using s4(2) unfolding dirty(4) by (simp add: rest_same_def)
    ultimately show ?thesis using nd(2) dirty(3) by blast
  qed
  then show "rest_same s s'" "\<exists>flags key'. rs_keys s' = (rs_keys s)(k \<mapsto> key') \<and> fresh_key flags n p key' \<and> flags AND KEY_DELETED = 0 \<and>
    (b \<longrightarrow> flags = init_flags options \<and> (options AND REG_OPTION_VOLATILE = 0 \<longrightarrow> \<not> has_flag KEY_VOLATILE pk))" by blast+
qed

section \<open>Creating a key\<close>

lemma remove_inserted: "x \<notin> set xs \<Longrightarrow> remove_at (index_of x (insert_at i x xs)) (insert_at i x xs) = xs"
proof -
  assume "x \<notin> set xs"
  then have "takeWhile (\<lambda>y. y \<noteq> x) (take i xs @ x # drop i xs) = take i xs"
    by (subst takeWhile_append2) (auto dest: in_set_takeD)
  then have "index_of x (insert_at i x xs) = length (take i xs)" by (simp add: index_of_def insert_at_def)
  moreover have "take (min (length xs) i) xs @ drop i xs = xs" by (cases "i \<le> length xs") (simp_all add: min_def)
  ultimately show ?thesis by (simp add: insert_at_def remove_at_def)
qed

lemma fresh_key_wf:
  assumes "fresh_key flags n p key" "flags AND KEY_DELETED = 0"
  shows "rk_name key = Some n" "rk_parent key = Some p" "rk_subkeys key = []" "values_wf casemap key" "room_wf key" "state_wf key"
  using assms by (simp_all add: fresh_key_def values_wf_def room_wf_def state_wf_def has_flag_def name_order.ordered_def)

lemma linked_parent_wf:
  assumes "values_wf casemap pk" "room_wf pk" "state_wf pk" "rk_name pk \<noteq> None" "length (rk_subkeys pk) < nb" "8 \<le> nb" "w = rk_wow6432node pk \<or> w = Some k"
  shows "values_wf casemap (linked_parent i k nb w pk)" "room_wf (linked_parent i k nb w pk)" "state_wf (linked_parent i k nb w pk)"
  using assms by (auto simp: linked_parent_def values_wf_def room_wf_def state_wf_def has_flag_def set_insert_at length_insert_at MIN_eq)

lemma reg_wf_next: "reg_wf casemap s \<Longrightarrow> rs_keys s' = rs_keys s \<Longrightarrow> rs_next s \<le> rs_next s' \<Longrightarrow> reg_wf casemap s'"
  by (fastforce simp: reg_wf_def key_name_def intro: key_wf_frame)

lemma fresh_id: "reg_wf casemap s \<Longrightarrow> rs_keys s (rs_next s) = None"
  using reg_wfD [of casemap s "rs_next s"] key_wfD(1) by (cases "rs_keys s (rs_next s)") auto

text \<open>The outcome of a creation: a new key below the parent, or the parent with at most a larger array.\<close>

definition created :: "u32 \<Rightarrow> wchar list \<Rightarrow> nat \<Rightarrow> nat \<Rightarrow> reg_key \<Rightarrow> rstate \<Rightarrow> nat \<Rightarrow> rstate \<Rightarrow> bool" where
  "created options n p i pk s k s' \<longleftrightarrow> k = rs_next s \<and> rs_next s' = Suc k \<and>
     (\<exists>key' nb w. rs_keys s' = (rs_keys s)(k \<mapsto> key', p \<mapsto> linked_parent i k nb w pk) \<and> fresh_key (init_flags options) n p key') \<and>
     (options AND REG_OPTION_VOLATILE = 0 \<longrightarrow> \<not> has_flag KEY_VOLATILE pk)"

definition not_created :: "nat \<Rightarrow> reg_key \<Rightarrow> rstate \<Rightarrow> rstate \<Rightarrow> bool" where
  "not_created p pk s s' \<longleftrightarrow> rs_next s \<le> rs_next s' \<and> (\<exists>nb w. rs_keys s' = (rs_keys s)(p \<mapsto> pk\<lparr>rk_nb_subkeys := nb, rk_wow6432node := w\<rparr>))"

lemma not_created_same: "rs_keys s p = Some pk \<Longrightarrow> rs_keys s' = rs_keys s \<Longrightarrow> rs_next s \<le> rs_next s' \<Longrightarrow> not_created p pk s s'"
proof -
  assume a: "rs_keys s p = Some pk" "rs_keys s' = rs_keys s" "rs_next s \<le> rs_next s'"
  have "rs_keys s' = (rs_keys s)(p \<mapsto> pk\<lparr>rk_nb_subkeys := rk_nb_subkeys pk, rk_wow6432node := rk_wow6432node pk\<rparr>)" using a(1,2) by auto
  then show ?thesis unfolding not_created_def using a(3) by blast
qed

text \<open>The new key linked and initialized, before the answer is known.\<close>

lemma linked_fresh_wf:
  assumes wf: "reg_wf casemap s" and p: "rs_keys s p = Some pk" "rk_name pk \<noteq> None" and f: "find_subkey casemap s pk n = (False, i)"
    and s': "rs_keys s' = (rs_keys s)(rs_next s \<mapsto> key', p \<mapsto> linked_parent i (rs_next s) nb w pk)" "rs_next s' = Suc (rs_next s)"
    and key': "fresh_key flags n p key'" "flags AND KEY_DELETED = 0"
    and nb: "length (rk_subkeys pk) < nb" "8 \<le> nb" "w = rk_wow6432node pk \<or> w = Some (rs_next s)"
  shows "reg_wf casemap s'"
proof -
  note wp = key_wfD [OF reg_wfD [OF wf p(1)]]
  show ?thesis
    by (rule insert_wf [OF wf p refl f s' fresh_key_wf [OF key'] _ _ _ linked_parent_wf [OF wp(5-7) p(2) nb]]) (simp_all add: linked_parent_def)
qed

lemma unlink_fresh:
  assumes wf: "reg_wf casemap s" and p: "rs_keys s p = Some pk" and k: "k = rs_next s" and wf': "reg_wf casemap s'"
    and s': "rs_keys s' = (rs_keys s)(k \<mapsto> key', p \<mapsto> linked_parent i k nb w pk)" "rs_next s' = Suc k"
    and key': "rk_name key' = Some n" "rk_parent key' = Some p" "rk_subkeys key' = []"
    and s'': "s'' = (let s6 = unlink_named_object ok k s' in s6\<lparr>rs_keys := (rs_keys s6)(k := None)\<rparr>)"
  shows "reg_wf casemap s''" "not_created p pk s s''" "rest_same s' s''"
proof -
  have fresh: "rs_keys s k = None" using fresh_id [OF wf] k by simp
  then have pk: "p \<noteq> k" using p by auto
  have K: "rs_keys s' k = Some key'" and P: "rs_keys s' p = Some (linked_parent i k nb w pk)" using pk by (simp_all add: s')
  have kin: "k \<in> set (rk_subkeys (linked_parent i k nb w pk))" by (simp add: linked_parent_def set_insert_at)
  obtain nb' where e: "rs_keys (unlink_named_object ok k s') =
      (rs_keys s')(k \<mapsto> key'\<lparr>rk_name := None, rk_parent := None\<rparr>, p \<mapsto> unlinked_parent k nb' (linked_parent i k nb w pk))"
    "rest_same s' (unlink_named_object ok k s')"
    "nb' = rk_nb_subkeys (linked_parent i k nb w pk) \<or> shrinks 8 (rk_nb_subkeys (linked_parent i k nb w pk)) (length (rk_subkeys (linked_parent i k nb w pk)) - 1) \<and>
      nb' = shrunk 8 (rk_nb_subkeys (linked_parent i k nb w pk))"
    using unlink_effect [OF K _ key'(2) pk P kin, of ok] key'(1) by auto
  let ?pk = "unlinked_parent k nb' (linked_parent i k nb w pk)"
  show r: "rest_same s' s''" using e(2) unfolding s'' Let_def by (simp add: rest_same_def)
  have m: "rs_keys s'' = (rs_keys s')(k := None, p \<mapsto> ?pk)" unfolding s'' Let_def using e(1) pk by auto
  show "reg_wf casemap s''"
    by (rule unlink_wf [OF wf' K key'(2,3) P m _ _ _ _ _ unlinked_parent_wf [OF wf' P kin e(3)]])
      (use r in \<open>auto simp: rest_same_def unlinked_parent_def\<close>)
  have "k \<notin> set (rk_subkeys pk)" using subkeyD(2) [OF wf p, of k] fresh by auto
  then have "?pk = pk\<lparr>rk_nb_subkeys := nb', rk_wow6432node := if w = Some k then None else w\<rparr>"
    by (simp add: unlinked_parent_def linked_parent_def remove_inserted)
  moreover have "rs_keys s'' = (rs_keys s)(p \<mapsto> ?pk)" unfolding m s'(1) using fresh by auto
  moreover have "rs_next s \<le> rs_next s''" using r s'(2) k by (simp add: rest_same_def)
  ultimately show "not_created p pk s s''" unfolding not_created_def by metis
qed

lemma create_effect:
  assumes wf: "reg_wf casemap s" and p: "rs_keys s p = Some pk" "rk_name pk \<noteq> None" and f: "find_subkey casemap s pk n = (False, i)"
    and r: "create_key_object ok casemap options cls p n s = (r, s')"
  shows "keeps casemap s s' \<and> rs_time s' = rs_time s \<and> rs_fired s' = rs_fired s \<and>
    (case r of None \<Rightarrow> not_created p pk s s' | Some k \<Rightarrow> created options n p i pk s k s')"
proof -
  obtain b1 s1 b2 s2 where a: "reg_alloc ok s = (b1, s1)" "reg_alloc ok s1 = (b2, s2)" by (meson surj_pair)
  have S: "rs_keys s1 = rs_keys s" "rest_same s s1" "rs_keys s2 = rs_keys s" "rest_same s s2"
    using a by (auto simp: reg_alloc_def try_realloc_def set_rerror_def rest_same_def split: if_splits)
  let ?k = "rs_next s2" let ?s3 = "s2\<lparr>rs_next := Suc ?k, rs_keys := (rs_keys s2)(?k \<mapsto> blank_key)\<rparr>"
  have k: "?k = rs_next s" using S(4) by (simp add: rest_same_def)
  have fresh: "rs_keys s ?k = None" using fresh_id [OF wf] k by simp
  then have pk: "p \<noteq> ?k" using p(1) by auto
  obtain b3 s4 where l: "key_link_name ok casemap ?k n p ?s3 = (b3, s4)" by (meson surj_pair)
  have P3: "rs_keys ?s3 p = Some pk" "rs_keys ?s3 ?k = Some blank_key" using p S(3) pk by simp_all
  have room: "room_wf pk" using key_wfD(6) [OF reg_wfD [OF wf p(1)]] .
  note L = link_effect [OF P3(1) pk P3(2) room l]
  have quit: "keeps casemap s t \<and> rs_time t = rs_time s \<and> rs_fired t = rs_fired s \<and> not_created p pk s t"
    if "rs_keys t = rs_keys s" "rs_next s \<le> rs_next t" "rs_ok t = rs_ok s" "rs_time t = rs_time s" "rs_fired t = rs_fired s" for t
    using that reg_wf_next [OF wf] not_created_same [OF p(1)] by (auto simp: keeps_def)
  show ?thesis
  proof (cases "b1 \<and> b2")
    case False
    then have "r = None \<and> (s' = s1 \<or> s' = s2)" using r a unfolding create_key_object_def by (auto split: if_splits)
    then show ?thesis using quit [of s'] S by (auto simp: rest_same_def)
  next
    case True
    have e: "(if \<not> b3 then (None, s4\<lparr>rs_keys := (rs_keys s4)(?k := None)\<rparr>)
        else case key_init ok options cls ?k (upd_key ?k (\<lambda>key. key\<lparr>rk_name := Some n\<rparr>) s4) of (b5, s5) \<Rightarrow>
          if b5 then (Some ?k, s5) else let s6 = unlink_named_object ok ?k s5 in (None, s6\<lparr>rs_keys := (rs_keys s6)(?k := None)\<rparr>)) = (r, s')"
      using r True a l unfolding create_key_object_def by (simp add: Let_def)
    have rest4: "rs_next s4 = Suc ?k" "rs_ok s4 = rs_ok s" "rs_time s4 = rs_time s" "rs_fired s4 = rs_fired s"
      using L(1) S(4) by (simp_all add: rest_same_def)
    show ?thesis
    proof (cases b3)
      case False
      then have "rs_keys s4 = (rs_keys s)(?k \<mapsto> blank_key)" using L(2) S(3) by simp
      then show ?thesis using False e rest4 quit [of s'] fresh k by (auto simp: fun_upd_idem)
    next
      case b3: True
      have "key_name ?s3 c = key_name s c" for c using fresh S(3) by (simp add: key_name_def blank_key_def)
      then have fs: "find_subkey casemap ?s3 pk n = (False, i)" using f find_subkey_names_cong [of ?s3 s] by metis
      obtain nb w where m4: "rs_keys s4 = (rs_keys s)(?k \<mapsto> blank_key\<lparr>rk_parent := Some p\<rparr>, p \<mapsto> linked_parent i ?k nb w pk)"
        and nb: "length (rk_subkeys pk) < nb" "8 \<le> nb" "w = rk_wow6432node pk \<or> w = Some ?k" using L(2) b3 S(3) fs by auto
      let ?s5 = "upd_key ?k (\<lambda>key. key\<lparr>rk_name := Some n\<rparr>) s4"
      have m5: "rs_keys ?s5 = (rs_keys s)(?k \<mapsto> blank_key\<lparr>rk_name := Some n, rk_parent := Some p\<rparr>, p \<mapsto> linked_parent i ?k nb w pk)"
        using m4 pk by (auto simp: upd_key_def)
      have K5: "rs_keys ?s5 ?k = Some (blank_key\<lparr>rk_name := Some n, rk_parent := Some p\<rparr>)" and P5: "rs_keys ?s5 p = Some (linked_parent i ?k nb w pk)"
        unfolding m5 using pk by simp_all
      obtain b5 s6 where i: "key_init ok options cls ?k ?s5 = (b5, s6)" by (meson surj_pair)
      note I = init_effect [OF K5 _ _ P5 pk i, of n]
      have rest6: "rs_next s6 = Suc ?k" "rs_ok s6 = rs_ok s" "rs_time s6 = rs_time s" "rs_fired s6 = rs_fired s"
        using I(1) rest4 by (simp_all add: rest_same_def)
      obtain flags key' where k6: "rs_keys s6 = (rs_keys ?s5)(?k \<mapsto> key')" "fresh_key flags n p key'" "flags AND KEY_DELETED = 0"
        "b5 \<longrightarrow> flags = init_flags options \<and> (options AND REG_OPTION_VOLATILE = 0 \<longrightarrow> \<not> has_flag KEY_VOLATILE (linked_parent i ?k nb w pk))"
        using I(2) by auto
      have m6: "rs_keys s6 = (rs_keys s)(?k \<mapsto> key', p \<mapsto> linked_parent i ?k nb w pk)" unfolding k6(1) m5 using pk by auto
      have wf6: "reg_wf casemap s6"
        by (rule linked_fresh_wf [OF wf p f m6 [unfolded k] _ k6(2,3) nb [unfolded k]]) (use rest6 k in simp)
      show ?thesis
      proof (cases b5)
        case True
        then have "r = Some ?k" "s' = s6" using e b3 i by simp_all
        moreover have "created options n p i pk s ?k s6" unfolding created_def using k m6 k6 True rest6(1) by (auto simp: linked_parent_def has_flag_def)
        ultimately show ?thesis using wf6 rest6 by (simp add: keeps_def)
      next
        case False
        then have r: "r = None" and s': "s' = (let s7 = unlink_named_object ok ?k s6 in s7\<lparr>rs_keys := (rs_keys s7)(?k := None)\<rparr>)"
          using e b3 i by (simp_all add: Let_def)
        note u = unlink_fresh [OF wf p(1) k wf6 m6 rest6(1) fresh_key_wf(1-3) [OF k6(2,3)] s']
        show ?thesis using u rest6 r by (simp add: keeps_def rest_same_def)
      qed
    qed
  qed
qed

lemma created_parent:
  assumes wf: "reg_wf casemap s'" and c: "created options n p i pk s k s'"
  shows "get_parent k s' = (Some p, s')" "alive p s'"
proof -
  obtain key' nb w where e: "rs_keys s' = (rs_keys s)(k \<mapsto> key', p \<mapsto> linked_parent i k nb w pk)" "fresh_key (init_flags options) n p key'"
    using c by (auto simp: created_def)
  have "p \<noteq> k"
  proof
    assume "p = k"
    then have "k \<in> set (rk_subkeys (linked_parent i k nb w pk))" "rs_keys s' k = Some (linked_parent i k nb w pk)"
      using e(1) by (simp_all add: linked_parent_def set_insert_at)
    then show False using subkeyD(1) [OF wf] by blast
  qed
  then have k: "rs_keys s' k = Some key'" "rk_name key' = Some n" "rk_parent key' = Some p" using e by (simp_all add: fresh_key_def)
  then show "get_parent k s' = (Some p, s')" by (simp add: get_parent_def)
  show "alive p s'" using alive_parent [OF wf k(1,3)] by blast
qed

lemma req_create_effect:
  assumes wf: "reg_wf casemap s" and p: "rs_keys s p = Some pk" "rk_name pk \<noteq> None" and f: "find_subkey casemap s pk n = (False, i)"
    and r: "req_create_key ok casemap rel options cls p n s = (r, s')"
  shows "\<exists>s1. keeps casemap s s1 \<and> (case r of None \<Rightarrow> not_created p pk s s1 \<and> s' = s1
    | Some k \<Rightarrow> created options n p i pk s k s1 \<and> s' = (if rel then touch_key p REG_NOTIFY_CHANGE_NAME s1 else s1))"
proof -
  obtain r1 s1 where c: "create_key_object ok casemap options cls p n s = (r1, s1)" by (meson surj_pair)
  note e = create_effect [OF wf p f c]
  show ?thesis
  proof (cases r1)
    case None
    then show ?thesis using e r c by (auto simp: req_create_key_def)
  next
    case (Some k)
    then have "created options n p i pk s k s1" "reg_wf casemap s1" using e by (simp_all add: keeps_def)
    from created_parent(1) [OF this(2,1)] have "r = Some k \<and> s' = (if rel then touch_key p REG_NOTIFY_CHANGE_NAME s1 else s1)"
      using r c Some by (cases rel) (auto simp: req_create_key_def)
    then show ?thesis using e Some by (intro exI [of _ s1]) simp
  qed
qed

lemma req_create_keeps:
  assumes wf: "reg_wf casemap s" and p: "rs_keys s p = Some pk" "rk_name pk \<noteq> None" and f: "\<not> fst (find_subkey casemap s pk n)"
  shows "keeps casemap s (snd (req_create_key ok casemap rel options cls p n s))"
proof -
  obtain r s' where r: "req_create_key ok casemap rel options cls p n s = (r, s')" by (meson surj_pair)
  obtain i where i: "find_subkey casemap s pk n = (False, i)" using f by (metis fst_conv surj_pair)
  obtain s1 where e: "keeps casemap s s1" "case r of None \<Rightarrow> not_created p pk s s1 \<and> s' = s1
    | Some k \<Rightarrow> created options n p i pk s k s1 \<and> s' = (if rel then touch_key p REG_NOTIFY_CHANGE_NAME s1 else s1)"
    using req_create_effect [OF wf p i r] by blast
  have wf1: "reg_wf casemap s1" using e(1) by (simp add: keeps_def)
  have "keeps casemap s1 s'"
  proof (cases "\<exists>k. r = Some k \<and> rel")
    case True
    then obtain k where "created options n p i pk s k s1" "s' = touch_key p REG_NOTIFY_CHANGE_NAME s1" using e(2) by auto
    then show ?thesis using keeps_quiet [OF wf1 touch_key_quiet [OF wf1 created_parent(2) [OF wf1]]] by blast
  next
    case False
    then have "s' = s1" using e(2) by (auto split: option.splits)
    then show ?thesis using wf1 by (simp add: keeps_def)
  qed
  then show ?thesis using keeps_trans [OF e(1)] r by simp
qed

section \<open>Notifications\<close>

lemma tree_of_notify [simp]: "tree_of (key\<lparr>rk_notify := ns\<rparr>) = tree_of key"
  by (simp add: tree_of_def)

lemma quiet_fired: "quiet s (s\<lparr>rs_fired := fs\<rparr>)"
  by (simp add: quiet_def same_tree_keys)

lemma key_close_handle_quiet: "rs_keys s k = Some key \<Longrightarrow> quiet s (key_close_handle process handle k s)"
  unfolding key_close_handle_def by (auto intro!: quiet_trans [OF quiet_fired quiet_upd] split: option.splits)

lemma set_registry_notification_quiet: "rs_keys s k = Some key \<Longrightarrow> quiet s (set_registry_notification ok process hkey event subtree fltr k s)"
proof -
  assume k: "rs_keys s k = Some key"
  let ?new = "\<lparr>nf_events = [], nf_subtree = subtree, nf_filter = fltr, nf_hkey = hkey, nf_process = process\<rparr>"
  obtain b s1 where r: "(case find_notify key process hkey of
       Some n \<Rightarrow> (True, s)
     | None \<Rightarrow> (case reg_alloc ok s of (b, s1) \<Rightarrow>
            if b then (True, upd_key k (\<lambda>key. key\<lparr>rk_notify := ?new # rk_notify key\<rparr>) s1) else (False, s1))) = (b, s1)" by (meson surj_pair)
  have q1: "quiet s s1"
  proof (cases "find_notify key process hkey")
    case None
    obtain b' s2 where a: "reg_alloc ok s = (b', s2)" by (meson surj_pair)
    have "quiet s2 (upd_key k (\<lambda>key. key\<lparr>rk_notify := ?new # rk_notify key\<rparr>) s2)" by (rule quiet_upd) simp
    then show ?thesis using r None a reg_alloc_quiet [OF a] quiet_trans by (auto split: if_splits)
  qed (use r in auto)
  obtain b' s2 where t: "try_realloc ok s1 = (b', s2)" by (meson surj_pair)
  have q2: "quiet s s2" using quiet_trans [OF q1] try_realloc_quiet [OF t] by blast
  let ?s3 = "upd_key k (\<lambda>key. key\<lparr>rk_notify := add_event process hkey event (rk_notify key)\<rparr>) (s2\<lparr>rs_fired := rs_fired s2 @ [Reset_Event event]\<rparr>)"
  have "quiet s2 ?s3" by (rule quiet_trans [OF quiet_fired quiet_upd]) simp
  then have q3: "quiet s (set_rerror e ?s3)" for e using quiet_trans [OF q2] quiet_trans [OF _ quiet_rerror] by blast
  have "set_registry_notification ok process hkey event subtree fltr k s =
      (if \<not> b then s1 else if \<not> b' then set_rerror STATUS_NO_MEMORY s2 else set_rerror STATUS_PENDING ?s3)"
    unfolding set_registry_notification_def k option.case r prod.case t ..
  then show ?thesis using q1 quiet_trans [OF q2 quiet_rerror] q3 by simp
qed

section \<open>Every request keeps the invariant\<close>

lemma get_hkey_obj_alive:
  assumes wf: "reg_wf casemap s" and h: "get_hkey_obj k s = Inr k"
  shows "\<exists>key. rs_keys s k = Some key \<and> rk_name key \<noteq> None"
proof -
  obtain key where k: "rs_keys s k = Some key" "\<not> has_flag KEY_DELETED key" using h by (auto simp: get_hkey_obj_def split: option.splits if_splits)
  then show ?thesis using key_wfD(7) [OF reg_wfD [OF wf k(1)]] by (auto simp: state_wf_def)
qed

lemma reg_step_keeps: "reg_step ok casemap absolute s s' \<Longrightarrow> reg_wf casemap s \<Longrightarrow> keeps casemap s s'"
proof (induction rule: reg_step.induct)
  case (step_create p s pk name rel options cls)
  then have "rk_name pk \<noteq> None" using get_hkey_obj_alive by fastforce
  then show ?case using req_create_keeps step_create by blast
next
  case (step_rename k s name)
  then show ?case using get_hkey_obj_alive rename_keeps by (metis alive_def)
next
  case (step_delete s k key recurse)
  then show ?case using delete_key_done [of casemap s k key] unfolding deletes_key_def by blast
next
  case (step_set k s name type data)
  then obtain key where "rs_keys s k = Some key" "rk_name key \<noteq> None" using get_hkey_obj_alive by blast
  then show ?case using set_value_correct step_set(2) unfolding set_done_def by (auto simp: value_frame_def)
next
  case (step_delete_value k s name)
  then obtain key where "rs_keys s k = Some key" "rk_name key \<noteq> None" using get_hkey_obj_alive by blast
  then show ?case using delete_value_correct step_delete_value(2) unfolding delete_value_done_def by (auto simp: value_frame_def)
next
  case (step_notify k s process hkey event subtree fltr)
  then show ?case using get_hkey_obj_alive set_registry_notification_quiet keeps_quiet by metis
next
  case (step_close s k key process handle)
  then show ?case using key_close_handle_quiet keeps_quiet by blast
next
  case (step_saved k s written)
  then have "alive k s" using get_hkey_obj_alive by (auto simp: alive_def)
  from make_clean_quiet [OF step_saved(2) this, of "Suc (rs_next s)"] have "quiet s (snd (save_branch written k s))"
    using get_hkey_obj_alive [OF step_saved(2,1)] by (auto simp: save_branch_def simp del: make_clean.simps)
  then show ?case by (rule keeps_quiet [OF step_saved(2)])
next
  case (step_time s t)
  then show ?case using reg_wf_next [of casemap s "s\<lparr>rs_time := t\<rparr>"] by (simp add: keeps_def)
qed

end
