(* ===== verification/Registry_Dirty.thy ===== *)
theory Registry_Dirty
  imports Registry_Create
begin

unbundle bit_operations_syntax

text \<open>
  The marks of unsaved changes.  Changes mark the key and its ancestors dirty, and a save starts from the marks; here is the invariant that
  makes the marks on the way down to every unsaved key complete, and how each operation keeps it.
\<close>

section \<open>The invariant\<close>

text \<open>What the marks depend on: the flags of a key, its parent, and whether it still has a name.\<close>

definition shape :: "rstate \<Rightarrow> nat \<Rightarrow> (u32 \<times> nat option \<times> bool) option" where
  "shape s k = map_option (\<lambda>key. (rk_flags key, rk_parent key, rk_name key = None)) (rs_keys s k)"

definition marked :: "u32 \<Rightarrow> nat \<Rightarrow> rstate \<Rightarrow> bool" where
  "marked f k s \<longleftrightarrow> (case shape s k of None \<Rightarrow> False | Some (flags, _) \<Rightarrow> flags AND f \<noteq> 0)"

definition forest :: "rstate \<Rightarrow> bool" where
  "forest s \<longleftrightarrow> (\<forall>k. shape s k \<noteq> None \<longrightarrow> k < rs_next s) \<and>
     (\<forall>k f p d. shape s k = Some (f, Some p, d) \<longrightarrow> p < k \<and> shape s p \<noteq> None \<and> \<not> d)"

text \<open>
  A volatile key is never dirty and all keys below it are volatile; the parent of a dirty key is dirty, except for the keys in \<open>X\<close>,
  whose ancestors are still to be marked.
\<close>

definition marks :: "nat set \<Rightarrow> rstate \<Rightarrow> bool" where
  "marks X s \<longleftrightarrow> forest s \<and> (\<forall>k. \<not> (marked KEY_VOLATILE k s \<and> marked KEY_DIRTY k s)) \<and>
     (\<forall>k f p d. shape s k = Some (f, Some p, d) \<longrightarrow>
        (marked KEY_VOLATILE p s \<longrightarrow> marked KEY_VOLATILE k s) \<and> (k \<notin> X \<and> marked KEY_DIRTY k s \<longrightarrow> marked KEY_DIRTY p s))"

lemma marked_key: "rs_keys s k = Some key \<Longrightarrow> marked f k s = has_flag f key"
  by (simp add: marked_def shape_def has_flag_def)

lemma marks_cong:
  assumes "\<And>k. shape s' k = shape s k" "rs_next s' = rs_next s"
  shows "marks X s' = marks X s"
  using assms by (simp add: marks_def forest_def marked_def)

lemma marked_cong: "shape s' k = shape s k \<Longrightarrow> marked f k s' = marked f k s"
  by (simp add: marked_def)

lemma marksD:
  assumes "marks X s" "rs_keys s k = Some key" "rk_parent key = Some p"
  shows "p < k" "\<exists>pk. rs_keys s p = Some pk" "rk_name key \<noteq> None" "marked KEY_VOLATILE p s \<Longrightarrow> marked KEY_VOLATILE k s"
    "k \<notin> X \<Longrightarrow> marked KEY_DIRTY k s \<Longrightarrow> marked KEY_DIRTY p s"
proof -
  have "shape s k = Some (rk_flags key, Some p, rk_name key = None)" using assms by (simp add: shape_def)
  note m = assms(1) [unfolded marks_def forest_def, THEN conjunct1, THEN conjunct2, rule_format, OF this]
    assms(1) [unfolded marks_def, THEN conjunct2, THEN conjunct2, rule_format, OF this]
  show "p < k" "\<exists>pk. rs_keys s p = Some pk" "rk_name key \<noteq> None" using m(1) by (auto simp: shape_def)
  show "marked KEY_VOLATILE p s \<Longrightarrow> marked KEY_VOLATILE k s" "k \<notin> X \<Longrightarrow> marked KEY_DIRTY k s \<Longrightarrow> marked KEY_DIRTY p s" using m(2) by blast+
qed

lemma marks_less: "marks X s \<Longrightarrow> rs_keys s k = Some key \<Longrightarrow> k < rs_next s"
  by (simp add: marks_def forest_def shape_def)

lemma marks_volatile: "marks X s \<Longrightarrow> marked KEY_VOLATILE k s \<Longrightarrow> \<not> marked KEY_DIRTY k s"
  by (simp add: marks_def)

lemma marksI:
  assumes "\<And>k key. rs_keys s k = Some key \<Longrightarrow> k < rs_next s \<and> \<not> (has_flag KEY_VOLATILE key \<and> has_flag KEY_DIRTY key)"
    "\<And>k key p. rs_keys s k = Some key \<Longrightarrow> rk_parent key = Some p \<Longrightarrow> p < k \<and> rk_name key \<noteq> None \<and> (\<exists>pk. rs_keys s p = Some pk \<and>
       (has_flag KEY_VOLATILE pk \<longrightarrow> has_flag KEY_VOLATILE key) \<and> (k \<notin> X \<and> has_flag KEY_DIRTY key \<longrightarrow> has_flag KEY_DIRTY pk))"
  shows "marks X s"
  unfolding marks_def forest_def
proof (intro conjI allI impI)
  fix k f p d
  assume "shape s k = Some (f, Some p, d)"
  then obtain key where k: "rs_keys s k = Some key" "rk_parent key = Some p" "d = (rk_name key = None)" by (auto simp: shape_def)
  then obtain pk where p: "rs_keys s p = Some pk" "has_flag KEY_VOLATILE pk \<longrightarrow> has_flag KEY_VOLATILE key"
    "k \<notin> X \<and> has_flag KEY_DIRTY key \<longrightarrow> has_flag KEY_DIRTY pk" using assms(2) by blast
  show "p < k" "\<not> d" using assms(2) [OF k(1,2)] k(3) by auto
  show "shape s p \<noteq> None" using p(1) by (simp add: shape_def)
  show "marked KEY_VOLATILE p s \<Longrightarrow> marked KEY_VOLATILE k s" "k \<notin> X \<and> marked KEY_DIRTY k s \<Longrightarrow> marked KEY_DIRTY p s"
    using p marked_key [OF k(1)] marked_key [OF p(1)] by auto
next
  fix k
  show "shape s k \<noteq> None \<Longrightarrow> k < rs_next s" using assms(1) [of k] by (auto simp: shape_def)
  show "\<not> (marked KEY_VOLATILE k s \<and> marked KEY_DIRTY k s)" using assms(1) [of k] marked_key [of s k] by (cases "rs_keys s k") (auto simp: marked_def shape_def)
qed

section \<open>Marking a key and its ancestors\<close>

lemma flag_bits [simp]: "has_flag KEY_DIRTY (set_flag KEY_DIRTY key)" "has_flag KEY_VOLATILE (set_flag KEY_DIRTY key) = has_flag KEY_VOLATILE key"
  by (auto simp: has_flag_def set_flag_def bit.conj_disj_distrib bit.conj_disj_distrib2 KEY_DIRTY_def KEY_VOLATILE_def)

lemma set_flag_links [simp]: "rk_parent (set_flag f key) = rk_parent key" "rk_name (set_flag f key) = rk_name key"
  by (simp_all add: set_flag_def)

lemma has_either [simp]: "has_flag (f OR g) key \<longleftrightarrow> has_flag f key \<or> has_flag g key"
  by (simp add: has_flag_def bit.conj_disj_distrib or_eq_0_iff)

lemma mark_key:
  assumes m: "marks X s" and k: "rs_keys s k = Some key" "\<not> has_flag KEY_VOLATILE key"
  shows "marks (insert k X) (upd_key k (set_flag KEY_DIRTY) s)"
proof (rule marksI)
  let ?s = "upd_key k (set_flag KEY_DIRTY) s"
  fix j jk
  assume "rs_keys ?s j = Some jk"
  then obtain jk0 where j: "rs_keys s j = Some jk0" "jk = (if j = k then set_flag KEY_DIRTY jk0 else jk0)" by (auto simp: upd_key_def split: if_splits)
  show "j < rs_next ?s \<and> \<not> (has_flag KEY_VOLATILE jk \<and> has_flag KEY_DIRTY jk)"
    using marks_less [OF m j(1)] marks_volatile [OF m, of j] marked_key [OF j(1)] j k by auto
  fix p
  assume "rk_parent jk = Some p"
  then have p: "rk_parent jk0 = Some p" using j(2) by (simp split: if_splits)
  note d = marksD [OF m j(1) p]
  obtain pk where pk: "rs_keys s p = Some pk" using d(2) by blast
  have "(has_flag KEY_VOLATILE pk \<longrightarrow> has_flag KEY_VOLATILE jk0) \<and> (j \<notin> X \<and> has_flag KEY_DIRTY jk0 \<longrightarrow> has_flag KEY_DIRTY pk)"
    using d(4,5) marked_key [OF j(1)] marked_key [OF pk] by auto
  then show "p < j \<and> rk_name jk \<noteq> None \<and> (\<exists>pk. rs_keys ?s p = Some pk \<and>
       (has_flag KEY_VOLATILE pk \<longrightarrow> has_flag KEY_VOLATILE jk) \<and> (j \<notin> insert k X \<and> has_flag KEY_DIRTY jk \<longrightarrow> has_flag KEY_DIRTY pk))"
    using d(1,3) j(2) pk by (auto simp: upd_key_def)
qed

lemma marks_close:
  assumes m: "marks (insert k X) s" and k: "\<And>key p. rs_keys s k = Some key \<Longrightarrow> rk_parent key = Some p \<Longrightarrow> marked KEY_DIRTY k s \<Longrightarrow> marked KEY_DIRTY p s \<or> marked KEY_VOLATILE p s"
  shows "marks X s"
proof -
  have "marked KEY_DIRTY p s" if s: "shape s j = Some (f, Some p, d)" "j \<notin> X" "marked KEY_DIRTY j s" for j f p d
  proof -
    obtain jk where j: "rs_keys s j = Some jk" "rk_parent jk = Some p" using s(1) by (auto simp: shape_def)
    show ?thesis using marksD(4,5) [OF m j] k [of jk p] j s(2,3) marks_volatile [OF m] by blast
  qed
  then show ?thesis using m unfolding marks_def by blast
qed

lemma shape_upd: "(\<And>key. rs_keys s k = Some key \<Longrightarrow> rk_flags (f key) = rk_flags key \<and> rk_parent (f key) = rk_parent key \<and> rk_name (f key) = rk_name key) \<Longrightarrow>
    shape (upd_key k f s) j = shape s j"
  by (cases "rs_keys s k") (auto simp: shape_def upd_key_def)

lemma shape_keys: "rs_keys s' = rs_keys s \<Longrightarrow> shape s' = shape s"
  by (simp add: shape_def fun_eq_iff)

lemma shape_same [simp]: "shape (crash s) = shape s" "shape (set_rerror e s) = shape s" "shape (s\<lparr>rs_fired := fs\<rparr>) = shape s" "shape (s\<lparr>rs_time := t\<rparr>) = shape s"
  by (simp_all add: shape_def fun_eq_iff crash_def)

lemma crash_keys [simp]: "rs_keys (crash s) = rs_keys s" "rs_next (crash s) = rs_next s"
  by (simp_all add: crash_def)

lemma make_dirty_marks:
  "marks X s \<Longrightarrow> k < fuel \<Longrightarrow> \<forall>x\<in>X. k < x \<Longrightarrow>
    marks X (make_dirty fuel k s) \<and> (rs_keys s k \<noteq> None \<longrightarrow> marked KEY_DIRTY k (make_dirty fuel k s) \<or> marked KEY_VOLATILE k (make_dirty fuel k s)) \<and>
    (\<forall>j>k. rs_keys (make_dirty fuel k s) j = rs_keys s j) \<and> rs_next (make_dirty fuel k s) = rs_next s"
proof (induction fuel arbitrary: X k s)
  case (Suc fuel)
  have crash: "marks X (crash t) = marks X t" for X t by (rule marks_cong) simp_all
  show ?case
  proof (cases "rs_keys s k")
    case None
    then show ?thesis using Suc.prems(1) crash by simp
  next
    case (Some key)
    show ?thesis
    proof (cases "has_flag KEY_DIRTY key \<or> has_flag KEY_VOLATILE key")
      case True
      then have "make_dirty (Suc fuel) k s = s" using Some by simp
      then show ?thesis using True Suc.prems(1) marked_key [OF Some] by auto
    next
      case False
      let ?s1 = "upd_key k (set_flag KEY_DIRTY) s"
      have m1: "marks (insert k X) ?s1" by (rule mark_key [OF Suc.prems(1) Some]) (use False in simp)
      have k1: "rs_keys ?s1 k = Some (set_flag KEY_DIRTY key)" using Some by simp
      have d1: "marked KEY_DIRTY k ?s1" using marked_key [OF k1] by simp
      show ?thesis
      proof (cases "rk_parent key")
        case None
        have "make_dirty (Suc fuel) k s = ?s1 \<or> make_dirty (Suc fuel) k s = crash ?s1" using Some False None by (simp add: get_parent_def)
        moreover have "marks X ?s1" by (rule marks_close [OF m1]) (use k1 None in \<open>auto simp: Some\<close>)
        moreover have "marked KEY_DIRTY k (crash ?s1)" using d1 by (simp add: marked_def)
        ultimately show ?thesis using d1 crash by (auto simp: upd_key_def)
      next
        case (Some p)
        note D = marksD [OF Suc.prems(1) \<open>rs_keys s k = Some key\<close> Some]
        let ?s2 = "make_dirty fuel p ?s1"
        have e: "make_dirty (Suc fuel) k s = ?s2" using \<open>rs_keys s k = Some key\<close> False Some D(3) k1 by (auto simp: get_parent_def)
        have "p < fuel" "\<forall>x\<in>insert k X. p < x" using Suc.prems(2,3) D(1) by auto
        note IH = Suc.IH [OF m1 this]
        have k2: "rs_keys ?s2 k = rs_keys ?s1 k" using IH D(1) by blast
        have p1: "rs_keys ?s1 p \<noteq> None" using D(1,2) by auto
        have "marks X ?s2"
        proof (rule marks_close)
          show "marks (insert k X) ?s2" using IH by blast
          show "marked KEY_DIRTY q ?s2 \<or> marked KEY_VOLATILE q ?s2" if "rs_keys ?s2 k = Some key'" "rk_parent key' = Some q" for key' q
          proof -
            have "key' = set_flag KEY_DIRTY key" using that(1) unfolding k2 k1 by simp
            then have "q = p" using that(2) Some by simp
            then show ?thesis using IH p1 by blast
          qed
        qed
        moreover have "marked KEY_DIRTY k ?s2" using d1 k2 by (simp add: marked_def shape_def)
        moreover have "\<forall>j>k. rs_keys ?s2 j = rs_keys s j" using IH D(1) by (auto simp: upd_key_def)
        ultimately show ?thesis unfolding e using IH by simp
      qed
    qed
  qed
qed simp

lemma check_notify_shape: "shape (check_notify change b k s) = shape s" "rs_next (check_notify change b k s) = rs_next s"
proof -
  show "shape (check_notify change b k s) = shape s"
    unfolding check_notify_def by (cases "rs_keys s k") (auto simp: Let_def fun_eq_iff shape_upd)
  show "rs_next (check_notify change b k s) = rs_next s" unfolding check_notify_def by (cases "rs_keys s k") (auto simp: Let_def)
qed

lemma get_parent_keys: "rs_keys (snd (get_parent k s)) = rs_keys s \<and> rs_next (snd (get_parent k s)) = rs_next s"
  by (auto simp: get_parent_def split: option.splits)

lemma notify_parents_shape: "shape (notify_parents fuel change k s) = shape s \<and> rs_next (notify_parents fuel change k s) = rs_next s"
proof (induction fuel arbitrary: k s)
  case (Suc fuel)
  obtain q s1 where g: "get_parent k s = (q, s1)" by (meson surj_pair)
  have "shape s1 = shape s" "rs_next s1 = rs_next s" using get_parent_keys [of k s] g by (auto intro: shape_keys)
  then show ?case using Suc g check_notify_shape by (cases q) auto
qed simp

lemma touch_marks:
  assumes m: "marks X s" and k: "k \<le> rs_next s" "\<forall>x\<in>X. k < x"
  shows "marks X (touch_key k change s)" "rs_next (touch_key k change s) = rs_next s"
    "rs_keys s k \<noteq> None \<Longrightarrow> marked KEY_DIRTY k (touch_key k change s) \<or> marked KEY_VOLATILE k (touch_key k change s)"
proof -
  let ?s1 = "upd_key k (\<lambda>key. key\<lparr>rk_modif := rs_time s\<rparr>) s"
  let ?s2 = "make_dirty (Suc (rs_next s)) k ?s1" let ?s3 = "check_notify change True k ?s2"
  have "shape ?s1 j = shape s j" for j by (rule shape_upd) simp
  then have "marks X ?s1" using marks_cong [of ?s1 s X] m by simp
  note d = make_dirty_marks [OF this, of k "Suc (rs_next s)"]
  have t: "touch_key k change s = notify_parents (Suc (rs_next s)) change k ?s3" by (simp only: touch_key_def Let_def)
  have sh: "shape (touch_key k change s) = shape ?s2" "rs_next (touch_key k change s) = rs_next ?s2"
    unfolding t by (simp_all only: notify_parents_shape check_notify_shape)
  show "marks X (touch_key k change s)" using marks_cong [of "touch_key k change s" ?s2 X] sh d k by simp
  show "rs_next (touch_key k change s) = rs_next s" using sh(2) d k by simp
  show "marked KEY_DIRTY k (touch_key k change s) \<or> marked KEY_VOLATILE k (touch_key k change s)" if "rs_keys s k \<noteq> None"
    using that d k sh(1) by (simp add: marked_def)
qed

section \<open>The operations\<close>

definition same_links :: "rstate \<Rightarrow> rstate \<Rightarrow> bool" where
  "same_links s s' \<longleftrightarrow> shape s' = shape s \<and> rs_next s' = rs_next s"

lemma same_links_refl [simp]: "same_links s s"
  by (simp add: same_links_def)

lemma same_links_trans: "same_links s s' \<Longrightarrow> same_links s' s'' \<Longrightarrow> same_links s s''"
  by (simp add: same_links_def)

lemma same_links_marks: "same_links s s' \<Longrightarrow> marks X s \<Longrightarrow> marks X s'"
  using marks_cong [of s' s X] by (simp add: same_links_def)

lemma same_links_upd:
  "(\<And>key. rs_keys s k = Some key \<Longrightarrow> rk_flags (f key) = rk_flags key \<and> rk_parent (f key) = rk_parent key \<and> rk_name (f key) = rk_name key) \<Longrightarrow>
    same_links s (upd_key k f s)"
  by (simp add: same_links_def fun_eq_iff shape_upd)

lemma same_links_rerror [simp]: "same_links s (set_rerror e s)"
  by (simp add: same_links_def)

lemma same_links_alloc: "reg_alloc ok s = (b, s') \<Longrightarrow> same_links s s'" "try_realloc ok s = (b, s') \<Longrightarrow> same_links s s'"
  by (auto simp: reg_alloc_def try_realloc_def same_links_def shape_def fun_eq_iff)

lemma touch_same:
  assumes "marks X s" "same_links s s'" "k \<le> rs_next s" "\<forall>x\<in>X. k < x"
  shows "marks X (touch_key k change s')"
  by (rule touch_marks(1)) (use assms same_links_marks in \<open>auto simp: same_links_def\<close>)

lemma insert_value_shape: "insert_value ok k key i v s = (b, s') \<Longrightarrow> same_links s s'"
proof -
  assume r: "insert_value ok k key i v s = (b, s')"
  have u: "shape (upd_key k (\<lambda>key. key\<lparr>rk_values := f key\<rparr>) t) = shape t" "shape (upd_key k (\<lambda>key. key\<lparr>rk_nb_values := g key\<rparr>) t) = shape t" for f g t
    by (rule ext, rule shape_upd, simp)+
  show ?thesis using r
    by (auto simp: insert_value_def grow_values_def Let_def split: if_splits prod.splits
      dest!: same_links_alloc simp: same_links_def u)
qed

lemma set_value_marks: "marks {} s \<Longrightarrow> marks {} (set_value ok casemap k name type data s)"
proof -
  assume m: "marks {} s"
  show ?thesis
  proof (cases "rs_keys s k")
    case None
    then show ?thesis using same_links_marks [OF _ m] by (simp add: set_value_def same_links_def)
  next
    case (Some key)
    have k: "k \<le> rs_next s" using marks_less [OF m Some] by simp
    note t = touch_same [OF m _ k]
    obtain b i where f: "find_value casemap key name = (b, i)" by (meson surj_pair)
    let ?v = "\<lparr>kv_name = name, kv_type = type, kv_data = data\<rparr>"
    obtain b1 s1 where a: "(if data \<noteq> [] then reg_alloc ok s else (True, s)) = (b1, s1)" by (meson surj_pair)
    have s1: "same_links s s1" using a same_links_alloc(1) by (auto split: if_splits)
    obtain b2 s2 where i: "insert_value ok k key i ?v s1 = (b2, s2)" by (meson surj_pair)
    have s2: "same_links s s2" by (rule same_links_trans [OF s1 insert_value_shape [OF i]])
    let ?s3 = "upd_key k (\<lambda>key. key\<lparr>rk_values := (rk_values key)[i := (rk_values key ! i)\<lparr>kv_type := type, kv_data := data\<rparr>]\<rparr>) s1"
    have s3: "same_links s ?s3" by (rule same_links_trans [OF s1 same_links_upd]) simp
    have "set_value ok casemap k name type data s \<in> {s, s1, s2, touch_key k REG_NOTIFY_CHANGE_LAST_SET s2, touch_key k REG_NOTIFY_CHANGE_LAST_SET ?s3} \<union>
        range (\<lambda>e. set_rerror e s)"
      using Some f a i unfolding set_value_def by (auto split: if_splits)
    then show ?thesis using m s1 s2 s3 t same_links_marks [OF _ m] by auto
  qed
qed

lemma delete_value_marks: "marks {} s \<Longrightarrow> marks {} (delete_value ok casemap k name s)"
proof -
  assume m: "marks {} s"
  show ?thesis
  proof (cases "rs_keys s k")
    case None
    then show ?thesis using same_links_marks [OF _ m] by (simp add: delete_value_def same_links_def)
  next
    case (Some key)
    obtain b i where f: "find_value casemap key name = (b, i)" by (meson surj_pair)
    let ?s1 = "touch_key k REG_NOTIFY_CHANGE_LAST_SET (upd_key k (\<lambda>key. key\<lparr>rk_values := remove_at i (rk_values key)\<rparr>) s)"
    have m1: "marks {} ?s1"
      by (rule touch_same [OF m same_links_upd]) (use marks_less [OF m Some] in simp_all)
    obtain b2 s2 where a: "try_realloc ok ?s1 = (b2, s2)" by (meson surj_pair)
    have m2: "marks {} s2" by (rule same_links_marks [OF same_links_alloc(2) [OF a] m1])
    have m3: "marks {} (upd_key k (\<lambda>key. key\<lparr>rk_nb_values := shrunk MIN_VALUES (rk_nb_values key)\<rparr>) s2)"
      by (rule same_links_marks [OF same_links_upd m2]) simp
    have me: "marks {} (set_rerror e s)" for e by (rule same_links_marks [OF same_links_rerror m])
    show ?thesis unfolding delete_value_def Some option.case f prod.case Let_def a using me m1 m2 m3 by simp
  qed
qed

lemma key_close_handle_shape: "same_links s (key_close_handle process handle k s)"
proof -
  have u: "shape (upd_key k (\<lambda>key. key\<lparr>rk_notify := f key\<rparr>) t) = shape t" for f t by (rule ext, rule shape_upd) simp
  show ?thesis by (simp add: key_close_handle_def same_links_def u split: option.splits)
qed

lemma set_registry_notification_shape: "same_links s (set_registry_notification ok process hkey event subtree fltr k s)"
proof -
  have u: "shape (upd_key k (\<lambda>key. key\<lparr>rk_notify := f key\<rparr>) t) = shape t" for f t by (rule ext, rule shape_upd) simp
  have a: "shape (snd (reg_alloc ok t)) = shape t" "rs_next (snd (reg_alloc ok t)) = rs_next t"
    "shape (snd (try_realloc ok t)) = shape t" "rs_next (snd (try_realloc ok t)) = rs_next t" for t
    using same_links_alloc [of ok t] by (metis same_links_def surjective_pairing)+
  show ?thesis
    by (cases "rs_keys s k") (auto simp: set_registry_notification_def same_links_def u a case_prod_beta split: option.splits)
qed

lemma rename_marks: "marks {} s \<Longrightarrow> marks {} (rename_key ok casemap k name s)"
proof -
  assume m: "marks {} s"
  have sh: "shape (upd_key j (\<lambda>key. key\<lparr>rk_subkeys := f key\<rparr>) t) = shape t" for f j t by (rule ext, rule shape_upd) simp
  obtain q s0 where g: "get_parent k s = (q, s0)" by (meson surj_pair)
  have s0: "same_links s s0" "rs_keys s0 = rs_keys s" using get_parent_keys [of k s] g shape_keys [of s0 s] by (auto simp: same_links_def)
  have m0: "marks {} (set_rerror e s0)" "marks {} (crash s0)" for e
    using same_links_marks [OF same_links_trans [OF s0(1)] m] by (auto simp: same_links_def)
  show ?thesis
  proof (cases q)
    case None
    then show ?thesis using g m0 by (simp add: rename_key_def Let_def)
  next
    case (Some p)
    obtain key n where k: "rs_keys s k = Some key" "rk_name key = Some n" using g Some by (auto simp: get_parent_def split: option.splits if_splits)
    obtain b1 s1 where a: "reg_alloc ok s0 = (b1, s1)" by (meson surj_pair)
    have s1: "same_links s s1" by (rule same_links_trans [OF s0(1) same_links_alloc(1) [OF a]])
    have m1: "marks {} s1" "marks {} (crash s1)" using same_links_marks [OF s1 m] same_links_marks [OF _ same_links_marks [OF s1 m]] by (auto simp: same_links_def)
    let ?t = "\<lambda>f. upd_key k (\<lambda>key. key\<lparr>rk_name := Some name\<rparr>) (upd_key p (\<lambda>key. key\<lparr>rk_subkeys := f key\<rparr>) s1)"
    have named: "rk_name jk \<noteq> None" if "rs_keys s1 k = Some jk" for jk
    proof -
      have "shape s1 k = shape s k" using s1 by (simp add: same_links_def)
      then show ?thesis using that k by (simp add: shape_def)
    qed
    have "shape (?t f) j = shape s1 j" for f j
      using named sh [of p f s1] by (cases "j = k"; cases "rs_keys s1 k") (auto simp: shape_def upd_key_def fun_eq_iff split: if_splits)
    then have "same_links s (?t f)" for f using s1 by (auto simp: same_links_def fun_eq_iff)
    then have m2: "marks {} (touch_key k c (?t f))" for c f by (rule touch_same [OF m]) (use marks_less [OF m k(1)] in auto)
    show ?thesis unfolding rename_key_def g prod.case Let_def Some option.case
      using m0 m1 m2 a by (auto split: option.splits prod.splits)
  qed
qed

section \<open>Deleting\<close>

lemma key_unlink_name_shape: "same_links s (key_unlink_name ok k p s)"
proof -
  have u: "shape (upd_key p (\<lambda>key. key\<lparr>rk_subkeys := f key, rk_wow6432node := g key\<rparr>) t) = shape t"
    "shape (upd_key p (\<lambda>key. key\<lparr>rk_nb_subkeys := h key\<rparr>) t) = shape t" for f g h t by (rule ext, rule shape_upd, simp)+
  have a: "shape (snd (try_realloc ok t)) = shape t" "rs_next (snd (try_realloc ok t)) = rs_next t" for t
    using same_links_alloc [of ok t] by (metis same_links_def surjective_pairing)+
  show ?thesis by (cases "rs_keys s p") (auto simp: key_unlink_name_def same_links_def Let_def u a case_prod_beta)
qed

text \<open>A key that loses its name and its parent does not harm the marks.\<close>

lemma marks_cut:
  assumes m: "marks {} s" and k: "rs_keys s k = Some key" and s': "shape s' = (shape s)(k \<mapsto> (f, None, d))" "rs_next s' = rs_next s"
    and f: "f AND KEY_DIRTY = rk_flags key AND KEY_DIRTY" "f AND KEY_VOLATILE = rk_flags key AND KEY_VOLATILE"
  shows "marks {} s'"
proof -
  have mk: "marked KEY_DIRTY j s' = marked KEY_DIRTY j s" "marked KEY_VOLATILE j s' = marked KEY_VOLATILE j s" for j
    using f k by (auto simp: marked_def s'(1) shape_def)
  have ex: "shape s' j = None \<longleftrightarrow> shape s j = None" for j using k by (simp add: s'(1) shape_def)
  have sh: "shape s j = Some (g, Some p, e)" if "shape s' j = Some (g, Some p, e)" for j g p e using that by (simp add: s'(1) split: if_splits)
  note M = m [unfolded marks_def forest_def]
  show ?thesis unfolding marks_def forest_def mk ex s'(2)
    by (intro conjI allI impI) (use M sh in blast)+
qed

lemma unlink_marks: "marks {} s \<Longrightarrow> marks {} (unlink_named_object ok k (upd_key k (set_flag KEY_DELETED) s))"
proof -
  assume m: "marks {} s"
  let ?s1 = "upd_key k (set_flag KEY_DELETED) s"
  show ?thesis
  proof (cases "rs_keys s k")
    case None
    then have "same_links s (unlink_named_object ok k ?s1)" by (simp add: unlink_named_object_def same_links_def upd_key_def shape_def fun_eq_iff)
    then show ?thesis by (rule same_links_marks [OF _ m])
  next
    case (Some key)
    let ?f = "rk_flags key OR KEY_DELETED"
    let ?s2 = "upd_key k (\<lambda>key. key\<lparr>rk_name := None, rk_parent := None\<rparr>) ?s1"
    have f: "?f AND KEY_DIRTY = rk_flags key AND KEY_DIRTY" "?f AND KEY_VOLATILE = rk_flags key AND KEY_VOLATILE"
      by (simp_all add: bit.conj_disj_distrib2 KEY_DELETED_def KEY_DIRTY_def KEY_VOLATILE_def)
    note cut = marks_cut [OF m Some _ _ f]
    have k1: "rs_keys ?s1 k = Some (set_flag KEY_DELETED key)" using Some by simp
    show ?thesis
    proof (cases "rk_name key")
      case None
      then have p: "rk_parent key = None" using marksD(3) [OF m Some] by (cases "rk_parent key") auto
      have u: "unlink_named_object ok k ?s1 = ?s1" unfolding unlink_named_object_def k1 option.case using None by simp
      show ?thesis unfolding u
        by (rule cut) (use Some p None in \<open>auto simp: shape_def fun_eq_iff upd_key_def set_flag_def\<close>)
    next
      case n: (Some n)
      have m2: "marks {} ?s2"
        by (rule cut) (use Some in \<open>auto simp: shape_def fun_eq_iff upd_key_def set_flag_def\<close>)
      have u: "unlink_named_object ok k ?s1 = (case rk_parent key of None \<Rightarrow> ?s2 | Some p \<Rightarrow> key_unlink_name ok k p ?s2)"
        unfolding unlink_named_object_def k1 option.case using n by (simp add: Let_def)
      show ?thesis unfolding u using m2 same_links_marks [OF key_unlink_name_shape m2] by (cases "rk_parent key") simp_all
    qed
  qed
qed

lemma rs_next_unlink: "rs_next (unlink_named_object ok k s) = rs_next s"
  using key_unlink_name_shape by (simp add: unlink_named_object_def same_links_def Let_def split: option.splits)

lemma finish_marks:
  assumes "marks {} s" "p \<le> rs_next s"
  shows "marks {} (touch_key p change (unlink_named_object ok k (upd_key k (set_flag KEY_DELETED) s)))"
    "rs_next (touch_key p change (unlink_named_object ok k (upd_key k (set_flag KEY_DELETED) s))) = rs_next s"
  using touch_marks [OF unlink_marks [OF assms(1), of ok k], of p change] assms(2) rs_next_unlink [of ok k "upd_key k (set_flag KEY_DELETED) s"] by simp_all

lemma delete_marks:
  "marks {} s \<Longrightarrow> marks {} (snd (delete_key ok fuel k recurse s)) \<and> rs_next (snd (delete_key ok fuel k recurse s)) = rs_next s"
  "marks {} s \<Longrightarrow> marks {} (snd (delete_subkeys ok fuel k s)) \<and> rs_next (snd (delete_subkeys ok fuel k s)) = rs_next s"
proof (induction ok fuel k recurse s and ok fuel k s rule: delete_key_delete_subkeys.induct)
  case (2 ok fuel k recurse s)
  have same: "marks {} (set_rerror e s)" "marks {} (crash s)" "marks {} (set_rerror e (crash s))" for e
    using same_links_marks [OF _ 2(2), of "set_rerror e s"] same_links_marks [OF _ 2(2), of "crash s"] same_links_marks [OF _ 2(2), of "set_rerror e (crash s)"]
    by (simp_all add: same_links_def)
  show ?case
  proof (cases "rs_keys s k")
    case None
    then show ?thesis using same by simp
  next
    case (Some key)
    show ?thesis
    proof (cases "\<not> has_flag KEY_DELETED key \<and> (\<exists>p. get_parent k s = (Some p, s)) \<and> \<not> has_flag KEY_PREDEF key")
      case False
      have "get_parent k s = (None, crash s) \<or> get_parent k s = (None, s) \<or> (\<exists>p. get_parent k s = (Some p, s))"
        using Some by (cases "rk_parent key") (auto simp: get_parent_def)
      then show ?thesis using False Some same 2(2) by (auto split: option.splits)
    next
      case True
      then obtain p where g: "get_parent k s = (Some p, s)" by blast
      then have p: "rk_parent key = Some p" using Some by (auto simp: get_parent_def split: if_splits)
      have pn: "p \<le> rs_next s" using marksD(1) [OF 2(2) Some p] marks_less [OF 2(2) Some] by simp
      obtain b s2 where r: "(if recurse then delete_subkeys ok fuel k s else if rk_subkeys key \<noteq> [] then (False, set_rerror STATUS_ACCESS_DENIED s) else (True, s)) = (b, s2)"
        by (meson surj_pair)
      have m2: "marks {} s2 \<and> rs_next s2 = rs_next s"
      proof (cases recurse)
        case t: True
        then show ?thesis using 2(1) [OF Some _ _ _ _ t, of "Some p" s p] 2(2) True g r by simp
      next
        case False
        then show ?thesis using r same 2(2) by (auto split: if_splits)
      qed
      have e: "snd (delete_key ok (Suc fuel) k recurse s) =
          (if b then touch_key p REG_NOTIFY_CHANGE_NAME (unlink_named_object ok k (upd_key k (set_flag KEY_DELETED) s2)) else s2)"
        using Some True g r by simp
      show ?thesis unfolding e using m2 finish_marks [of s2 p] pn by simp
    qed
  qed
next
  case (4 ok fuel k s)
  show ?case
  proof (cases "rs_keys s k")
    case None
    then show ?thesis using same_links_marks [OF _ 4(3), of "crash s"] by (simp add: same_links_def)
  next
    case (Some key)
    obtain b s1 where r: "delete_key ok fuel (last (rk_subkeys key)) True s = (b, s1)" by (meson surj_pair)
    show ?thesis
    proof (cases "rk_subkeys key = []")
      case True
      then show ?thesis using Some 4(3) by simp
    next
      case False
      have "marks {} s1 \<and> rs_next s1 = rs_next s" using 4(1) [OF Some False 4(3)] r by simp
      moreover have "b \<Longrightarrow> marks {} s1 \<Longrightarrow> marks {} (snd (delete_subkeys ok fuel k s1)) \<and> rs_next (snd (delete_subkeys ok fuel k s1)) = rs_next s1"
        using 4(2) [OF Some False r [symmetric]] by simp
      ultimately show ?thesis using Some False r by simp
    qed
  qed
qed (auto intro: same_links_marks simp: same_links_def)

section \<open>Creating\<close>

lemma marks_next:
  assumes m: "marks X s" and s': "shape s' = shape s" "rs_next s \<le> rs_next s'"
  shows "marks X s'"
  using m s'(2) unfolding marks_def forest_def marked_def s'(1) by (meson order_less_le_trans)

lemma marks_new:
  assumes m: "marks {} s" and k: "k = rs_next s" and p: "shape s p \<noteq> None"
    and s': "shape s' = (shape s)(k \<mapsto> (f, Some p, False))" "rs_next s' = Suc k"
    and f: "f AND KEY_VOLATILE = 0 \<or> f AND KEY_DIRTY = 0" "marked KEY_VOLATILE p s \<Longrightarrow> f AND KEY_VOLATILE \<noteq> 0"
  shows "marks {k} s'"
proof -
  have new: "shape s k = None" using m k unfolding marks_def forest_def by (metis less_irrefl)
  have mk: "marked g j s' = (if j = k then f AND g \<noteq> 0 else marked g j s)" for g j by (simp add: marked_def s'(1))
  have pk: "p < k" using m p k unfolding marks_def forest_def by blast
  have sh: "j = k \<and> q = p \<and> e = False \<or> j \<noteq> k \<and> q \<noteq> k \<and> shape s j = Some (g, Some q, e)" if "shape s' j = Some (g, Some q, e)" for j g q e
  proof (cases "j = k")
    case False
    then have "shape s j = Some (g, Some q, e)" using that by (simp add: s'(1))
    then show ?thesis using False m new unfolding marks_def forest_def by blast
  qed (use that in \<open>simp add: s'(1)\<close>)
  note M = m [unfolded marks_def forest_def]
  show ?thesis unfolding marks_def forest_def s'(2)
  proof (intro conjI allI impI)
    fix j
    show "shape s' j \<noteq> None \<Longrightarrow> j < Suc k" using M k by (cases "j = k") (auto simp: s'(1) less_Suc_eq)
    show "\<not> (marked KEY_VOLATILE j s' \<and> marked KEY_DIRTY j s')" using M f(1) unfolding mk by auto
    fix g q e
    assume j: "shape s' j = Some (g, Some q, e)"
    show "q < j" "\<not> e" using sh [OF j] M pk by blast+
    show "shape s' q \<noteq> None" using sh [OF j] M p pk by (auto simp: s'(1))
    show "marked KEY_VOLATILE q s' \<Longrightarrow> marked KEY_VOLATILE j s'" using sh [OF j] M f(2) pk unfolding mk by (auto split: if_splits)
    show "marked KEY_DIRTY q s'" if d: "j \<notin> {k} \<and> marked KEY_DIRTY j s'"
    proof -
      have "q \<noteq> k" "shape s j = Some (g, Some q, e)" "marked KEY_DIRTY j s" using sh [OF j] d by (auto simp: mk)
      moreover from this(2) obtain jk where "rs_keys s j = Some jk" "rk_parent jk = Some q" by (auto simp: shape_def)
      ultimately show ?thesis using marksD(5) [OF m] by (simp add: mk)
    qed
  qed
qed

lemma init_flags_marks: "init_flags options AND KEY_VOLATILE = 0 \<or> init_flags options AND KEY_DIRTY = 0"
  "init_flags options AND KEY_VOLATILE = 0 \<longleftrightarrow> options AND REG_OPTION_VOLATILE = 0"
  by (auto simp: init_flags_def KEY_VOLATILE_def KEY_DIRTY_def KEY_SYMLINK_def)

lemma req_create_marks:
  assumes wf: "reg_wf casemap s" and p: "rs_keys s p = Some pk" "rk_name pk \<noteq> None" and f: "\<not> fst (find_subkey casemap s pk n)" and m: "marks {} s"
  shows "marks {} (snd (req_create_key ok casemap True options cls p n s))"
proof -
  obtain r s' where r: "req_create_key ok casemap True options cls p n s = (r, s')" by (meson surj_pair)
  obtain i where i: "find_subkey casemap s pk n = (False, i)" using f by (metis fst_conv surj_pair)
  obtain s1 where e: "keeps casemap s s1" "case r of None \<Rightarrow> not_created p pk s s1 \<and> s' = s1
    | Some k \<Rightarrow> created options n p i pk s k s1 \<and> s' = touch_key p REG_NOTIFY_CHANGE_NAME s1"
    using req_create_effect [OF wf p i r] unfolding if_True by blast
  have "marks {} s'"
  proof (cases r)
    case None
    then obtain nb w where k1: "rs_keys s1 = (rs_keys s)(p \<mapsto> pk\<lparr>rk_nb_subkeys := nb, rk_wow6432node := w\<rparr>)" "rs_next s \<le> rs_next s1" "s' = s1"
      using e(2) by (auto simp: not_created_def)
    have "shape s1 = shape s" using p(1) by (auto simp: shape_def fun_eq_iff k1(1))
    then show ?thesis using marks_next [OF m _ k1(2)] k1(3) by blast
  next
    case (Some k)
    then have c: "created options n p i pk s k s1" and t: "s' = touch_key p REG_NOTIFY_CHANGE_NAME s1" using e(2) by simp_all
    from c obtain key' nb w where k1: "k = rs_next s" "rs_next s1 = Suc k" "rs_keys s1 = (rs_keys s)(k \<mapsto> key', p \<mapsto> linked_parent i k nb w pk)"
      "fresh_key (init_flags options) n p key'" "options AND REG_OPTION_VOLATILE = 0 \<longrightarrow> \<not> has_flag KEY_VOLATILE pk" by (auto simp: created_def)
    have pk: "p < k" using marks_less [OF m p(1)] k1(1) by simp
    have sh: "shape s1 = (shape s)(k \<mapsto> (init_flags options, Some p, False))"
      using p pk k1(4) by (auto simp: shape_def fun_eq_iff k1(3) linked_parent_def fresh_key_def)
    have m1: "marks {k} s1"
      by (rule marks_new [OF m k1(1) _ sh k1(2) init_flags_marks(1)])
        (use p k1(5) marked_key [OF p(1)] init_flags_marks(2) in \<open>auto simp: shape_def\<close>)
    have t': "marks {k} s'" "marked KEY_DIRTY p s' \<or> marked KEY_VOLATILE p s'"
      unfolding t using touch_marks [OF m1, of p REG_NOTIFY_CHANGE_NAME] pk k1(2,3) by auto
    have wf1: "reg_wf casemap s1" using e(1) by (simp add: keeps_def)
    have q: "quiet s1 s'" unfolding t by (rule touch_key_quiet [OF wf1 created_parent(2) [OF wf1 c]])
    have "rk_parent key = Some p" if "rs_keys s' k = Some key" for key
    proof -
      have "map_option tree_of (rs_keys s' k) = map_option tree_of (rs_keys s1 k)" using q by (simp add: quiet_def same_tree_def)
      then have "tree_of key = tree_of key'" using that k1(3) pk by simp
      then show ?thesis using tree_of_eqD [of key key'] k1(4) by (simp add: fresh_key_def)
    qed
    then show ?thesis using marks_close [OF t'(1)] t'(2) by fastforce
  qed
  then show ?thesis using r by simp
qed

section \<open>Saving\<close>

lemma quiet_parent_rel: "quiet s s' \<Longrightarrow> parent_rel s' = parent_rel s"
proof -
  have "parent_rel s \<subseteq> parent_rel s'" if st: "same_tree s s'" for s s'
  proof
    fix x
    assume "x \<in> parent_rel s"
    then obtain c p ck where x: "x = (c, p)" "rs_keys s c = Some ck" "rk_parent ck = Some p" by (auto simp: parent_rel_def)
    have "map_option tree_of (rs_keys s' c) = map_option tree_of (rs_keys s c)" using st by (simp add: same_tree_def)
    then obtain ck' where "rs_keys s' c = Some ck'" "tree_of ck' = tree_of ck" using x(2) by auto
    then show "x \<in> parent_rel s'" using x tree_of_eqD(2) [of ck' ck] by (auto simp: parent_rel_def)
  qed
  then show "quiet s s' \<Longrightarrow> parent_rel s' = parent_rel s" unfolding quiet_def using same_tree_sym by blast
qed

lemma quiet_below: "quiet s s' \<Longrightarrow> below s' k = below s k"
  by (simp add: below_def quiet_parent_rel)

lemma quiet_volatile: "quiet s s' \<Longrightarrow> marked KEY_VOLATILE k s' = marked KEY_VOLATILE k s"
proof -
  assume "quiet s s'"
  then have e: "map_option tree_of (rs_keys s' k) = map_option tree_of (rs_keys s k)" by (simp add: quiet_def same_tree_def)
  have f: "KEY_VOLATILE AND KEY_DIRTY = 0" by (simp add: KEY_VOLATILE_def KEY_DIRTY_def)
  show ?thesis
  proof (cases "rs_keys s k")
    case None
    then show ?thesis using e by (simp add: marked_def shape_def)
  next
    case (Some key)
    then obtain key' where k': "rs_keys s' k = Some key'" "tree_of key' = tree_of key" using e by auto
    show ?thesis unfolding marked_key [OF Some] marked_key [OF k'(1)] by (rule tree_of_flag [OF f k'(2)])
  qed
qed

lemma below_ge: "reg_wf casemap s \<Longrightarrow> j \<in> below s k \<Longrightarrow> k \<le> j"
proof -
  assume wf: "reg_wf casemap s" and "j \<in> below s k"
  then have "(j, k) \<in> (parent_rel s)\<^sup>*" by (simp add: below_def)
  then show "k \<le> j" by (induction rule: converse_rtrancl_induct) (auto simp: parent_rel_def dest!: parentD(1) [OF wf])
qed

lemma below_split:
  assumes wf: "reg_wf casemap s" and k: "rs_keys s k = Some key"
  shows "below s k = insert k (\<Union>c\<in>set (rk_subkeys key). below s c)"
proof (intro set_eqI iffI)
  fix j
  assume "j \<in> below s k"
  then have "(j, k) \<in> (parent_rel s)\<^sup>*" by (simp add: below_def)
  then show "j \<in> insert k (\<Union>c\<in>set (rk_subkeys key). below s c)"
  proof (cases rule: rtranclE)
    case (step c)
    then obtain ck where "rs_keys s c = Some ck" "rk_parent ck = Some k" by (auto simp: parent_rel_def)
    then have "c \<in> set (rk_subkeys key)" using parentD(3) [OF wf] k by fastforce
    then show ?thesis using step(1) by (auto simp: below_def)
  qed simp
next
  fix j
  assume "j \<in> insert k (\<Union>c\<in>set (rk_subkeys key). below s c)"
  then show "j \<in> below s k" using subkeyD(2) [OF wf k] below_child below_trans by fastforce
qed

text \<open>Below \<open>k\<close> the marks lead up to \<open>k\<close>.\<close>

definition leads :: "nat \<Rightarrow> rstate \<Rightarrow> bool" where
  "leads k s \<longleftrightarrow> (\<forall>c p. (c, p) \<in> parent_rel s \<and> p \<in> below s k \<and> marked KEY_DIRTY c s \<longrightarrow> marked KEY_DIRTY p s)"

lemma leads_up: "leads k s \<Longrightarrow> j \<in> below s k \<Longrightarrow> marked KEY_DIRTY j s \<Longrightarrow> marked KEY_DIRTY k s"
proof -
  assume l: "leads k s" and "j \<in> below s k" and d: "marked KEY_DIRTY j s"
  then have "(j, k) \<in> (parent_rel s)\<^sup>*" by (simp add: below_def)
  then show ?thesis using d
  proof (induction rule: converse_rtrancl_induct)
    case (step a b)
    then show ?case using l unfolding leads_def below_def by blast
  qed
qed

definition cleaned :: "nat set \<Rightarrow> rstate \<Rightarrow> rstate \<Rightarrow> bool" where
  "cleaned R s s' \<longleftrightarrow> quiet s s' \<and> (\<forall>j. marked KEY_DIRTY j s' \<longleftrightarrow> marked KEY_DIRTY j s \<and> j \<notin> R)"

lemma cleaned_trans: "cleaned R s s' \<Longrightarrow> cleaned R' s' s'' \<Longrightarrow> cleaned (R \<union> R') s s''"
  unfolding cleaned_def using quiet_trans by blast

definition fades :: "rstate \<Rightarrow> rstate \<Rightarrow> bool" where
  "fades s s' \<longleftrightarrow> quiet s s' \<and> (\<forall>j. marked KEY_DIRTY j s' \<longrightarrow> marked KEY_DIRTY j s)"

lemma fades_trans: "fades s s' \<Longrightarrow> fades s' s'' \<Longrightarrow> fades s s''"
  unfolding fades_def using quiet_trans by blast

lemma cleaned_fades: "cleaned R s s' \<Longrightarrow> fades s s'"
  by (simp add: cleaned_def fades_def)

lemma cleaned_leads:
  assumes c: "cleaned R s t" and l: "leads k s" and x: "x \<in> below s k" and R: "\<And>c p. (c, p) \<in> parent_rel s \<Longrightarrow> p \<in> R \<Longrightarrow> p \<in> below s x \<Longrightarrow> c \<in> R"
  shows "leads x t"
  unfolding leads_def
proof (intro allI impI)
  fix c p
  assume e: "(c, p) \<in> parent_rel t \<and> p \<in> below t x \<and> marked KEY_DIRTY c t"
  have q: "quiet s t" using assms(1) by (simp add: cleaned_def)
  have e': "(c, p) \<in> parent_rel s" "p \<in> below s x" "marked KEY_DIRTY c s" "c \<notin> R"
    using e assms(1) quiet_parent_rel [OF q] quiet_below [OF q] by (auto simp: cleaned_def)
  then have "marked KEY_DIRTY p s" "p \<notin> R" using l below_trans [OF x] R unfolding leads_def by blast+
  then show "marked KEY_DIRTY p t" using assms(1) by (simp add: cleaned_def)
qed

lemma fold_clean:
  assumes f: "\<And>x t. x \<in> set xs \<Longrightarrow> fades s t \<Longrightarrow> leads x t \<Longrightarrow> cleaned (below t x) t (f x t)"
    and l: "leads k s0" and c: "cleaned R s0 s" and xs: "\<And>x. x \<in> set xs \<Longrightarrow> x \<in> below s0 k"
    and R: "\<And>c p x. (c, p) \<in> parent_rel s0 \<Longrightarrow> x \<in> set xs \<Longrightarrow> p \<in> R \<Longrightarrow> p \<in> below s0 x \<Longrightarrow> c \<in> R"
  shows "cleaned (R \<union> (\<Union>x\<in>set xs. below s0 x)) s0 (fold f xs s)"
  using assms
proof (induction xs arbitrary: s R)
  case (Cons x xs)
  have q: "quiet s0 s" using Cons.prems(3) by (simp add: cleaned_def)
  have "leads x s" by (rule cleaned_leads [OF Cons.prems(3) l]) (use Cons.prems(4,5) in auto)
  then have cx: "cleaned (below s x) s (f x s)" using Cons.prems(1) by (simp add: fades_def)
  have c: "cleaned (R \<union> below s0 x) s0 (f x s)" using cleaned_trans [OF Cons.prems(3) cx] quiet_below [OF q] by simp
  have "cleaned (R \<union> below s0 x \<union> (\<Union>y\<in>set xs. below s0 y)) s0 (fold f xs (f x s))"
  proof (rule Cons.IH [OF _ l c])
    show "\<And>y t. y \<in> set xs \<Longrightarrow> fades (f x s) t \<Longrightarrow> leads y t \<Longrightarrow> cleaned (below t y) t (f y t)"
      using Cons.prems(1) fades_trans [OF cleaned_fades [OF cx]] by simp
    fix c p y
    assume e: "(c, p) \<in> parent_rel s0" "y \<in> set xs" "p \<in> R \<union> below s0 x" "p \<in> below s0 y"
    then have "c \<in> below s0 x" if "p \<in> below s0 x" using that unfolding below_def by (blast intro: converse_rtrancl_into_rtrancl)
    then show "c \<in> R \<union> below s0 x" using e Cons.prems(5) by auto
  qed (use Cons.prems(4) in simp)
  then show ?case by (simp add: Un_assoc)
qed simp

lemma make_clean_cleans:
  "reg_wf casemap s \<Longrightarrow> alive k s \<Longrightarrow> rs_next s \<le> k + fuel \<Longrightarrow> leads k s \<Longrightarrow> (\<And>j. marked KEY_VOLATILE j s \<Longrightarrow> \<not> marked KEY_DIRTY j s) \<Longrightarrow>
    cleaned (below s k) s (make_clean fuel k s)"
proof (induction fuel arbitrary: k s)
  case 0
  then show ?case using alive_less by fastforce
next
  case (Suc fuel)
  note wf = Suc.prems(1)
  obtain key where k: "rs_keys s k = Some key" using Suc.prems(2) by (auto simp: alive_def)
  show ?case
  proof (cases "marked KEY_DIRTY k s")
    case False
    then have "make_clean (Suc fuel) k s = s" using k marked_key [OF k] by simp
    then show ?thesis using False leads_up [OF Suc.prems(4)] by (auto simp: cleaned_def)
  next
    case True
    then have "\<not> has_flag KEY_VOLATILE key" "has_flag KEY_DIRTY key" using Suc.prems(5) marked_key [OF k] by auto
    let ?s1 = "upd_key k (\<lambda>key. key\<lparr>rk_flags := rk_flags key AND NOT KEY_DIRTY\<rparr>) s"
    have e: "make_clean (Suc fuel) k s = fold (make_clean fuel) (rk_subkeys key) ?s1" using \<open>\<not> has_flag KEY_VOLATILE key\<close> \<open>has_flag KEY_DIRTY key\<close> k by simp
    have q1: "quiet s ?s1" by (rule quiet_upd) simp
    have "marked KEY_DIRTY j ?s1 \<longleftrightarrow> marked KEY_DIRTY j s \<and> j \<noteq> k" for j
      using k by (cases "rs_keys s j") (auto simp: marked_def shape_def upd_key_def and.assoc)
    then have c1: "cleaned {k} s ?s1" using q1 by (simp add: cleaned_def)
    have "cleaned ({k} \<union> (\<Union>x\<in>set (rk_subkeys key). below s x)) s (fold (make_clean fuel) (rk_subkeys key) ?s1)"
    proof (rule fold_clean [OF _ Suc.prems(4) c1])
      fix x t
      assume x: "x \<in> set (rk_subkeys key)" and t: "fades ?s1 t" "leads x t"
      have f: "fades s t" by (rule fades_trans [OF cleaned_fades [OF c1] t(1)])
      then have q: "quiet s t" by (simp add: fades_def)
      have "k < x" "alive x s" using subkeyD [OF wf k x] by (auto simp: alive_def)
      then have P: "reg_wf casemap t" "alive x t" "rs_next t \<le> x + fuel" using quiet_wf [OF q wf] quiet_alive [OF q] quiet_next [OF q] Suc.prems(3) by auto
      show "cleaned (below t x) t (make_clean fuel x t)"
        by (rule Suc.IH [OF P t(2)]) (use Suc.prems(5) quiet_volatile [OF q] f in \<open>auto simp: fades_def\<close>)
    next
      show "x \<in> below s k" if "x \<in> set (rk_subkeys key)" for x using that unfolding below_split [OF wf k] by (meson UN_I below_self insertI2)
      show "c \<in> {k}" if "(c, p) \<in> parent_rel s" "x \<in> set (rk_subkeys key)" "p \<in> {k}" "p \<in> below s x" for c p x
        using that below_ge [OF wf, of p x] subkeyD(1) [OF wf k, of x] by simp
    qed
    then show ?thesis unfolding e below_split [OF wf k] by simp
  qed
qed

lemma parent_relD: "(c, p) \<in> parent_rel s \<Longrightarrow> \<exists>ck. rs_keys s c = Some ck \<and> rk_parent ck = Some p"
  by (simp add: parent_rel_def)

lemma marks_leads: "marks {} s \<Longrightarrow> leads k s"
  unfolding leads_def using marksD(5) parent_relD by blast

lemma cleaned_marks:
  assumes wf: "reg_wf casemap s" and m: "marks {} s" and c: "cleaned (below s k) s s'"
  shows "marks {} s'"
proof -
  have q: "quiet s s'" and d: "marked KEY_DIRTY j s' \<longleftrightarrow> marked KEY_DIRTY j s \<and> j \<notin> below s k" for j using c by (simp_all add: cleaned_def)
  have wf': "reg_wf casemap s'" by (rule quiet_wf [OF q wf])
  show ?thesis
  proof (rule marksI)
    fix j jk
    assume j: "rs_keys s' j = Some jk"
    show "j < rs_next s' \<and> \<not> (has_flag KEY_VOLATILE jk \<and> has_flag KEY_DIRTY jk)"
      using key_wfD(1) [OF reg_wfD [OF wf' j]] marks_volatile [OF m, of j] quiet_volatile [OF q, of j] d [of j] marked_key [OF j] by auto
    fix p
    assume p: "rk_parent jk = Some p"
    obtain pk where pk: "rs_keys s' p = Some pk" using parentD(3) [OF wf' j p] by blast
    have "(j, p) \<in> parent_rel s'" using j p by (auto simp: parent_rel_def)
    then have e: "(j, p) \<in> parent_rel s" using quiet_parent_rel [OF q] by simp
    then obtain jk0 where j0: "rs_keys s j = Some jk0" "rk_parent jk0 = Some p" using parent_relD by blast
    note D = marksD(4,5) [OF m j0]
    have "marked KEY_DIRTY p s'" if "marked KEY_DIRTY j s'"
    proof -
      have "p \<notin> below s k" using that d [of j] e unfolding below_def by (blast intro: converse_rtrancl_into_rtrancl)
      then show ?thesis using that d D(2) by simp
    qed
    then show "p < j \<and> rk_name jk \<noteq> None \<and> (\<exists>pk. rs_keys s' p = Some pk \<and>
       (has_flag KEY_VOLATILE pk \<longrightarrow> has_flag KEY_VOLATILE jk) \<and> (j \<notin> {} \<and> has_flag KEY_DIRTY jk \<longrightarrow> has_flag KEY_DIRTY pk))"
      using parentD(1,2) [OF wf' j p] pk D(1) quiet_volatile [OF q] marked_key [OF j] marked_key [OF pk] by auto
  qed
qed

lemma make_clean_marks:
  assumes wf: "reg_wf casemap s" and a: "alive k s" and m: "marks {} s"
  shows "marks {} (make_clean (Suc (rs_next s)) k s)"
  by (rule cleaned_marks [OF wf m make_clean_cleans [OF wf a _ marks_leads [OF m] marks_volatile [OF m]]]) simp_all

section \<open>Every request keeps the marks\<close>

lemma reg_step_marks: "reg_step ok casemap False s s' \<Longrightarrow> reg_wf casemap s \<Longrightarrow> marks {} s \<Longrightarrow> marks {} s'"
proof (induction rule: reg_step.induct)
  case (step_create p s pk name rel options cls)
  then have "rk_name pk \<noteq> None" using get_hkey_obj_alive by fastforce
  moreover have "rel = True" using step_create by simp
  ultimately show ?case using req_create_marks [OF step_create(9,2) _ step_create(7,10)] by simp
next
  case (step_rename k s name)
  then show ?case by (rule_tac rename_marks)
next
  case (step_delete s k key recurse)
  then show ?case using delete_marks(1) by blast
next
  case (step_set k s name type data)
  then show ?case by (rule_tac set_value_marks)
next
  case (step_delete_value k s name)
  then show ?case by (rule_tac delete_value_marks)
next
  case (step_notify k s process hkey event subtree fltr)
  then show ?case using same_links_marks [OF set_registry_notification_shape] by blast
next
  case (step_close s k key process handle)
  then show ?case using same_links_marks [OF key_close_handle_shape] by blast
next
  case (step_saved k s written)
  obtain key where k: "rs_keys s k = Some key" "alive k s" using get_hkey_obj_alive [OF step_saved(2,1)] by (auto simp: alive_def)
  from make_clean_marks [OF step_saved(2) k(2) step_saved(3)] show ?case
    using k(1) step_saved(3) by (simp add: save_branch_def del: make_clean.simps)
next
  case (step_time s t)
  then show ?case using same_links_marks [of s "s\<lparr>rs_time := t\<rparr>"] by (simp add: same_links_def)
qed

end
