(* ===== verification/Registry_Props.thy ===== *)
theory Registry_Props
  imports Registry_Dirty
begin

unbundle bit_operations_syntax

text \<open>The properties of the registry that its clients rely on.\<close>

section \<open>Values\<close>

lemma has_flag_frame:
  assumes "value_frame casemap k key s s' key'" "f AND KEY_DIRTY = 0"
  shows "has_flag f key' = has_flag f key"
proof -
  have "has_flag f (key'\<lparr>rk_values := [], rk_nb_values := 0\<rparr>) = has_flag f (key\<lparr>rk_values := [], rk_nb_values := 0\<rparr>)"
    by (rule tree_of_flag) (use assms in \<open>auto simp: value_frame_def\<close>)
  then show ?thesis by (simp add: has_flag_def)
qed

lemma frame_values_wf: "value_frame casemap k key s s' key' \<Longrightarrow> values_wf casemap key'"
  using frame_wf [of casemap k key s s' key'] reg_wfD key_wfD(5) by blast

text \<open>
  C11: Setting a value and reading values back.  In a well-formed registry, setting a value of a key that is not deleted either stores it, so that a
  query under the name in any case gives the new type and data, or is refused for one of four reasons: the key is predefined, it is a
  link and this is not its target, the name is too long, memory has run out.  Queries under all other names, and all queries if the value was
  refused, give what they gave before.  Deleting a value that is there makes queries under its name fail and
  changes no other; deleting one that is not is an error.
\<close>

theorem registry_values:
  assumes wf: "reg_wf casemap s" and k: "rs_keys s k = Some key" "rk_name key \<noteq> None" "\<not> has_flag KEY_PREDEF key"
  shows "(\<exists>key'. rs_keys (set_value ok casemap k name type data s) k = Some key' \<and>
      ((\<forall>n max_size. get_value casemap key' n max_size =
          (if name_cmp casemap n name = 0 then Inr (type, length data, take max_size data) else get_value casemap key n max_size)) \<or>
       (\<forall>n max_size. get_value casemap key' n max_size = get_value casemap key n max_size) \<and>
       set_refused ok casemap key name type (rs_error (set_value ok casemap k name type data s)))) \<and>
    (\<exists>key'. rs_keys (delete_value ok casemap k name s) k = Some key' \<and>
      (if get_value casemap key name 0 = Inl STATUS_OBJECT_NAME_NOT_FOUND
       then (\<forall>n max_size. get_value casemap key' n max_size = get_value casemap key n max_size) \<and>
         rs_error (delete_value ok casemap k name s) = STATUS_OBJECT_NAME_NOT_FOUND
       else \<forall>n max_size. get_value casemap key' n max_size =
          (if name_cmp casemap n name = 0 then Inl STATUS_OBJECT_NAME_NOT_FOUND else get_value casemap key n max_size)))"
proof -
  note v = key_wfD(5) [OF reg_wfD [OF wf k(1)]]
  have P: "\<not> has_flag KEY_PREDEF key'" if "value_frame casemap k key s s' key'" for s' key' using has_flag_frame [OF that] k(3) by simp
  have get: "get_value casemap key' n max_size = (case value_map casemap key' (name_key casemap n) of None \<Rightarrow> Inl STATUS_OBJECT_NAME_NOT_FOUND
      | Some (t, d) \<Rightarrow> Inr (t, length d, take max_size d))" if "value_frame casemap k key s s' key'" for s' key' n max_size
    using get_value_map [OF frame_values_wf [OF that]] P [OF that] by simp
  have get0: "get_value casemap key n max_size = (case value_map casemap key (name_key casemap n) of None \<Rightarrow> Inl STATUS_OBJECT_NAME_NOT_FOUND
      | Some (t, d) \<Rightarrow> Inr (t, length d, take max_size d))" for n max_size using get_value_map [OF v] k(3) by simp
  have miss: "get_value casemap key name 0 = Inl STATUS_OBJECT_NAME_NOT_FOUND \<longleftrightarrow> value_map casemap key (name_key casemap name) = None"
    unfolding get0 by (auto split: option.splits)
  obtain key1 where s1: "value_frame casemap k key s (set_value ok casemap k name type data s) key1"
    "value_map casemap key1 = (value_map casemap key)(name_key casemap name \<mapsto> (type, data)) \<or>
     value_map casemap key1 = value_map casemap key \<and> set_refused ok casemap key name type (rs_error (set_value ok casemap k name type data s))"
    using set_value_correct [OF wf k(1,2)] unfolding set_done_def by blast
  obtain key2 where s2: "value_frame casemap k key s (delete_value ok casemap k name s) key2"
    "if value_map casemap key (name_key casemap name) = None
     then value_map casemap key2 = value_map casemap key \<and> rs_error (delete_value ok casemap k name s) = STATUS_OBJECT_NAME_NOT_FOUND
     else value_map casemap key2 = (value_map casemap key)(name_key casemap name := None)"
    using delete_value_correct [OF wf k(1,2)] k(3) unfolding delete_value_done_def by auto
  have A: "(\<forall>n max_size. get_value casemap key1 n max_size =
        (if name_cmp casemap n name = 0 then Inr (type, length data, take max_size data) else get_value casemap key n max_size)) \<or>
     (\<forall>n max_size. get_value casemap key1 n max_size = get_value casemap key n max_size) \<and>
       set_refused ok casemap key name type (rs_error (set_value ok casemap k name type data s))"
    using s1(2) by (auto simp: get [OF s1(1)] get0 name_cmp_eq)
  have B: "if get_value casemap key name 0 = Inl STATUS_OBJECT_NAME_NOT_FOUND
     then (\<forall>n max_size. get_value casemap key2 n max_size = get_value casemap key n max_size) \<and>
       rs_error (delete_value ok casemap k name s) = STATUS_OBJECT_NAME_NOT_FOUND
     else \<forall>n max_size. get_value casemap key2 n max_size =
        (if name_cmp casemap n name = 0 then Inl STATUS_OBJECT_NAME_NOT_FOUND else get_value casemap key n max_size)"
    using s2(2) unfolding miss by (auto simp: get [OF s2(1)] get0 name_cmp_eq split: if_splits)
  show ?thesis using A B frame_wf [OF s1(1)] frame_wf [OF s2(1)] by blast
qed

lemma reg_init_wf: "reg_wf casemap (reg_init name)"
  by (auto simp: reg_wf_def key_wf_def subkeys_wf_def parent_wf_def values_wf_def room_wf_def state_wf_def reg_init_def blank_key_def
    name_order.ordered_def has_flag_def KEY_DELETED_def KEY_DIRTY_def)

theorem registry_values_witness:
  "\<exists>key'. rs_keys (set_value (\<lambda>_. True) (\<lambda>_. 0) 0 [0x41] 1 [0x42] (reg_init [0x52])) 0 = Some key' \<and>
     get_value (\<lambda>_. 0) key' [0x41] 10 = Inr (1, 1, [0x42])"
proof -
  let ?s = "reg_init [0x52]"
  let ?key = "blank_key\<lparr>rk_name := Some [0x52], rk_flags := KEY_DIRTY\<rparr>"
  have k: "rs_keys ?s 0 = Some ?key" by (simp add: reg_init_def)
  have f: "rk_name ?key \<noteq> None" "\<not> has_flag KEY_PREDEF ?key" by (simp_all add: has_flag_def KEY_DIRTY_def KEY_PREDEF_def)
  have "\<not> set_refused (\<lambda>_. True) (\<lambda>_. 0) ?key [0x41] 1 e" for e
    by (simp add: set_refused_def has_flag_def KEY_DIRTY_def KEY_PREDEF_def KEY_SYMLINK_def MAX_VALUE_LEN_def)
  then obtain key' where k': "rs_keys (set_value (\<lambda>_. True) (\<lambda>_. 0) 0 [0x41] 1 [0x42] ?s) 0 = Some key'"
    "\<forall>n max_size. get_value (\<lambda>_. 0) key' n max_size =
       (if name_cmp (\<lambda>_. 0) n [0x41] = 0 then Inr (1, length [0x42 :: u8], take max_size [0x42]) else get_value (\<lambda>_. 0) ?key n max_size)"
    using registry_values [OF reg_init_wf k f, where casemap = "\<lambda>_. 0" and ok = "\<lambda>_. True" and name = "[0x41]" and type = 1 and data = "[0x42]"] by blast
  then have "get_value (\<lambda>_. 0) key' [0x41] 10 = Inr (1, 1, [0x42])" by (simp add: name_cmp_eq)
  then show ?thesis using k'(1) by blast
qed

section \<open>Every sequence of requests\<close>

lemma reach_wf: "reg_reach ok casemap absolute s \<Longrightarrow> reg_wf casemap s \<and> rs_ok s"
proof (induction rule: reg_reach.induct)
  case (reach_init name)
  then show ?case using reg_init_wf by (simp add: reg_init_def)
next
  case (reach_step s s')
  then show ?case using reg_step_keeps [of ok casemap absolute s s'] by (simp add: keeps_def)
qed

lemma key_wf_explicit:
  assumes wf: "reg_wf casemap s" and k: "rs_keys s k = Some key"
  shows "c \<in> set (rk_subkeys key) \<longleftrightarrow> (\<exists>ck. rs_keys s c = Some ck \<and> rk_parent ck = Some k)"
    "sorted_wrt (\<lambda>a b. name_cmp casemap (key_name s a) (key_name s b) < 0) (rk_subkeys key)"
    "sorted_wrt (\<lambda>v w. name_cmp casemap (kv_name v) (kv_name w) < 0) (rk_values key)"
    "fst (find_subkey casemap s key name) \<longleftrightarrow> (\<exists>c\<in>set (rk_subkeys key). name_cmp casemap (key_name s c) name = 0)"
proof -
  note w = key_wfD [OF reg_wfD [OF wf k]]
  show "c \<in> set (rk_subkeys key) \<longleftrightarrow> (\<exists>ck. rs_keys s c = Some ck \<and> rk_parent ck = Some k)"
    using subkeyD(2) [OF wf k] parentD(3) [OF wf] k by fastforce
  show "sorted_wrt (\<lambda>a b. name_cmp casemap (key_name s a) (key_name s b) < 0) (rk_subkeys key)"
    using w(4) by (simp add: name_order.ordered_def name_cmp_less sorted_wrt_map)
  show "sorted_wrt (\<lambda>v w. name_cmp casemap (kv_name v) (kv_name w) < 0) (rk_values key)"
    using w(5) by (simp add: values_wf_def name_order.ordered_def name_cmp_less sorted_wrt_map)
  have "fst (find_subkey casemap s key name) \<longleftrightarrow> (\<exists>i. find_subkey casemap s key name = (True, i))" by (metis fst_conv surj_pair)
  also have "\<dots> \<longleftrightarrow> (\<exists>n\<in>set (map (key_name s) (rk_subkeys key)). name_key casemap n = name_key casemap name)"
    unfolding find_subkey_names by (rule name_order.search_iff [OF w(4)])
  finally show "fst (find_subkey casemap s key name) \<longleftrightarrow> (\<exists>c\<in>set (rk_subkeys key). name_cmp casemap (key_name s c) name = 0)"
    by (simp add: name_cmp_eq)
qed

text \<open>
  C10: The invariant of the registry.  After any sequence of requests that create, rename and delete keys, set and delete values, ask for
  notifications, close handles and save, with allocations that may fail at any point, no assertion has failed and no key that does not exist has
  been read.  The array of subkeys of a key holds just the keys whose parent it is; a parent exists, is older and is not deleted; subkeys and values
  are strictly sorted by name, so that no two names agree up to case; the search for a subkey finds it just if it is there; the arrays
  have room for what they hold; and a key is marked deleted just if it has lost its name.
\<close>

theorem registry_reach_wf:
  assumes r: "reg_reach ok casemap absolute s"
  shows "rs_ok s \<and> (\<forall>k key. rs_keys s k = Some key \<longrightarrow>
    (\<forall>c. c \<in> set (rk_subkeys key) \<longleftrightarrow> (\<exists>ck. rs_keys s c = Some ck \<and> rk_parent ck = Some k)) \<and>
    (\<forall>p. rk_parent key = Some p \<longrightarrow> p < k \<and> (\<exists>pk. rs_keys s p = Some pk \<and> \<not> has_flag KEY_DELETED pk)) \<and>
    sorted_wrt (\<lambda>a b. name_cmp casemap (key_name s a) (key_name s b) < 0) (rk_subkeys key) \<and>
    sorted_wrt (\<lambda>v w. name_cmp casemap (kv_name v) (kv_name w) < 0) (rk_values key) \<and>
    (\<forall>name. fst (find_subkey casemap s key name) \<longleftrightarrow> (\<exists>c\<in>set (rk_subkeys key). name_cmp casemap (key_name s c) name = 0)) \<and>
    length (rk_subkeys key) \<le> rk_nb_subkeys key \<and> length (rk_values key) \<le> rk_nb_values key \<and>
    (rk_name key = None \<longleftrightarrow> has_flag KEY_DELETED key))"
proof (intro conjI allI impI)
  have wf: "reg_wf casemap s" using reach_wf [OF r] by blast
  show "rs_ok s" using reach_wf [OF r] by blast
  fix k key
  assume k: "rs_keys s k = Some key"
  note e = key_wf_explicit [OF wf k] note w = key_wfD [OF reg_wfD [OF wf k]]
  show "c \<in> set (rk_subkeys key) \<longleftrightarrow> (\<exists>ck. rs_keys s c = Some ck \<and> rk_parent ck = Some k)" for c by (rule e(1))
  show "sorted_wrt (\<lambda>a b. name_cmp casemap (key_name s a) (key_name s b) < 0) (rk_subkeys key)" by (rule e(2))
  show "sorted_wrt (\<lambda>v w. name_cmp casemap (kv_name v) (kv_name w) < 0) (rk_values key)" by (rule e(3))
  show "fst (find_subkey casemap s key name) \<longleftrightarrow> (\<exists>c\<in>set (rk_subkeys key). name_cmp casemap (key_name s c) name = 0)" for name by (rule e(4))
  show "length (rk_subkeys key) \<le> rk_nb_subkeys key" "length (rk_values key) \<le> rk_nb_values key" using w(6) by (simp_all add: room_wf_def)
  show "rk_name key = None \<longleftrightarrow> has_flag KEY_DELETED key" using w(7) by (simp add: state_wf_def)
  fix p
  assume p: "rk_parent key = Some p"
  show "p < k" by (rule parentD(1) [OF wf k p])
  obtain pk where pk: "rs_keys s p = Some pk" "rk_name pk \<noteq> None" using parentD(3) [OF wf k p] by blast
  then show "\<exists>pk. rs_keys s p = Some pk \<and> \<not> has_flag KEY_DELETED pk" using key_wfD(7) [OF reg_wfD [OF wf pk(1)]] by (auto simp: state_wf_def)
qed

text \<open>A registry with one key below the root, created by a name relative to the handle of the root.\<close>

definition one_key :: rstate where
  "one_key = snd (req_create_key (\<lambda>_. True) (\<lambda>_. 0) True 0 [] 0 [0x41] (reg_init [0x52]))"

lemma one_key_step:
  assumes "rel \<or> absolute" "rs_keys s 0 = Some key" "rk_subkeys key = []" "\<not> has_flag KEY_DELETED key" "\<not> has_flag KEY_SYMLINK key"
  shows "reg_step ok casemap absolute s (snd (req_create_key ok casemap rel options cls 0 [0x41] s))"
proof (rule step_create)
  show "get_path_element [0x41] = [0x41]" by (simp add: get_path_element_def)
  show "\<not> fst (find_subkey casemap s key [0x41])" using assms(3) by (simp add: find_subkey_def name_search.simps)
qed (use assms in \<open>auto simp: get_hkey_obj_def MAX_NAME_LEN_def\<close>)

lemma reg_init_key: "rs_keys (reg_init n) 0 = Some (blank_key\<lparr>rk_name := Some n, rk_flags := KEY_DIRTY\<rparr>)"
  by (simp add: reg_init_def)

lemma one_key_reach: "reg_reach (\<lambda>_. True) (\<lambda>_. 0) absolute one_key"
  unfolding one_key_def
  by (rule reach_step [OF reach_init one_key_step [OF _ reg_init_key]])
    (simp_all add: has_flag_def blank_key_def KEY_DIRTY_def KEY_DELETED_def KEY_SYMLINK_def)

lemma one_key_root: "map_option (\<lambda>key. (rk_subkeys key, has_flag KEY_DIRTY key)) (rs_keys one_key 0) = Some ([1], True)"
  by code_simp

lemma one_key_new: "map_option (\<lambda>key. (rk_parent key, has_flag KEY_DIRTY key, has_flag KEY_PREDEF key)) (rs_keys one_key 1) = Some (Some 0, True, False)"
  by code_simp

lemma one_key_next: "rs_next one_key = 2"
  by code_simp

theorem registry_reach_wf_witness:
  "rs_ok one_key \<and> (\<exists>key. rs_keys one_key 0 = Some key \<and> 1 \<in> set (rk_subkeys key) \<and>
     fst (find_subkey (\<lambda>_. 0) one_key key (key_name one_key 1)))"
proof -
  note r = registry_reach_wf [OF one_key_reach [of True]]
  obtain key where k: "rs_keys one_key 0 = Some key" "rk_subkeys key = [1]" using one_key_root by auto
  have "name_cmp (\<lambda>_. 0) (key_name one_key 1) (key_name one_key 1) = 0" by (simp add: name_cmp_eq)
  then have "fst (find_subkey (\<lambda>_. 0) one_key key (key_name one_key 1))" using r k by auto
  then show ?thesis using r k by auto
qed

section \<open>Deleting a branch\<close>

text \<open>
  C12: Deleting a key with all keys below it.  The deletion ends within twice as many nested calls as keys were ever created, and two more, and
  keeps the registry well formed.  It succeeds unless the key is a root or a predefined key lives at or below it; when it
  succeeds the key and all keys below it are deleted, and in any case no other key is.  The keys that live on keep their name,
  parent, class, values and flags, up to the mark of unsaved changes.
\<close>

theorem delete_key_branch:
  assumes wf: "reg_wf casemap s" and k: "rs_keys s k = Some key"
    and r: "delete_key ok (2 * rs_next s + 2) k True s = (b, s')"
  shows "reg_wf casemap s' \<and> rs_ok s' = rs_ok s \<and>
    (b \<longrightarrow> (\<forall>j\<in>below s k. \<not> alive j s')) \<and>
    (\<not> b \<longrightarrow> rk_parent key = None \<or> (\<exists>j\<in>below s k. guarded j s)) \<and>
    (\<forall>j. alive j s \<and> j \<notin> below s k \<longrightarrow> alive j s') \<and>
    (\<forall>j jk'. rs_keys s' j = Some jk' \<and> rk_name jk' \<noteq> None \<longrightarrow> (\<exists>jk. rs_keys s j = Some jk \<and> kept jk jk'))"
proof -
  have d: "deletes_key casemap s k True b s'" using delete_key_done [OF wf k, of True ok] r by simp
  then have D: "reg_wf casemap s'" "rs_ok s' = rs_ok s" "dies_below s k s'" "b \<longrightarrow> \<not> alive k s'"
    "\<not> b \<longrightarrow> rk_parent key = None \<or> (\<exists>j\<in>below s k. guarded j s)" using k by (auto simp: deletes_key_def keeps_def)
  have p: "pruned s s'" and n: "\<forall>j. alive j s \<and> j \<notin> below s k \<longrightarrow> alive j s'" using D(3) by (auto simp: dies_below_def)
  have dead: "b \<longrightarrow> (\<forall>j\<in>below s k. \<not> alive j s')" using below_dead [OF D(1) p] D(4) by blast
  have live: "\<forall>j jk'. rs_keys s' j = Some jk' \<and> rk_name jk' \<noteq> None \<longrightarrow> (\<exists>jk. rs_keys s j = Some jk \<and> kept jk jk')" using prunedD [OF p] by blast
  show ?thesis by (intro conjI D(1,2,5) n dead live)
qed

theorem delete_key_branch_witness:
  "\<not> alive 1 (snd (delete_key (\<lambda>_. True) (2 * rs_next one_key + 2) 1 True one_key)) \<and>
   alive 0 (snd (delete_key (\<lambda>_. True) (2 * rs_next one_key + 2) 1 True one_key))"
proof -
  have wf: "reg_wf (\<lambda>_. 0) one_key" using reach_wf [OF one_key_reach] by blast
  obtain key where k: "rs_keys one_key 1 = Some key" "rk_parent key = Some 0" "\<not> has_flag KEY_PREDEF key" using one_key_new by auto
  obtain b s' where r: "delete_key (\<lambda>_. True) (2 * rs_next one_key + 2) 1 True one_key = (b, s')" by (rule prod.exhaust)
  note d = delete_key_branch [OF wf k(1) r]
  have "\<not> guarded j one_key" if "j \<in> below one_key 1" for j
  proof
    assume g: "guarded j one_key"
    then have "alive j one_key" by (auto simp: guarded_def alive_def)
    then have "j = 1" using alive_less [OF wf] below_ge [OF wf that] one_key_next by fastforce
    then show False using g k(1,3) by (auto simp: guarded_def)
  qed
  then have b using d k(2) by auto
  then have "\<not> alive 1 s'" using d below_self by blast
  moreover have "alive 0 one_key" using alive_parent [OF wf k(1,2)] by blast
  then have "alive 0 s'" using d below_ge [OF wf, of 0 1] by auto
  ultimately show ?thesis using r by simp
qed

section \<open>Unsaved changes\<close>

lemma reach_marks: "reg_reach ok casemap False s \<Longrightarrow> marks {} s"
proof (induction rule: reg_reach.induct)
  case (reach_init name)
  then show ?case by (intro marksI) (auto simp: reg_init_def blank_key_def has_flag_def KEY_DIRTY_def KEY_VOLATILE_def split: if_splits)
next
  case (reach_step s s')
  then show ?case using reg_step_marks reach_wf by blast
qed

text \<open>
  C21: No change is lost between saves as long as keys are created relative to the handle of an existing key.  A save of a branch starts with
  the mark of its root and skips the branch if there is none.  Whenever any key has the mark of unsaved changes, so
  have all keys above it, up to the root of the branch, and it is not volatile; and touching a key, as every change of a
  key does, leaves the mark on it unless it is volatile.  After a save of a branch that succeeds no key of it is marked.
\<close>

theorem registry_dirty:
  assumes r: "reg_reach ok casemap False s" and k: "rs_keys s k = Some key" "k \<in> below s j" and j: "rs_keys s j = Some jk"
  shows "(has_flag KEY_DIRTY key \<longrightarrow> has_flag KEY_DIRTY jk \<and> \<not> has_flag KEY_VOLATILE key) \<and>
    (\<forall>change key'. rs_keys (touch_key k change s) k = Some key' \<longrightarrow> has_flag KEY_DIRTY key' \<or> has_flag KEY_VOLATILE key') \<and>
    (\<forall>key'. rk_name jk \<noteq> None \<and> rs_keys (snd (save_branch True j s)) k = Some key' \<longrightarrow> \<not> has_flag KEY_DIRTY key')"
proof (intro conjI allI impI)
  have wf: "reg_wf casemap s" using reach_wf [OF r] by blast
  have m: "marks {} s" by (rule reach_marks [OF r])
  note u = leads_up [OF marks_leads [OF m] k(2)]
  show "has_flag KEY_DIRTY jk" if "has_flag KEY_DIRTY key" using u that marked_key [OF k(1)] marked_key [OF j] by simp
  show "\<not> has_flag KEY_VOLATILE key" if "has_flag KEY_DIRTY key" using that marks_volatile [OF m, of k] marked_key [OF k(1)] by auto
  show "has_flag KEY_DIRTY key' \<or> has_flag KEY_VOLATILE key'" if "rs_keys (touch_key k change s) k = Some key'" for change key'
    using touch_marks(3) [OF m, of k change] marks_less [OF m k(1)] k(1) marked_key [OF that] by auto
  fix key'
  assume a: "rk_name jk \<noteq> None \<and> rs_keys (snd (save_branch True j s)) k = Some key'"
  have "alive j s" using a j by (simp add: alive_def)
  then have c: "cleaned (below s j) s (make_clean (Suc (rs_next s)) j s)"
    by (intro make_clean_cleans [OF wf _ _ marks_leads [OF m] marks_volatile [OF m]]) simp_all
  have "\<not> marked KEY_DIRTY k (snd (save_branch True j s))"
    using c k(2) u marked_key [OF j] j by (auto simp: save_branch_def cleaned_def simp del: make_clean.simps)
  then show "\<not> has_flag KEY_DIRTY key'" using marked_key [of _ k key'] a by blast
qed

theorem registry_dirty_witness:
  "\<exists>key. rs_keys (snd (save_branch True 0 one_key)) 1 = Some key \<and> \<not> has_flag KEY_DIRTY key"
proof -
  obtain key where k: "rs_keys one_key 1 = Some key" "rk_parent key = Some 0" using one_key_new by auto
  have "alive 0 one_key" using alive_parent [OF conjunct1 [OF reach_wf [OF one_key_reach]] k] by blast
  then obtain jk where j: "rs_keys one_key 0 = Some jk" "rk_name jk \<noteq> None" by (auto simp: alive_def)
  obtain key' where k': "rs_keys (snd (save_branch True 0 one_key)) 1 = Some key'"
  proof -
    have "rs_keys (snd (save_branch True 0 one_key)) 1 \<noteq> None" by code_simp
    then show thesis using that by blast
  qed
  then show ?thesis using registry_dirty [OF one_key_reach k(1) below_child [OF k] j(1)] j(2) by blast
qed

text \<open>A clean registry, a key created below its root with an absolute name, and then a value set in it.\<close>

definition clean_root :: rstate where
  "clean_root = snd (save_branch True 0 (reg_init [0x52]))"

definition lost_key :: rstate where
  "lost_key = snd (req_create_key (\<lambda>_. True) (\<lambda>_. 0) False 0 [] 0 [0x41] clean_root)"

definition lost_value :: rstate where
  "lost_value = set_value (\<lambda>_. True) (\<lambda>_. 0) 1 [0x42] 1 [0x43] lost_key"

lemma clean_root_key: "map_option (\<lambda>key. (rk_subkeys key, has_flag KEY_DELETED key, has_flag KEY_SYMLINK key)) (rs_keys clean_root 0) = Some ([], False, False)"
  by code_simp

lemma lost_key_keys:
  "rs_keys lost_key 0 = Some (blank_key\<lparr>rk_name := Some [0x52], rk_subkeys := [1], rk_nb_subkeys := 8\<rparr>)"
  "rs_keys lost_key 1 = Some (blank_key\<lparr>rk_name := Some [0x41], rk_parent := Some 0, rk_flags := KEY_DIRTY\<rparr>)"
  "rs_next lost_key = 2"
  by code_simp+

lemma lost_value_reach: "reg_reach (\<lambda>_. True) (\<lambda>_. 0) True lost_value"
proof -
  have "get_hkey_obj 0 (reg_init [0x52]) = Inr 0" by code_simp
  then have c: "reg_reach (\<lambda>_. True) (\<lambda>_. 0) True clean_root" unfolding clean_root_def by (rule reach_step [OF reach_init step_saved])
  obtain key where k: "rs_keys clean_root 0 = Some key" "rk_subkeys key = []" "\<not> has_flag KEY_DELETED key" "\<not> has_flag KEY_SYMLINK key"
    using clean_root_key by auto
  have l: "reg_reach (\<lambda>_. True) (\<lambda>_. 0) True lost_key" unfolding lost_key_def
    by (rule reach_step [OF c one_key_step [OF disjI2 k]]) simp
  have "get_hkey_obj 1 lost_key = Inr 1" by code_simp
  then show ?thesis unfolding lost_value_def by (rule reach_step [OF l step_set])
qed


end
