(* ===== verification/Spec2Isabelle.thy ===== *)
theory Spec2Isabelle
  imports Server_Prelude User_Handles Region_Ops Handle_Runs Sync_Props Unicode Atoms Registry_Props
begin

text \<open>
  A verification development for the wineserver, the process of Wine that owns the state shared by the Windows processes of one session
  (\<^verbatim>\<open>src/server\<close>).  Client processes send requests; the server handles one request at a time, in a single thread, and every handler
  runs to its end.  So a handler is modelled as a function on the state, and the server as a sequence of such steps.

  \<^bold>\<open>Parts and how they interact.\<close>
  A process names kernel objects by handles: indices into its handle table, whose entries hold a reference to the object and access rights.  Events, mutexes
  and semaphores are kernel objects that threads wait on.  Registry keys are kernel objects linked into a tree by their names.  Windows, menus and hooks have
  USER handles from one table that all processes share; the areas of windows are regions.  Atoms number the strings that
  classes and properties are known by.  Names are compared without case throughout, with the strings of \<^verbatim>\<open>unicode.c\<close>.

  \<^bold>\<open>Theories.\<close>
  \<^item> \<open>Server_Prelude\<close>: the integer types of the protocol, the status codes, and facts on words and lists that the components share.
  \<^item> \<open>User_Handles\<close> (\<^verbatim>\<open>server/user.c\<close>): the record of the table, allocation, lookup, release and enumeration, the request handlers, and their runs.
    A handle that was released is rejected for the next 65533 allocations, before the 16-bit generation of its slot can come round; live handles are distinct; the release at process
    exit frees exactly the handles of the process; allocation does not check the size of the shared table.
  \<^item> \<open>Regions\<close>, \<open>Region_Bands\<close>, \<open>Region_Sweep\<close>, \<open>Region_Ops\<close> (\<^verbatim>\<open>server/region.c\<close>, rectangle helpers of \<^verbatim>\<open>server/user.h\<close>): regions in a store, so
    that a destination may be one of the sources, with an allocator that may fail.  The sweep of \<open>region_op\<close> is verified once, in the
    locale \<open>band_operation\<close>, for any functions on bands that implement a Boolean operation; it is interpreted for intersection, difference and
    union.  Union, intersection, difference and exclusive or compute the point sets they stand for, as banded lists with exact extents, also when the destination is a source, or fail for lack of memory; membership tests
    agree with the point sets; the data sent to a client can be read back.
  \<^item> \<open>Handle_Table\<close>, \<open>Objects\<close>, \<open>Handles\<close>, \<open>Handle_Laws\<close>, \<open>Handle_Sharing\<close>, \<open>Handle_Runs\<close> (\<^verbatim>\<open>server/handle.c\<close>, \<^verbatim>\<open>server/object.c\<close>): reference-counted
    objects and the tables of handles on them.  The invariant says that the counts of every object are those of the entries that hold it, plus the references
    the rest of the server holds.  Allocation and closing refine operations on a finite map from handles to objects and rights; no run reaches a dangling handle; a
    duplicate has no right that the source lacks unless the access check granted it; the death of a process closes all its handles and no others.
  \<^item> \<open>Sync\<close>, \<open>Sync_Ops\<close>, \<open>Sync_Wf\<close>, \<open>Sync_Wake\<close>, \<open>Sync_Laws\<close>, \<open>Sync_Death\<close>, \<open>Sync_Select\<close>, \<open>Sync_Runs\<close>, \<open>Sync_Props\<close> (\<^verbatim>\<open>server/event.c\<close>,
    \<^verbatim>\<open>server/mutex.c\<close>, \<^verbatim>\<open>server/semaphore.c\<close>, the waits of \<^verbatim>\<open>server/thread.c\<close>): sync objects with their wait queues.  No assertion fails, no wakeup is
    lost, a wait for all objects takes all or none, and a dying thread gives up its mutexes, in every run within the stated conditions; two
    theorems show what happens outside of them.
  \<^item> \<open>Unicode\<close> (\<^verbatim>\<open>server/unicode.c\<close>): comparison, hash, and the text form of strings in registry files.  Parsing what was printed gives the string back, and the
    parser stays within its buffer on any input.
  \<^item> \<open>Name_Hash\<close>, \<open>Atoms\<close> (\<^verbatim>\<open>server/atom.c\<close>): hash tables of names as the locale \<open>hash_chain\<close>, interpreted for the server's strings, and atom tables as a
    refinement of a map from names to atoms.
  \<^item> \<open>Name_Order\<close>, \<open>Registry\<close>, \<open>Registry_Wf\<close>, \<open>Registry_Ops\<close>, \<open>Registry_Tree\<close>, \<open>Registry_Create\<close>, \<open>Registry_Dirty\<close>, \<open>Registry_Props\<close>
    (\<^verbatim>\<open>server/registry.c\<close>): sorted arrays searched by bisection as the locale \<open>sorted_array\<close>, interpreted for the comparison of the code; the tree of
    keys, its values, notifications and the marks of unsaved changes.  Every run keeps the tree well formed and crashes nowhere; values that were set
    are read back; a recursive deletion ends and deletes the branch and nothing else; the marks reach the root of every branch with unsaved
    changes when keys are created relative to handles, and a theorem shows that otherwise they do not.

  \<^bold>\<open>Conventions.\<close>
  Pointers to objects, keys, threads and regions are numbers that index a map or a store.  A handler that sets an error returns \<open>Inl\<close> of the status, or
  puts it in the state where it also changes the state.  A failed assertion, a null pointer or a store outside an array is visible: \<^const>\<open>None\<close> for
  the handles, a flag that is cleared for synchronization (\<open>ws_ok\<close>) and the registry (\<open>rs_ok\<close>); the invariants show where it cannot happen.  Memory that
  runs out is an argument \<open>ok\<close>, which tells for each request for memory whether it succeeds, so that the theorems hold for every pattern of failures.

  \<^bold>\<open>Loops and bounds.\<close>
  Loops are recursive functions with termination proofs.  The loop over the mutexes of a dying thread is a partial function that is proved to
  return.  The recursions over the tree of keys have fuel: the loops to the root get one more than the number of keys ever created, which is enough
  because a parent is older than its subkeys; saving gets the same for the same reason; the recursive deletion gets twice that number and two, because each
  pair of nested calls is spent on a living key.  Running out of fuel counts as a crash, and the theorems show that nothing crashes.  Machine integers are
  words where the code depends on their width (handles, access rights, flags, atoms, characters); region coordinates are integers with the wrap-around written
  out where the code computes with them.

  \<^bold>\<open>Parameters.\<close>
  The case table (read from a file), the answer of the access check and the callbacks of object types, the contents of queued calls,
  the clock, and whether a registry file could be written.

  \<^bold>\<open>Not modelled.\<close>
  The fd layer and all that lives on it (files, sockets, pipes, devices, mappings, asynchronous operations, change notification), signals, the main loop and
  the debugging interfaces are calls of the host system.  Of the rest of the server, windows, classes, hooks, message queues, window stations, the clipboard,
  consoles, tokens, jobs, timers, completion ports and the name spaces of objects are not modelled; they are code of the same kind, and nothing here relies on them except
  through the parameters above.  Within the modelled files these are left out: debugging dumps; \<open>open_object\<close> and the requests for security descriptors in
  \<^verbatim>\<open>handle.c\<close>; keyed events; the loading of the case table; in \<^verbatim>\<open>registry.c\<close> the lookup of paths with links and the redirection for
  32-bit programs, reading and writing of files, the replies that enumerate keys, security descriptors, and the reference counts of keys.  The client
  libraries, programs, tools and the emulation bridges of the ppc64le port run outside of the server.
\<close>

end
